(* ===== verification/Base.thy ===== *)
theory Base
  imports Complex_Main "HOL-Library.Word" "HOL-Library.Signed_Division"
begin

text \<open>
  Shared vocabulary of the development: the ways an operation of the library can
  fail (\<open>fault\<close>) and the result type with its sequencing combinators, \<open>size_t\<close>
  arithmetic at 64 bits, the bounds-checked byte copies behind \<open>std::copy\<close> and
  \<open>memcpy\<close>, the reachable states of a step relation, and the locale of
  invariants that every concurrent component interprets.
\<close>

unbundle bit_operations_syntax

section \<open>Hints\<close>

declare Let_def [simp]

named_theorems stnl_defs \<open>unfolding the operations of a component\<close>
named_theorems stnl_inv \<open>invariant preservation facts\<close>

section \<open>Results and faults\<close>

text \<open>
  A faulting execution is a value. \<open>AssertFailed\<close> is a failed \<open>assert\<close> (the build
  does not define \<open>NDEBUG\<close>), \<open>Aborted\<close> an \<open>abort()\<close> reached through
  \<open>LOG_FATAL\<close>, \<open>OutOfBounds\<close> a copy outside its vector, \<open>LengthError\<close> the exception
  of \<open>std::vector::resize\<close>, \<open>BadAlloc\<close> the exception of a failed \<open>new\<close>, \<open>DanglingPointer\<close> a dereference of an object that is
  not alive, \<open>NullFunction\<close> a call of an empty \<open>std::function\<close>, and
  \<open>SignedOverflow\<close> an overflow of signed arithmetic or of a conversion to
  \<open>int64_t\<close>.
\<close>

datatype fault =
    AssertFailed
  | Aborted
  | OutOfBounds
  | LengthError
  | BadAlloc
  | DanglingPointer
  | NullFunction
  | SignedOverflow

type_synonym 'a result = "fault + 'a"

definition bindr :: "'a result \<Rightarrow> ('a \<Rightarrow> 'b result) \<Rightarrow> 'b result" where
  "bindr m f = (case m of Inl e \<Rightarrow> Inl e | Inr x \<Rightarrow> f x)"

definition check :: "fault \<Rightarrow> bool \<Rightarrow> 'a result \<Rightarrow> 'a result" where
  "check e b m = (if b then m else Inl e)"

abbreviation assert_c :: "bool \<Rightarrow> 'a result \<Rightarrow> 'a result" where
  "assert_c \<equiv> check AssertFailed"

definition deref :: "('k \<Rightarrow> 'v option) \<Rightarrow> 'k \<Rightarrow> 'v result" where
  "deref h p = (case h p of None \<Rightarrow> Inl DanglingPointer | Some v \<Rightarrow> Inr v)"

fun fold_res :: "('a \<Rightarrow> 's \<Rightarrow> 's result) \<Rightarrow> 'a list \<Rightarrow> 's \<Rightarrow> 's result" where
  "fold_res f [] s = Inr s"
| "fold_res f (x # xs) s = bindr (f x s) (fold_res f xs)"

lemma bindr_simps [simp]:
  "bindr (Inl e) f = Inl e"
  "bindr (Inr x) f = f x"
  by (simp_all add: bindr_def)

lemma bindr_eq_Inr: "bindr m f = Inr y \<longleftrightarrow> (\<exists>x. m = Inr x \<and> f x = Inr y)"
  by (cases m) simp_all

lemma bindr_assoc: "bindr (bindr m f) g = bindr m (\<lambda>x. bindr (f x) g)"
  by (cases m) simp_all

lemma bindr_if: "bindr (if b then x else y) f = (if b then bindr x f else bindr y f)"
  by simp

lemma check_simps [simp]:
  "check e True m = m"
  "check e False m = Inl e"
  "(check e b m = Inr y) = (b \<and> m = Inr y)"
  by (simp_all add: check_def)

lemma check_pass: "b \<Longrightarrow> check e b m = m"
  by simp

lemma deref_simps [simp]:
  "h p = None \<Longrightarrow> deref h p = Inl DanglingPointer"
  "h p = Some v \<Longrightarrow> deref h p = Inr v"
  by (simp_all add: deref_def)

lemma deref_eq_Inr [simp]: "deref h p = Inr v \<longleftrightarrow> h p = Some v"
  by (simp add: deref_def split: option.splits)

lemma fold_res_append: "fold_res f (xs @ ys) s = bindr (fold_res f xs s) (fold_res f ys)"
proof (induction xs arbitrary: s)
  case (Cons x xs)
  then have "fold_res f (xs @ ys) = (\<lambda>s. bindr (fold_res f xs s) (fold_res f ys))"
    by blast
  then show ?case by (simp add: bindr_assoc)
qed simp

text \<open>A loop whose body never faults on states satisfying \<open>P\<close> and keeps \<open>P\<close> never faults.\<close>

lemma fold_res_total:
  assumes "\<And>x s. x \<in> set xs \<Longrightarrow> P s \<Longrightarrow> \<exists>s'. f x s = Inr s' \<and> P s'"
    and "P s"
  shows "\<exists>s'. fold_res f xs s = Inr s' \<and> P s'"
  using assms
proof (induction xs arbitrary: s)
  case Nil
  then show ?case by simp
next
  case (Cons x xs)
  from Cons.prems obtain s1 where s1: "f x s = Inr s1" "P s1" by fastforce
  have "\<exists>s'. fold_res f xs s1 = Inr s' \<and> P s'"
    by (rule Cons.IH) (use Cons.prems s1 in auto)
  with s1 show ?case by simp
qed

lemma fold_res_inv:
  assumes "\<And>x s s'. x \<in> set xs \<Longrightarrow> P s \<Longrightarrow> f x s = Inr s' \<Longrightarrow> P s'"
    and "P s" and "fold_res f xs s = Inr s'"
  shows "P s'"
  using assms
proof (induction xs arbitrary: s)
  case Nil
  then show ?case by simp
next
  case (Cons x xs)
  then obtain s1 where "f x s = Inr s1" "fold_res f xs s1 = Inr s'"
    by (auto simp: bindr_eq_Inr)
  with Cons show ?case by (metis list.set_intros)
qed

text \<open>
  The faults the environment causes (no memory, absurd sizes or times), and the
  judgement that an execution either meets a postcondition or ends in one of those:
  no failed assertion, no abort, no dangling pointer, no access out of bounds.
\<close>

definition env_fault :: "fault \<Rightarrow> bool" where
  "env_fault e \<longleftrightarrow> e = LengthError \<or> e = BadAlloc \<or> e = SignedOverflow"

definition ok_res :: "('a \<Rightarrow> bool) \<Rightarrow> 'a result \<Rightarrow> bool" where
  "ok_res P m = (case m of Inl e \<Rightarrow> env_fault e | Inr x \<Rightarrow> P x)"

lemma ok_res_simps [simp]:
  "ok_res P (Inr x) = P x" "ok_res P (Inl e) = env_fault e"
  "ok_res P (check e True m) = ok_res P m"
  by (simp_all add: ok_res_def)

lemma ok_res_bindr:
  assumes "ok_res P m" and "\<And>x. P x \<Longrightarrow> m = Inr x \<Longrightarrow> ok_res Q (f x)"
  shows "ok_res Q (bindr m f)"
  using assms by (cases m) simp_all

lemma ok_res_check: "b \<Longrightarrow> ok_res P m \<Longrightarrow> ok_res P (check e b m)"
  by simp

lemma ok_res_mono: "ok_res P m \<Longrightarrow> (\<And>x. m = Inr x \<Longrightarrow> P x \<Longrightarrow> Q x) \<Longrightarrow> ok_res Q m"
  by (cases m) simp_all

lemma ok_resD: "ok_res P m \<Longrightarrow> m = Inr x \<Longrightarrow> P x"
  by simp

lemma ok_res_conj: "ok_res (\<lambda>x. P x \<and> Q x) m \<longleftrightarrow> ok_res P m \<and> ok_res Q m"
  by (cases m) auto

lemma ok_res_fold:
  assumes "\<And>x s. x \<in> set xs \<Longrightarrow> P s \<Longrightarrow> ok_res P (f x s)" and "P s"
  shows "ok_res P (fold_res f xs s)"
  using assms
proof (induction xs arbitrary: s)
  case (Cons x xs)
  show ?case
    unfolding fold_res.simps
    by (rule ok_res_bindr[where P = P]) (use Cons in auto)
qed simp

text \<open>One element of the loop establishes \<open>Q\<close>, the others keep it.\<close>

lemma ok_res_fold_hit:
  assumes "\<And>y s. y \<in> set xs \<Longrightarrow> P s \<Longrightarrow> ok_res P (f y s)"
    and "\<And>y s. y \<in> set xs \<Longrightarrow> P s \<Longrightarrow> Q s \<Longrightarrow> ok_res Q (f y s)"
    and "x \<in> set xs" and "\<And>s. P s \<Longrightarrow> ok_res Q (f x s)" and "P s"
  shows "ok_res (\<lambda>s. P s \<and> Q s) (fold_res f xs s)"
  using assms
proof (induction xs arbitrary: s)
  case (Cons y ys)
  have P: "ok_res P (f y s)" using Cons.prems by simp
  show ?case
    unfolding fold_res.simps
  proof (rule ok_res_bindr[OF P])
    fix t
    assume t: "P t" "f y s = Inr t"
    show "ok_res (\<lambda>s. P s \<and> Q s) (fold_res f ys t)"
    proof (cases "x \<in> set ys")
      case True
      then show ?thesis by (intro Cons.IH) (use Cons.prems t in auto)
    next
      case False
      then have "ok_res Q (f y s)" using Cons.prems by auto
      then have "Q t" using t(2) by (simp add: ok_resD)
      with t show ?thesis by (intro ok_res_fold) (use Cons.prems in \<open>auto simp: ok_res_conj\<close>)
    qed
  qed
qed simp

section \<open>size\_t arithmetic\<close>

text \<open>
  \<open>size_t\<close> values are natural numbers below \<open>2 ^ 64\<close>; sums and differences wrap.
  \<open>vec_max\<close> is \<open>std::vector<char>::max_size()\<close> (\<open>PTRDIFF_MAX\<close>).
\<close>

type_synonym byte = "8 word"

abbreviation size_lim :: nat where
  "size_lim \<equiv> 18446744073709551616"

definition vec_max :: nat where
  "vec_max = 9223372036854775807"

definition sz_add :: "nat \<Rightarrow> nat \<Rightarrow> nat" where
  "sz_add a b = (a + b) mod size_lim"

definition sz_sub :: "nat \<Rightarrow> nat \<Rightarrow> nat" where
  "sz_sub a b = (a + size_lim - b) mod size_lim"

definition sz_of_int :: "int \<Rightarrow> nat" where
  "sz_of_int i = nat (i mod int size_lim)"

lemma sz_add_exact [simp]: "a + b < size_lim \<Longrightarrow> sz_add a b = a + b"
  by (simp add: sz_add_def)

lemma sz_sub_exact [simp]: "b \<le> a \<Longrightarrow> a < size_lim \<Longrightarrow> sz_sub a b = a - b"
proof -
  assume a: "b \<le> a" "a < size_lim"
  then have "a + size_lim - b = (a - b) + size_lim" by simp
  then show ?thesis using a unfolding sz_sub_def by (simp only: mod_add_self2) simp
qed

lemma sz_sub_wraps: "a < b \<Longrightarrow> b < size_lim \<Longrightarrow> sz_sub a b = a + size_lim - b"
  by (simp add: sz_sub_def)

lemma sz_of_int_nonneg [simp]: "0 \<le> i \<Longrightarrow> i < int size_lim \<Longrightarrow> sz_of_int i = nat i"
  by (simp add: sz_of_int_def)

section \<open>Bounds-checked memory\<close>

definition read_range :: "byte list \<Rightarrow> nat \<Rightarrow> nat \<Rightarrow> byte list result" where
  "read_range xs pos n =
     (if pos + n \<le> length xs then Inr (take n (drop pos xs)) else Inl OutOfBounds)"

definition copy_into :: "byte list \<Rightarrow> nat \<Rightarrow> byte list \<Rightarrow> byte list result" where
  "copy_into dst pos src =
     (if pos + length src \<le> length dst
      then Inr (take pos dst @ src @ drop (pos + length src) dst)
      else Inl OutOfBounds)"

definition vec_resize :: "nat \<Rightarrow> byte list \<Rightarrow> byte list result" where
  "vec_resize n xs =
     (if vec_max < n then Inl LengthError
      else Inr (take n xs @ replicate (n - length xs) 0))"

lemma read_range_ok [simp]:
  "pos + n \<le> length xs \<Longrightarrow> read_range xs pos n = Inr (take n (drop pos xs))"
  by (simp add: read_range_def)

lemma copy_into_ok [simp]:
  "pos + length src \<le> length dst \<Longrightarrow>
   copy_into dst pos src = Inr (take pos dst @ src @ drop (pos + length src) dst)"
  by (simp add: copy_into_def)

lemma vec_resize_ok [simp]:
  "n \<le> vec_max \<Longrightarrow> vec_resize n xs = Inr (take n xs @ replicate (n - length xs) 0)"
  by (simp add: vec_resize_def)

text \<open>Reading back what a copy stored, or what it left alone in front of it.\<close>

lemma read_back [simp]:
  "pos \<le> length dst \<Longrightarrow> n = length src \<Longrightarrow> take n (drop pos (take pos dst @ src @ rest)) = src"
  by simp

lemma read_before:
  assumes "pos + n \<le> m" and "m \<le> length dst"
  shows "take n (drop pos (take m dst @ rest)) = take n (drop pos dst)"
  using assms by (simp add: drop_take)

section \<open>Reachable states and invariants\<close>

inductive reach :: "('s \<Rightarrow> bool) \<Rightarrow> ('s \<Rightarrow> 's \<Rightarrow> bool) \<Rightarrow> 's \<Rightarrow> bool"
  for start :: "'s \<Rightarrow> bool" and step :: "'s \<Rightarrow> 's \<Rightarrow> bool" where
  reach_start: "start s \<Longrightarrow> reach start step s"
| reach_step: "reach start step s \<Longrightarrow> step s t \<Longrightarrow> reach start step t"

text \<open>
  The interface of a component that is a step relation with an inductive
  invariant; every concurrent component of the library is an instance.
\<close>

locale invariant_system =
  fixes start :: "'s \<Rightarrow> bool"
    and step :: "'s \<Rightarrow> 's \<Rightarrow> bool"
    and inv :: "'s \<Rightarrow> bool"
  assumes start_inv: "start s \<Longrightarrow> inv s"
    and step_inv: "step s t \<Longrightarrow> inv s \<Longrightarrow> inv t"
begin

lemma reach_inv: "reach start step s \<Longrightarrow> inv s"
  by (induction rule: reach.induct) (auto intro: start_inv step_inv)

lemma steps_inv: "step\<^sup>*\<^sup>* s t \<Longrightarrow> inv s \<Longrightarrow> inv t"
  by (induction rule: rtranclp_induct) (auto intro: step_inv)

end

lemma reach_steps: "step\<^sup>*\<^sup>* s t \<Longrightarrow> reach start step s \<Longrightarrow> reach start step t"
  by (induction rule: rtranclp_induct) (auto intro: reach_step)

end
