(* ===== verification/Buffers.thy ===== *)
theory Buffers
  imports Base
begin

text \<open>
  \<open>src/stnl/Buffer.h\<close> and \<open>src/stnl/Buffer.cpp\<close>: the fixed log buffer \<open>FixedBuffer\<close>
  and the network buffer \<open>NetBuffer\<close>. A \<open>NetBuffer\<close> is its vector of bytes with the
  two indices; the abstract value of a buffer is its list of readable bytes
  (\<open>nb_content\<close>). The section on the byte queue states the contract its clients
  rely on as a locale and discharges it for the code's operations.
\<close>

section \<open>FixedBuffer\<close>

text \<open>
  The memory of a \<open>FixedBuffer\<close> is \<open>new char[capacity]\<close>, a function of the offset;
  \<open>fb_cur\<close> is the offset of \<open>curIndex_\<close>.
\<close>

record fixedbuffer =
  fb_capacity :: nat
  fb_mem :: "nat \<Rightarrow> byte"
  fb_cur :: nat

definition FixedBuffer_new :: "nat \<Rightarrow> (nat \<Rightarrow> byte) \<Rightarrow> fixedbuffer" where
  "FixedBuffer_new n fresh_mem = \<lparr>fb_capacity = n, fb_mem = fresh_mem, fb_cur = 0\<rparr>"

definition fb_size :: "fixedbuffer \<Rightarrow> int" where
  "fb_size b = int (fb_cur b)"

definition fb_remainingCapacity :: "fixedbuffer \<Rightarrow> int" where
  "fb_remainingCapacity b = int (fb_capacity b) - int (fb_cur b)"

definition mem_store :: "(nat \<Rightarrow> byte) \<Rightarrow> nat \<Rightarrow> byte list \<Rightarrow> nat \<Rightarrow> byte" where
  "mem_store m pos data = (\<lambda>i. if pos \<le> i \<and> i < pos + length data then data ! (i - pos) else m i)"

definition fb_append :: "byte list \<Rightarrow> fixedbuffer \<Rightarrow> fixedbuffer" where
  "fb_append data b =
     (if sz_of_int (fb_remainingCapacity b) > length data
      then b\<lparr>fb_mem := mem_store (fb_mem b) (fb_cur b) data, fb_cur := fb_cur b + length data\<rparr>
      else b)"

text \<open>\<open>add(int)\<close> moves the pointer without a check; outside the array that is undefined.\<close>

definition fb_add :: "int \<Rightarrow> fixedbuffer \<Rightarrow> fixedbuffer result" where
  "fb_add len b =
     (let cur = int (fb_cur b) + len
      in if 0 \<le> cur \<and> cur \<le> int (fb_capacity b) then Inr (b\<lparr>fb_cur := nat cur\<rparr>) else Inl OutOfBounds)"

definition fb_clear :: "fixedbuffer \<Rightarrow> fixedbuffer" where
  "fb_clear b = b\<lparr>fb_mem := (\<lambda>i. if i < fb_capacity b then 0 else fb_mem b i), fb_cur := 0\<rparr>"

definition fb_reset :: "fixedbuffer \<Rightarrow> fixedbuffer" where
  "fb_reset b = b\<lparr>fb_cur := 0\<rparr>"

text \<open>The bytes between \<open>begin()\<close> and \<open>current()\<close>.\<close>

definition fb_content :: "fixedbuffer \<Rightarrow> byte list" where
  "fb_content b = map (fb_mem b) [0..<fb_cur b]"

definition fb_wf :: "fixedbuffer \<Rightarrow> bool" where
  "fb_wf b \<longleftrightarrow> fb_cur b \<le> fb_capacity b \<and> fb_capacity b < 2147483648"

lemma fb_new_wf [simp]: "n < 2147483648 \<Longrightarrow> fb_wf (FixedBuffer_new n m)"
  by (simp add: fb_wf_def FixedBuffer_new_def)

lemma fb_new_content [simp]:
  "fb_content (FixedBuffer_new n m) = []" "fb_content (fb_reset b) = []" "fb_content (fb_clear b) = []"
  by (simp_all add: fb_content_def FixedBuffer_new_def fb_reset_def fb_clear_def)

lemma fb_reset_wf [simp]: "fb_wf b \<Longrightarrow> fb_wf (fb_reset b)" "fb_wf b \<Longrightarrow> fb_wf (fb_clear b)"
  by (simp_all add: fb_wf_def fb_reset_def fb_clear_def)

lemma fb_remaining_size_t [simp]:
  "fb_wf b \<Longrightarrow> sz_of_int (fb_remainingCapacity b) = fb_capacity b - fb_cur b"
  by (simp add: fb_wf_def fb_remainingCapacity_def)

lemma fb_append_content_fit:
  assumes "fb_wf b" and "length data < fb_capacity b - fb_cur b"
  shows "fb_content (fb_append data b) = fb_content b @ data"
proof -
  have "map (mem_store (fb_mem b) (fb_cur b) data) [0..<fb_cur b] = map (fb_mem b) [0..<fb_cur b]"
    by (simp add: mem_store_def)
  moreover have "map (mem_store (fb_mem b) (fb_cur b) data) [fb_cur b..<fb_cur b + length data] = data"
    by (rule nth_equalityI) (simp_all add: mem_store_def)
  moreover have "fb_append data b =
      b\<lparr>fb_mem := mem_store (fb_mem b) (fb_cur b) data, fb_cur := fb_cur b + length data\<rparr>"
    using assms by (simp add: fb_append_def)
  moreover have "[0..<fb_cur b + length data] = [0..<fb_cur b] @ [fb_cur b..<fb_cur b + length data]"
    by (simp only: upt_add_eq_append[OF le0])
  ultimately show ?thesis
    by (simp add: fb_content_def)
qed

lemma fb_append_full:
  assumes "fb_wf b" and "fb_capacity b - fb_cur b \<le> length data"
  shows "fb_append data b = b"
proof -
  have "\<not> length data < fb_capacity b - fb_cur b" using assms(2) by simp
  with assms(1) show ?thesis unfolding fb_append_def by (simp only: fb_remaining_size_t if_False)
qed

lemma fb_append_wf [simp]:
  assumes "fb_wf b"
  shows "fb_wf (fb_append data b)"
proof (cases "length data < fb_capacity b - fb_cur b")
  case True
  with assms have "fb_append data b =
      b\<lparr>fb_mem := mem_store (fb_mem b) (fb_cur b) data, fb_cur := fb_cur b + length data\<rparr>"
    by (simp add: fb_append_def)
  with assms True show ?thesis by (simp add: fb_wf_def)
next
  case False
  with assms show ?thesis by (simp add: fb_append_full)
qed

section \<open>NetBuffer\<close>

record netbuffer =
  nb_buffer :: "byte list"
  nb_readIndex :: nat
  nb_writeIndex :: nat

definition ReservedPrependSize :: nat where
  "ReservedPrependSize = 8"

definition InitialBufferSize :: nat where
  "InitialBufferSize = 1024"

definition nb_readableBytes :: "netbuffer \<Rightarrow> nat" where
  "nb_readableBytes b = sz_sub (nb_writeIndex b) (nb_readIndex b)"

definition nb_writeableBytes :: "netbuffer \<Rightarrow> nat" where
  "nb_writeableBytes b = sz_sub (length (nb_buffer b)) (nb_writeIndex b)"

definition nb_prependableBytes :: "netbuffer \<Rightarrow> nat" where
  "nb_prependableBytes b = nb_readIndex b"

definition NetBuffer_new :: "nat \<Rightarrow> netbuffer result" where
  "NetBuffer_new initialBufferSize =
     bindr (vec_resize (sz_add ReservedPrependSize initialBufferSize) [])
       (\<lambda>v. let b = \<lparr>nb_buffer = v, nb_readIndex = ReservedPrependSize,
                     nb_writeIndex = ReservedPrependSize\<rparr> in
            assert_c (nb_readableBytes b = 0)
           (assert_c (nb_writeableBytes b = initialBufferSize)
           (assert_c (nb_prependableBytes b = ReservedPrependSize) (Inr b))))"

definition nb_memoryMoving :: "netbuffer \<Rightarrow> netbuffer result" where
  "nb_memoryMoving b =
     assert_c (ReservedPrependSize < nb_readIndex b)
      (let readable = nb_readableBytes b in
       bindr (read_range (nb_buffer b) (nb_readIndex b) readable)
        (\<lambda>src. bindr (copy_into (nb_buffer b) ReservedPrependSize src)
          (\<lambda>v. let b' = b\<lparr>nb_buffer := v, nb_readIndex := ReservedPrependSize,
                          nb_writeIndex := sz_add ReservedPrependSize readable\<rparr> in
               assert_c (readable = nb_readableBytes b') (Inr b'))))"

definition nb_make_room :: "nat \<Rightarrow> netbuffer \<Rightarrow> netbuffer result" where
  "nb_make_room len b =
     (if len \<le> nb_writeableBytes b then Inr b
      else if len \<le> sz_sub (sz_add (nb_writeableBytes b) (nb_prependableBytes b)) ReservedPrependSize
      then nb_memoryMoving b
      else bindr (vec_resize (sz_add (nb_writeIndex b) len) (nb_buffer b))
             (\<lambda>v. Inr (b\<lparr>nb_buffer := v\<rparr>)))"

definition nb_append :: "byte list \<Rightarrow> netbuffer \<Rightarrow> netbuffer result" where
  "nb_append data b =
     bindr (nb_make_room (length data) b)
      (\<lambda>b1. bindr (copy_into (nb_buffer b1) (nb_writeIndex b1) data)
        (\<lambda>v. Inr (b1\<lparr>nb_buffer := v, nb_writeIndex := sz_add (nb_writeIndex b1) (length data)\<rparr>)))"

definition nb_prepend :: "byte list \<Rightarrow> netbuffer \<Rightarrow> netbuffer result" where
  "nb_prepend data b =
     assert_c (length data \<le> nb_prependableBytes b)
      (let r = sz_sub (nb_readIndex b) (length data) in
       bindr (copy_into (nb_buffer b) r data)
        (\<lambda>v. Inr (b\<lparr>nb_buffer := v, nb_readIndex := r\<rparr>)))"

text \<open>
  The object representation of an integer, lowest byte first (the library is built
  for little-endian Linux hosts), and the four \<open>prepend\<close> overloads that copy it.
\<close>

fun le_bytes :: "nat \<Rightarrow> nat \<Rightarrow> byte list" where
  "le_bytes 0 x = []"
| "le_bytes (Suc k) x = word_of_nat (x mod 256) # le_bytes k (x div 256)"

fun le_value :: "byte list \<Rightarrow> nat" where
  "le_value [] = 0"
| "le_value (x # xs) = unat x + 256 * le_value xs"

definition nb_prepend_int8 :: "8 word \<Rightarrow> netbuffer \<Rightarrow> netbuffer result" where
  "nb_prepend_int8 v = nb_prepend (le_bytes 1 (unat v))"

definition nb_prepend_int16 :: "16 word \<Rightarrow> netbuffer \<Rightarrow> netbuffer result" where
  "nb_prepend_int16 v = nb_prepend (le_bytes 2 (unat v))"

definition nb_prepend_int32 :: "32 word \<Rightarrow> netbuffer \<Rightarrow> netbuffer result" where
  "nb_prepend_int32 v = nb_prepend (le_bytes 4 (unat v))"

definition nb_prepend_int64 :: "64 word \<Rightarrow> netbuffer \<Rightarrow> netbuffer result" where
  "nb_prepend_int64 v = nb_prepend (le_bytes 8 (unat v))"

definition nb_retrieveAll :: "netbuffer \<Rightarrow> netbuffer" where
  "nb_retrieveAll b = b\<lparr>nb_readIndex := ReservedPrependSize, nb_writeIndex := ReservedPrependSize\<rparr>"

definition nb_retrieve :: "nat \<Rightarrow> netbuffer \<Rightarrow> netbuffer result" where
  "nb_retrieve len b =
     assert_c (len \<le> nb_readableBytes b)
      (if len < nb_readableBytes b
       then Inr (b\<lparr>nb_readIndex := sz_add (nb_readIndex b) len\<rparr>)
       else Inr (nb_retrieveAll b))"

definition nb_retrieveAsString :: "nat \<Rightarrow> netbuffer \<Rightarrow> (byte list \<times> netbuffer) result" where
  "nb_retrieveAsString len b =
     assert_c (len \<le> nb_readableBytes b)
      (bindr (read_range (nb_buffer b) (nb_readIndex b) len)
        (\<lambda>res. Inr (res,
           if len < nb_readableBytes b
           then b\<lparr>nb_readIndex := sz_add (nb_readIndex b) len\<rparr>
           else b\<lparr>nb_readIndex := ReservedPrependSize, nb_writeIndex := ReservedPrependSize\<rparr>)))"

definition nb_retrieveAllAsString :: "netbuffer \<Rightarrow> (byte list \<times> netbuffer) result" where
  "nb_retrieveAllAsString b =
     bindr (read_range (nb_buffer b) (nb_readIndex b) (nb_readableBytes b))
      (\<lambda>res. Inr (res, b\<lparr>nb_readIndex := ReservedPrependSize, nb_writeIndex := ReservedPrependSize\<rparr>))"

text \<open>
  \<open>readv\<close> belongs to the operating system: its outcome is an argument, the error
  number or the bytes it delivered, which it scatters over the vectors in order. The
  writeable part of the buffer is the first vector; the 64 KB stack array is the
  second when the buffer has less room than that.
\<close>

datatype readv_outcome = ReadvError int | ReadvData "byte list"

definition extrabuf_size :: nat where
  "extrabuf_size = 65536"

definition readv_capacity :: "netbuffer \<Rightarrow> nat" where
  "readv_capacity b =
     (if nb_writeableBytes b < extrabuf_size then nb_writeableBytes b + extrabuf_size
      else nb_writeableBytes b)"

definition nb_readFD :: "readv_outcome \<Rightarrow> netbuffer \<Rightarrow> (int \<times> int option \<times> netbuffer) result" where
  "nb_readFD outcome b =
     (case outcome of
        ReadvError e \<Rightarrow> Inr (-1, Some e, b)
      | ReadvData data \<Rightarrow>
          check OutOfBounds (length data \<le> readv_capacity b)
           (let writeable = nb_writeableBytes b in
            bindr (copy_into (nb_buffer b) (nb_writeIndex b) (take writeable data))
             (\<lambda>v. let b1 = b\<lparr>nb_buffer := v\<rparr> in
               if length data < writeable
               then Inr (int (length data), None,
                      b1\<lparr>nb_writeIndex := sz_add (nb_writeIndex b1) (length data)\<rparr>)
               else bindr (nb_append (drop writeable data)
                             (b1\<lparr>nb_writeIndex := length (nb_buffer b1)\<rparr>))
                      (\<lambda>b2. Inr (int (length data), None, b2)))))"

section \<open>Well-formed buffers and their content\<close>

definition nb_wf :: "netbuffer \<Rightarrow> bool" where
  "nb_wf b \<longleftrightarrow> nb_readIndex b \<le> nb_writeIndex b \<and> nb_writeIndex b \<le> length (nb_buffer b) \<and>
     length (nb_buffer b) \<le> vec_max"

text \<open>
  The condition under which \<open>append\<close> finds its way: the reserved prefix has not been
  eaten by \<open>prepend\<close> beyond the free space at the end.
\<close>

definition nb_append_safe :: "netbuffer \<Rightarrow> bool" where
  "nb_append_safe b \<longleftrightarrow>
     ReservedPrependSize \<le> nb_readIndex b + (length (nb_buffer b) - nb_writeIndex b)"

definition nb_content :: "netbuffer \<Rightarrow> byte list" where
  "nb_content b = take (nb_writeIndex b - nb_readIndex b) (drop (nb_readIndex b) (nb_buffer b))"

definition nb_inv :: "netbuffer \<Rightarrow> bool" where
  "nb_inv b \<longleftrightarrow> nb_wf b \<and> ReservedPrependSize \<le> nb_readIndex b"

lemma nb_inv_wf [simp]: "nb_inv b \<Longrightarrow> nb_wf b"
  by (simp add: nb_inv_def)

lemma nb_inv_safe [simp]: "nb_inv b \<Longrightarrow> nb_append_safe b"
  by (simp add: nb_inv_def nb_append_safe_def)

lemma nb_sizes:
  assumes "nb_wf b"
  shows "nb_readableBytes b = nb_writeIndex b - nb_readIndex b"
    and "nb_writeableBytes b = length (nb_buffer b) - nb_writeIndex b"
    and "nb_prependableBytes b = nb_readIndex b"
  using assms
  by (simp_all add: nb_wf_def nb_readableBytes_def nb_writeableBytes_def nb_prependableBytes_def
        vec_max_def)

lemma nb_content_length: "nb_wf b \<Longrightarrow> length (nb_content b) = nb_readableBytes b"
  by (simp add: nb_content_def nb_sizes) (auto simp: nb_wf_def)

text \<open>The three ways to make room keep the content and leave room for \<open>len\<close> bytes.\<close>

lemma nb_make_room_fit:
  "len \<le> nb_writeableBytes b \<Longrightarrow> nb_make_room len b = Inr b"
  by (simp add: nb_make_room_def)

lemma nb_memoryMoving_ok:
  assumes wf: "nb_wf b" and moved: "ReservedPrependSize < nb_readIndex b"
  shows "\<exists>b'. nb_memoryMoving b = Inr b' \<and> nb_inv b' \<and> nb_content b' = nb_content b \<and>
    length (nb_buffer b') = length (nb_buffer b) \<and> nb_readIndex b' = ReservedPrependSize \<and>
    nb_writeIndex b' = ReservedPrependSize + nb_readableBytes b"
proof -
  let ?r = "nb_readableBytes b" and ?buf = "nb_buffer b"
  let ?src = "take ?r (drop (nb_readIndex b) ?buf)"
  let ?v = "take 8 ?buf @ ?src @ drop (8 + length ?src) ?buf"
  let ?b' = "b\<lparr>nb_buffer := ?v, nb_readIndex := 8, nb_writeIndex := 8 + ?r\<rparr>"
  have r: "?r = nb_writeIndex b - nb_readIndex b" using wf by (simp add: nb_sizes)
  have src: "length ?src = ?r" using wf r by (auto simp: nb_wf_def)
  have fits: "8 + ?r \<le> length ?buf" "nb_readIndex b + ?r \<le> length ?buf" "8 + ?r < size_lim"
    using wf moved r by (auto simp: nb_wf_def ReservedPrependSize_def vec_max_def)
  have len: "length ?v = length ?buf" using fits src by simp
  have wf': "nb_wf ?b'" using wf fits len by (simp add: nb_wf_def)
  have "nb_readableBytes ?b' = ?r" using wf' by (simp add: nb_sizes)
  moreover have "nb_content ?b' = ?src"
    using src fits by (simp add: nb_content_def)
  then have "nb_content ?b' = nb_content b"
    using r by (simp add: nb_content_def)
  ultimately have "nb_memoryMoving b = Inr ?b'"
    using moved fits src by (simp add: nb_memoryMoving_def ReservedPrependSize_def)
  then show ?thesis
    using wf' len \<open>nb_content ?b' = nb_content b\<close>
    by (auto simp: nb_inv_def ReservedPrependSize_def)
qed

text \<open>
  \<open>append\<close> when it is safe: never a fault, the content grows by the data at its end,
  and the write index grows by at most the length of the data.
\<close>

lemma nb_make_room_ok:
  assumes wf: "nb_wf b" and safe: "nb_append_safe b \<or> len \<le> nb_writeableBytes b"
    and lim: "nb_writeIndex b + len \<le> vec_max \<or> len \<le> nb_writeableBytes b + nb_prependableBytes b - 8"
  shows "\<exists>b1. nb_make_room len b = Inr b1 \<and> nb_wf b1 \<and> nb_content b1 = nb_content b \<and>
    nb_writeIndex b1 + len \<le> length (nb_buffer b1) \<and> nb_writeIndex b1 \<le> nb_writeIndex b \<and>
    (nb_inv b \<longrightarrow> nb_inv b1)"
proof -
  let ?space = "nb_writeableBytes b" and ?pre = "nb_prependableBytes b"
  have sub: "sz_sub (sz_add ?space ?pre) ReservedPrependSize = ?space + ?pre - 8"
    if "\<not> len \<le> ?space"
    using wf safe that by (auto simp: nb_sizes nb_wf_def nb_append_safe_def ReservedPrependSize_def vec_max_def)
  consider (fit) "len \<le> ?space" | (move) "\<not> len \<le> ?space" "len \<le> ?space + ?pre - 8"
    | (grow) "\<not> len \<le> ?space" "\<not> len \<le> ?space + ?pre - 8"
    by blast
  then show ?thesis
  proof cases
    case fit
    then show ?thesis using wf by (auto simp: nb_make_room_fit nb_sizes nb_wf_def)
  next
    case move
    then have "ReservedPrependSize < nb_readIndex b"
      using wf by (simp add: nb_sizes ReservedPrependSize_def)
    then obtain b1 where "nb_memoryMoving b = Inr b1" "nb_inv b1" "nb_content b1 = nb_content b"
        "length (nb_buffer b1) = length (nb_buffer b)"
        "nb_writeIndex b1 = ReservedPrependSize + nb_readableBytes b"
      using nb_memoryMoving_ok[OF wf] by blast
    moreover have "ReservedPrependSize + nb_readableBytes b + len \<le> length (nb_buffer b)"
      using wf move by (auto simp: nb_sizes nb_wf_def ReservedPrependSize_def)
    moreover have "ReservedPrependSize + nb_readableBytes b \<le> nb_writeIndex b"
      using wf move by (auto simp: nb_sizes nb_wf_def ReservedPrependSize_def)
    ultimately show ?thesis
      using move sub by (auto simp: nb_make_room_def)
  next
    case grow
    let ?v = "take (nb_writeIndex b + len) (nb_buffer b) @
                replicate (nb_writeIndex b + len - length (nb_buffer b)) 0"
    have lim': "nb_writeIndex b + len \<le> vec_max" using lim grow by simp
    have long: "length (nb_buffer b) \<le> nb_writeIndex b + len"
      using wf grow by (simp add: nb_sizes nb_wf_def)
    have "nb_make_room len b = Inr (b\<lparr>nb_buffer := ?v\<rparr>)"
      using grow sub lim' by (simp add: nb_make_room_def vec_max_def)
    moreover have "nb_content (b\<lparr>nb_buffer := ?v\<rparr>) = nb_content b"
      using wf long by (simp add: nb_content_def nb_wf_def)
    ultimately show ?thesis
      using wf long lim' by (simp add: nb_wf_def nb_inv_def)
  qed
qed

lemma nb_append_gen:
  assumes "nb_wf b" and "nb_append_safe b \<or> length data \<le> nb_writeableBytes b"
    and "nb_writeIndex b + length data \<le> vec_max \<or>
      length data \<le> nb_writeableBytes b + nb_prependableBytes b - 8"
  shows "\<exists>b'. nb_append data b = Inr b' \<and> nb_wf b' \<and> nb_content b' = nb_content b @ data \<and>
    nb_writeIndex b' \<le> nb_writeIndex b + length data \<and> (nb_inv b \<longrightarrow> nb_inv b')"
proof -
  obtain b1 where b1: "nb_make_room (length data) b = Inr b1" "nb_wf b1"
      "nb_content b1 = nb_content b" "nb_writeIndex b1 + length data \<le> length (nb_buffer b1)"
      "nb_writeIndex b1 \<le> nb_writeIndex b" "nb_inv b \<longrightarrow> nb_inv b1"
    using nb_make_room_ok[OF assms] by blast
  let ?w = "nb_writeIndex b1" and ?r = "nb_readIndex b1" and ?buf = "nb_buffer b1"
  let ?v = "take ?w ?buf @ data @ drop (?w + length data) ?buf"
  let ?b' = "b1\<lparr>nb_buffer := ?v, nb_writeIndex := ?w + length data\<rparr>"
  have "nb_append data b = Inr ?b'"
    using b1 by (simp add: nb_append_def nb_wf_def vec_max_def)
  moreover have "nb_content ?b' = nb_content b1 @ data"
  proof -
    have "take (?w + length data - ?r) (drop ?r ?v) =
        take (?w - ?r) (drop ?r ?buf) @ data"
      using b1(2) by (auto simp: nb_wf_def drop_take take_add[symmetric])
    then show ?thesis by (simp add: nb_content_def)
  qed
  moreover have "nb_wf ?b'" "nb_inv b1 \<longrightarrow> nb_inv ?b'"
    using b1 by (auto simp: nb_wf_def nb_inv_def)
  ultimately show ?thesis using b1 by auto
qed

lemmas nb_append_ok = nb_append_gen[OF _ _ disjI1]

text \<open>For a buffer whose reserved prefix is intact, only the memory can run out.\<close>

lemma nb_append_total:
  assumes inv: "nb_inv b" and len: "length data \<le> vec_max"
  shows "ok_res (\<lambda>b'. nb_inv b' \<and> nb_content b' = nb_content b @ data) (nb_append data b)"
proof (cases "nb_writeIndex b + length data \<le> vec_max \<or>
    length data \<le> nb_writeableBytes b + nb_prependableBytes b - 8")
  case True
  then show ?thesis using nb_append_gen[OF _ _ True] inv by fastforce
next
  case False
  have wf: "8 \<le> nb_readIndex b" "nb_readIndex b \<le> nb_writeIndex b" "nb_writeIndex b \<le> length (nb_buffer b)"
    "length (nb_buffer b) \<le> vec_max"
    using inv by (simp_all add: nb_inv_def nb_wf_def ReservedPrependSize_def)
  have "nb_make_room (length data) b = Inl LengthError"
    using False wf len inv
    by (auto simp: nb_make_room_def nb_sizes vec_resize_def ReservedPrependSize_def vec_max_def)
  then show ?thesis by (simp add: nb_append_def env_fault_def)
qed

text \<open>
  Outside that condition the unsigned difference wraps, \<open>append\<close> takes the branch that
  moves the content to the front, and the assertion there fails.
\<close>

lemma nb_append_unsafe:
  assumes wf: "nb_wf b" and unsafe: "\<not> nb_append_safe b"
    and len: "nb_writeableBytes b < length data" "length data \<le> vec_max"
  shows "nb_append data b = Inl AssertFailed"
proof -
  have sum: "nb_writeableBytes b + nb_prependableBytes b < 8"
    using wf unsafe by (auto simp: nb_sizes nb_wf_def nb_append_safe_def ReservedPrependSize_def)
  then have "length data \<le> sz_sub (sz_add (nb_writeableBytes b) (nb_prependableBytes b)) 8"
    using len(2) by (simp add: sz_sub_wraps vec_max_def)
  moreover have "\<not> ReservedPrependSize < nb_readIndex b"
    using sum wf by (simp add: nb_sizes ReservedPrependSize_def)
  ultimately show ?thesis
    using len(1) by (simp add: nb_append_def nb_make_room_def nb_memoryMoving_def ReservedPrependSize_def)
qed

section \<open>Retrieving\<close>

lemma nb_retrieve_ok:
  assumes "nb_wf b" and "n \<le> length (nb_content b)"
  shows "\<exists>b'. nb_retrieve n b = Inr b' \<and> nb_content b' = drop n (nb_content b) \<and>
    (nb_inv b \<longrightarrow> nb_inv b' \<and> nb_writeIndex b' \<le> nb_writeIndex b)"
proof -
  have n: "n \<le> nb_writeIndex b - nb_readIndex b"
    using assms by (simp add: nb_content_length nb_sizes)
  show ?thesis
  proof (cases "n < nb_writeIndex b - nb_readIndex b")
    case True
    then show ?thesis using assms(1) n
      by (auto simp: nb_retrieve_def nb_sizes nb_content_def nb_inv_def nb_wf_def vec_max_def
            drop_take add.commute)
  next
    case False
    then have "nb_content b = take n (nb_content b)"
      using assms n by (simp add: nb_content_length nb_sizes)
    with False show ?thesis using assms(1) n
      by (auto simp: nb_retrieve_def nb_sizes nb_retrieveAll_def nb_content_def nb_inv_def nb_wf_def)
  qed
qed

lemma nb_retrieveAll_ok:
  "nb_inv b \<Longrightarrow> nb_inv (nb_retrieveAll b) \<and> nb_content (nb_retrieveAll b) = [] \<and>
     nb_writeIndex (nb_retrieveAll b) \<le> nb_writeIndex b"
  by (auto simp: nb_retrieveAll_def nb_inv_def nb_wf_def nb_content_def)

lemma nb_retrieveAsString_eq:
  assumes "nb_wf b"
  shows "nb_retrieveAsString n b =
    (if n \<le> length (nb_content b)
     then bindr (nb_retrieve n b) (\<lambda>b'. Inr (take n (nb_content b), b'))
     else Inl AssertFailed)"
proof (cases "n \<le> length (nb_content b)")
  case True
  then have n: "n \<le> nb_writeIndex b - nb_readIndex b"
    using assms by (simp add: nb_content_length nb_sizes)
  then have "nb_readIndex b + n \<le> length (nb_buffer b)" "take n (nb_content b) =
      take n (drop (nb_readIndex b) (nb_buffer b))"
    using assms by (auto simp: nb_wf_def nb_content_def)
  with True n assms show ?thesis
    by (simp add: nb_retrieveAsString_def nb_retrieve_def nb_sizes nb_retrieveAll_def)
next
  case False
  then show ?thesis using assms
    by (simp add: nb_retrieveAsString_def nb_content_length)
qed

lemma nb_retrieveAllAsString_eq:
  assumes "nb_wf b"
  shows "nb_retrieveAllAsString b = Inr (nb_content b, nb_retrieveAll b)"
proof -
  have "nb_readIndex b + (nb_writeIndex b - nb_readIndex b) \<le> length (nb_buffer b)"
    using assms by (simp add: nb_wf_def)
  then show ?thesis
    using assms by (simp add: nb_retrieveAllAsString_def nb_sizes nb_content_def nb_retrieveAll_def)
qed

section \<open>Prepending\<close>

lemma length_le_bytes [simp]: "length (le_bytes k x) = k"
  by (induction k arbitrary: x) simp_all

lemma le_value_bytes: "le_value (le_bytes k x) = x mod 256 ^ k"
proof (induction k arbitrary: x)
  case (Suc k)
  have "unat (word_of_nat (x mod 256) :: byte) = x mod 256"
    by (simp add: unat_of_nat)
  then show ?case
    by (simp add: Suc mod_mult2_eq)
qed simp

lemma le_value_of_word:
  assumes "LENGTH('a) = 8 * k"
  shows "word_of_nat (le_value (le_bytes k (unat (v :: 'a::len word)))) = v"
proof -
  have "unat v < 256 ^ k"
  proof -
    have "unat v < 2 ^ LENGTH('a)" by (rule unsigned_less)
    then show ?thesis using assms by (simp add: power_mult)
  qed
  then show ?thesis by (simp add: le_value_bytes)
qed

lemma nb_prepend_ok:
  assumes wf: "nb_wf b" and fits: "length data \<le> nb_readIndex b"
  shows "\<exists>b'. nb_prepend data b = Inr b' \<and> nb_wf b' \<and> nb_content b' = data @ nb_content b \<and>
    nb_readIndex b' = nb_readIndex b - length data \<and> nb_writeIndex b' = nb_writeIndex b \<and>
    length (nb_buffer b') = length (nb_buffer b)"
proof -
  let ?r = "nb_readIndex b - length data" and ?buf = "nb_buffer b"
  let ?v = "take ?r ?buf @ data @ drop (?r + length data) ?buf"
  let ?b' = "b\<lparr>nb_buffer := ?v, nb_readIndex := ?r\<rparr>"
  have le: "nb_readIndex b \<le> length ?buf" "nb_readIndex b \<le> nb_writeIndex b"
    and lim: "nb_readIndex b < size_lim"
    using wf by (auto simp: nb_wf_def vec_max_def)
  have "nb_prepend data b = Inr ?b'"
    using fits le lim by (simp add: nb_prepend_def nb_prependableBytes_def)
  moreover have "nb_content ?b' = data @ nb_content b"
    using fits le by (simp add: nb_content_def)
  moreover have "length ?v = length ?buf" using fits le by simp
  moreover from this have "nb_wf ?b'" using wf by (auto simp: nb_wf_def)
  ultimately show ?thesis by simp
qed

lemma nb_prepend_fails:
  "nb_readIndex b < length data \<Longrightarrow> nb_prepend data b = Inl AssertFailed"
  by (simp add: nb_prepend_def nb_prependableBytes_def)

section \<open>Reading from a file descriptor\<close>

lemma nb_readFD_cases:
  assumes inv: "nb_inv b" and cap: "length data \<le> readv_capacity b"
  shows "(\<exists>b'. nb_readFD (ReadvData data) b = Inr (int (length data), None, b') \<and> nb_inv b' \<and>
      nb_content b' = nb_content b @ data) \<or>
    (\<exists>b1 lo hi. nb_readFD (ReadvData data) b =
        bindr (nb_append hi b1) (\<lambda>b2. Inr (int (length data), None, b2)) \<and>
      nb_inv b1 \<and> data = lo @ hi \<and> nb_content b1 = nb_content b @ lo \<and>
      length hi \<le> extrabuf_size \<and> nb_writeIndex b1 = length (nb_buffer b))"
proof -
  let ?w = "nb_writeIndex b" and ?r = "nb_readIndex b" and ?buf = "nb_buffer b"
  let ?n = "nb_writeableBytes b"
  let ?v = "take ?w ?buf @ take ?n data @ drop (?w + length (take ?n data)) ?buf"
  let ?b1 = "b\<lparr>nb_buffer := ?v\<rparr>"
  have wf: "?r \<le> ?w" "?w \<le> length ?buf" "8 \<le> ?r" and n: "?n = length ?buf - ?w"
    and lim: "length ?buf \<le> vec_max"
    using inv by (auto simp: nb_inv_def nb_wf_def nb_sizes ReservedPrependSize_def)
  have copy: "copy_into ?buf ?w (take ?n data) = Inr ?v" and len: "length ?v = length ?buf"
    using wf n by auto
  show ?thesis
  proof (cases "length data < ?n")
    case True
    let ?b' = "?b1\<lparr>nb_writeIndex := ?w + length data\<rparr>"
    have "nb_readFD (ReadvData data) b = Inr (int (length data), None, ?b')"
      using True cap copy wf n lim by (simp add: nb_readFD_def vec_max_def)
    moreover have "nb_inv ?b'"
      using True inv len n by (auto simp: nb_inv_def nb_wf_def)
    moreover have "nb_content ?b' = nb_content b @ data"
      using True wf n by (simp add: nb_content_def drop_take)
    ultimately show ?thesis by blast
  next
    case False
    let ?b2 = "?b1\<lparr>nb_writeIndex := length ?buf\<rparr>"
    have inv2: "nb_inv ?b2" using inv len wf by (auto simp: nb_inv_def nb_wf_def)
    have content2: "nb_content ?b2 = nb_content b @ take ?n data"
      using False wf n by (simp add: nb_content_def drop_take)
    have "length (drop ?n data) \<le> extrabuf_size"
      using cap by (simp add: readv_capacity_def split: if_splits)
    moreover have "nb_readFD (ReadvData data) b =
        bindr (nb_append (drop ?n data) ?b2) (\<lambda>b2. Inr (int (length data), None, b2))"
      using False cap copy len by (simp add: nb_readFD_def)
    moreover have "data = take ?n data @ drop ?n data" by simp
    moreover have "nb_writeIndex ?b2 = length ?buf" by simp
    ultimately show ?thesis using content2 inv2 by blast
  qed
qed


lemma nb_readFD_total:
  assumes inv: "nb_inv b" and cap: "length data \<le> readv_capacity b"
  shows "ok_res (\<lambda>(n, e, b'). n = int (length data) \<and> nb_inv b' \<and> nb_content b' = nb_content b @ data)
    (nb_readFD (ReadvData data) b)"
  using nb_readFD_cases[OF inv cap]
proof (elim disjE exE conjE)
  fix b1 lo hi
  assume b1: "nb_readFD (ReadvData data) b = bindr (nb_append hi b1) (\<lambda>b2. Inr (int (length data), None, b2))"
    "nb_inv b1" "data = lo @ hi" "nb_content b1 = nb_content b @ lo" "length hi \<le> extrabuf_size"
  then have "ok_res (\<lambda>b'. nb_inv b' \<and> nb_content b' = nb_content b1 @ hi) (nb_append hi b1)"
    by (intro nb_append_total) (simp_all add: extrabuf_size_def vec_max_def)
  with b1 show ?thesis by (auto intro: ok_res_bindr)
qed auto

section \<open>The byte queue: the contract of a network buffer\<close>

text \<open>
  What \<open>TcpConnection\<close> relies on: bytes are appended at the end, \<open>n\<close> bytes are dropped
  from the front, and the space in use grows by no more than what is appended. The
  locale proves once that any sequence of such calls acts on the content as on a list.
\<close>

datatype queue_call = QAppend "byte list" | QRetrieve nat | QRetrieveAll

fun queue_call_spec :: "queue_call \<Rightarrow> byte list \<Rightarrow> byte list result" where
  "queue_call_spec (QAppend data) xs = Inr (xs @ data)"
| "queue_call_spec (QRetrieve n) xs = assert_c (n \<le> length xs) (Inr (drop n xs))"
| "queue_call_spec QRetrieveAll xs = Inr []"

fun queue_call_run ::
  "(byte list \<Rightarrow> 'q \<Rightarrow> 'q result) \<Rightarrow> (nat \<Rightarrow> 'q \<Rightarrow> 'q result) \<Rightarrow> ('q \<Rightarrow> 'q) \<Rightarrow>
   queue_call \<Rightarrow> 'q \<Rightarrow> 'q result" where
  "queue_call_run app ret all (QAppend data) q = app data q"
| "queue_call_run app ret all (QRetrieve n) q = ret n q"
| "queue_call_run app ret all QRetrieveAll q = Inr (all q)"

fun queue_call_size :: "queue_call \<Rightarrow> nat" where
  "queue_call_size (QAppend data) = length data"
| "queue_call_size _ = 0"

locale byte_queue =
  fixes inv :: "'q \<Rightarrow> bool"
    and content :: "'q \<Rightarrow> byte list"
    and used :: "'q \<Rightarrow> nat"
    and limit :: nat
    and app :: "byte list \<Rightarrow> 'q \<Rightarrow> 'q result"
    and ret :: "nat \<Rightarrow> 'q \<Rightarrow> 'q result"
    and all :: "'q \<Rightarrow> 'q"
  assumes app_law: "inv q \<Longrightarrow> used q + length data \<le> limit \<Longrightarrow>
      \<exists>q'. app data q = Inr q' \<and> inv q' \<and> content q' = content q @ data \<and>
        used q' \<le> used q + length data"
    and ret_law: "inv q \<Longrightarrow> n \<le> length (content q) \<Longrightarrow>
      \<exists>q'. ret n q = Inr q' \<and> inv q' \<and> content q' = drop n (content q) \<and> used q' \<le> used q"
    and ret_too_much: "inv q \<Longrightarrow> length (content q) < n \<Longrightarrow> ret n q = Inl AssertFailed"
    and all_law: "inv q \<Longrightarrow> inv (all q) \<and> content (all q) = [] \<and> used (all q) \<le> used q"
begin

lemma call_refines:
  assumes "inv q" and "used q + queue_call_size c \<le> limit"
  shows "(case queue_call_spec c (content q) of
      Inl e \<Rightarrow> queue_call_run app ret all c q = Inl e
    | Inr xs \<Rightarrow> \<exists>q'. queue_call_run app ret all c q = Inr q' \<and> inv q' \<and> content q' = xs \<and>
        used q' \<le> used q + queue_call_size c)"
proof (cases c)
  case (QAppend data)
  with assms app_law[of q data] show ?thesis by simp
next
  case (QRetrieve n)
  then show ?thesis
    using assms ret_law[of q n] ret_too_much[of q n] by (cases "n \<le> length (content q)") auto
next
  case QRetrieveAll
  with assms all_law[of q] show ?thesis by simp
qed

lemma calls_refine:
  assumes "inv q" and "used q + sum_list (map queue_call_size cs) \<le> limit"
  shows "(case fold_res queue_call_spec cs (content q) of
      Inl e \<Rightarrow> fold_res (queue_call_run app ret all) cs q = Inl e
    | Inr xs \<Rightarrow> \<exists>q'. fold_res (queue_call_run app ret all) cs q = Inr q' \<and> inv q' \<and> content q' = xs)"
  using assms
proof (induction cs arbitrary: q)
  case (Cons c cs)
  note step = call_refines[OF Cons.prems(1), of c]
  show ?case
  proof (cases "queue_call_spec c (content q)")
    case (Inl e)
    with step Cons.prems(2) show ?thesis by simp
  next
    case (Inr xs)
    with step Cons.prems(2) obtain q' where q': "queue_call_run app ret all c q = Inr q'" "inv q'"
        "content q' = xs" "used q' \<le> used q + queue_call_size c" by auto
    have "used q' + sum_list (map queue_call_size cs) \<le> limit"
      using q'(4) Cons.prems(2) by simp
    from Cons.IH[OF q'(2) this] show ?thesis using q' Inr by (simp split: sum.splits)
  qed
qed simp

end

interpretation netq: byte_queue nb_inv nb_content nb_writeIndex vec_max nb_append nb_retrieve nb_retrieveAll
proof
  show "\<exists>q'. nb_append data q = Inr q' \<and> nb_inv q' \<and> nb_content q' = nb_content q @ data \<and>
      nb_writeIndex q' \<le> nb_writeIndex q + length data"
    if "nb_inv q" "nb_writeIndex q + length data \<le> vec_max" for q data
    using nb_append_ok[of q data] that by auto
  show "\<exists>q'. nb_retrieve n q = Inr q' \<and> nb_inv q' \<and> nb_content q' = drop n (nb_content q) \<and>
      nb_writeIndex q' \<le> nb_writeIndex q"
    if "nb_inv q" "n \<le> length (nb_content q)" for q n
    using nb_retrieve_ok[of q n] that by auto
  show "nb_retrieve n q = Inl AssertFailed" if "nb_inv q" "length (nb_content q) < n" for q n
    using that by (simp add: nb_retrieve_def nb_content_length)
  show "nb_inv (nb_retrieveAll q) \<and> nb_content (nb_retrieveAll q) = [] \<and>
      nb_writeIndex (nb_retrieveAll q) \<le> nb_writeIndex q" if "nb_inv q" for q
    using nb_retrieveAll_ok that by blast
qed

lemma NetBuffer_new_ok:
  assumes "n \<le> vec_max - 8"
  shows "\<exists>b. NetBuffer_new n = Inr b \<and> nb_inv b \<and> nb_content b = [] \<and>
    nb_writeIndex b = 8 \<and> nb_readIndex b = 8 \<and> length (nb_buffer b) = 8 + n"
  using assms
  by (simp add: NetBuffer_new_def ReservedPrependSize_def vec_max_def nb_readableBytes_def
      nb_writeableBytes_def nb_prependableBytes_def nb_inv_def nb_wf_def nb_content_def)

section \<open>Properties\<close>

text \<open>C32. \<open>append\<close> either puts the data at the end of the readable bytes and changes nothing
  else of the content, or fails its assertion; it fails exactly when the data does not fit behind
  the content and \<open>prepend\<close> has used the reserved prefix beyond the free space.\<close>

theorem append_outcome:
  assumes "nb_wf b" and "nb_writeIndex b + length data \<le> vec_max"
  shows "(if nb_append_safe b \<or> length data \<le> nb_writeableBytes b
          then \<exists>b'. nb_append data b = Inr b' \<and> nb_wf b' \<and> nb_content b' = nb_content b @ data
          else nb_append data b = Inl AssertFailed)"
proof (cases "nb_append_safe b \<or> length data \<le> nb_writeableBytes b")
  case True
  with nb_append_ok[OF assms(1) True assms(2)] show ?thesis by auto
next
  case False
  with nb_append_unsafe[OF assms(1)] assms(2) show ?thesis by simp
qed

theorem append_outcome_witness:
  "\<exists>b'. nb_append [7] \<lparr>nb_buffer = replicate 10 0, nb_readIndex = 8, nb_writeIndex = 8\<rparr> = Inr b' \<and>
    nb_content b' = [7]"
proof -
  let ?b = "\<lparr>nb_buffer = replicate 10 (0::byte), nb_readIndex = 8, nb_writeIndex = 8\<rparr>"
  have "nb_wf ?b" "nb_append_safe ?b" "nb_writeIndex ?b + length [7::byte] \<le> vec_max"
    by (simp_all add: nb_wf_def nb_append_safe_def vec_max_def ReservedPrependSize_def)
  then show ?thesis using append_outcome[of ?b "[7]"] by (auto simp: nb_content_def)
qed

text \<open>C5. Any sequence of \<open>append\<close>, \<open>retrieve\<close> and \<open>retrieveAll\<close> on a buffer whose reserved
  prefix is intact acts on the readable bytes as the same sequence on a list: same content, and a
  fault exactly where the list operation retrieves too much, whatever growing and moving happened.\<close>

theorem buffer_calls_refine_list:
  assumes "nb_inv b" and "nb_writeIndex b + sum_list (map queue_call_size cs) \<le> vec_max"
  shows "(case fold_res queue_call_spec cs (nb_content b) of
      Inl e \<Rightarrow> fold_res (queue_call_run nb_append nb_retrieve nb_retrieveAll) cs b = Inl e
    | Inr xs \<Rightarrow> \<exists>b'. fold_res (queue_call_run nb_append nb_retrieve nb_retrieveAll) cs b = Inr b' \<and>
        nb_inv b' \<and> nb_content b' = xs)"
  using assms by (rule netq.calls_refine)

theorem buffer_calls_refine_list_witness:
  "\<exists>b'. fold_res (queue_call_run nb_append nb_retrieve nb_retrieveAll)
      [QAppend [1, 2, 3], QRetrieve 2, QAppend [4, 5]]
      \<lparr>nb_buffer = replicate 9 0, nb_readIndex = 8, nb_writeIndex = 8\<rparr> = Inr b' \<and>
    nb_content b' = [3, 4, 5]"
proof -
  let ?b = "\<lparr>nb_buffer = replicate 9 (0::byte), nb_readIndex = 8, nb_writeIndex = 8\<rparr>"
  let ?cs = "[QAppend [1, 2, 3], QRetrieve 2, QAppend [4, 5]]"
  have "nb_inv ?b" "nb_writeIndex ?b + sum_list (map queue_call_size ?cs) \<le> vec_max"
    by (simp_all add: nb_inv_def nb_wf_def vec_max_def ReservedPrependSize_def)
  moreover have "nb_content ?b = []" by (simp add: nb_content_def)
  ultimately show ?thesis using buffer_calls_refine_list[of ?b ?cs] by auto
qed



text \<open>C35. A 32-bit header put in front of a message by \<open>prepend(int32_t)\<close> is the first four
  readable bytes, decodes to the value, and leaves the message behind it unchanged.\<close>

theorem prepend_int32_roundtrip:
  assumes "nb_wf b" and "4 \<le> nb_prependableBytes b"
  shows "\<exists>b' b''. nb_prepend_int32 v b = Inr b' \<and> nb_retrieve 4 b' = Inr b'' \<and>
    word_of_nat (le_value (take 4 (nb_content b'))) = v \<and> drop 4 (nb_content b') = nb_content b \<and>
    nb_content b'' = nb_content b"
proof -
  obtain b' where b': "nb_prepend_int32 v b = Inr b'" "nb_wf b'"
      "nb_content b' = le_bytes 4 (unat v) @ nb_content b"
    using nb_prepend_ok[OF assms(1), of "le_bytes 4 (unat v)"] assms(2)
    by (auto simp: nb_prepend_int32_def nb_prependableBytes_def)
  moreover obtain b'' where "nb_retrieve 4 b' = Inr b''" "nb_content b'' = nb_content b"
    using nb_retrieve_ok[OF b'(2), of 4] b'(3) by auto
  ultimately show ?thesis by (simp add: le_value_of_word)
qed

theorem prepend_int32_roundtrip_witness:
  "\<exists>b'. nb_prepend_int32 100000 \<lparr>nb_buffer = replicate 9 5, nb_readIndex = 8, nb_writeIndex = 9\<rparr> = Inr b' \<and>
    drop 4 (nb_content b') = [5]"
proof -
  let ?b = "\<lparr>nb_buffer = replicate 9 (5::byte), nb_readIndex = 8, nb_writeIndex = 9\<rparr>"
  have "nb_wf ?b" "4 \<le> nb_prependableBytes ?b"
    by (simp_all add: nb_wf_def vec_max_def nb_prependableBytes_def)
  from prepend_int32_roundtrip[OF this, of 100000] show ?thesis by (auto simp: nb_content_def)
qed

text \<open>C36. A header written before its body makes a later \<open>append\<close> kill the process: on a fresh default
  buffer, a 32-bit \<open>prepend\<close> and an \<open>append\<close> of a body that fills or exceeds the 1024 free bytes
  both succeed, and the next non-empty \<open>append\<close> fails its assertion.\<close>

theorem header_then_body_aborts:
  assumes "1024 \<le> length body" and "length body + length rest \<le> 4294967296" and "rest \<noteq> []"
  shows "\<exists>b. bindr (NetBuffer_new InitialBufferSize)
      (\<lambda>b0. bindr (nb_prepend_int32 v b0) (nb_append body)) = Inr b \<and>
    nb_append rest b = Inl AssertFailed"
proof -
  obtain b0 where b0: "NetBuffer_new InitialBufferSize = Inr b0" "nb_inv b0" "nb_writeIndex b0 = 8"
      "nb_readIndex b0 = 8" "length (nb_buffer b0) = 1032"
    using NetBuffer_new_ok[of InitialBufferSize] by (auto simp: InitialBufferSize_def vec_max_def)
  obtain b1 where b1: "nb_prepend_int32 v b0 = Inr b1" "nb_wf b1" "nb_readIndex b1 = 4"
      "nb_writeIndex b1 = 8" "length (nb_buffer b1) = 1032"
    using nb_prepend_ok[of b0 "le_bytes 4 (unat v)"] b0 by (auto simp: nb_prepend_int32_def)
  have make: "\<exists>b2. nb_make_room (length body) b1 = Inr b2 \<and> nb_readIndex b2 = 4 \<and>
      nb_writeIndex b2 = 8 \<and> length (nb_buffer b2) = 8 + length body"
  proof (cases "length body = 1024")
    case True
    then show ?thesis using b1 by (simp add: nb_make_room_fit nb_sizes)
  next
    case False
    then show ?thesis using b1 assms
      by (simp add: nb_make_room_def nb_sizes ReservedPrependSize_def vec_max_def)
  qed
  then obtain b2 where b2: "nb_append body b1 = Inr b2" "nb_readIndex b2 = 4"
      "nb_writeIndex b2 = 8 + length body" "length (nb_buffer b2) = 8 + length body"
    using assms by (auto simp: nb_append_def)
  have "nb_append rest b2 = Inl AssertFailed"
  proof (rule nb_append_unsafe)
    show wf: "nb_wf b2" using b2 assms by (simp add: nb_wf_def vec_max_def)
    show "\<not> nb_append_safe b2" using b2 by (simp add: nb_append_safe_def ReservedPrependSize_def)
    show "nb_writeableBytes b2 < length rest" using assms b2 wf by (simp add: nb_sizes)
    show "length rest \<le> vec_max" using assms by (simp add: vec_max_def)
  qed
  with b0 b1 b2 show ?thesis by simp
qed

theorem header_then_body_aborts_witness:
  "\<exists>b. bindr (NetBuffer_new InitialBufferSize)
      (\<lambda>b0. bindr (nb_prepend_int32 2001 b0) (nb_append (replicate 2000 65))) = Inr b \<and>
    nb_append [10] b = Inl AssertFailed"
  by (rule header_then_body_aborts) simp_all

text \<open>\<open>FixedBuffer::append\<close> stores the whole message behind the content when it is strictly
  shorter than the remaining space, and otherwise drops it whole and silently; it never stores a
  part of a message and never passes the capacity.\<close>

theorem fixed_append_all_or_nothing:
  assumes "fb_wf b"
  shows "fb_content (fb_append data b) =
      (if length data < fb_capacity b - fb_cur b then fb_content b @ data else fb_content b) \<and>
    fb_wf (fb_append data b)"
  using assms by (simp add: fb_append_content_fit fb_append_full)

theorem fixed_append_all_or_nothing_witness:
  "fb_content (fb_append [1, 2] (FixedBuffer_new 2 (\<lambda>_. 0))) = [] \<and>
   fb_content (fb_append [1, 2] (FixedBuffer_new 3 (\<lambda>_. 0))) = [1, 2]"
proof -
  have wf: "fb_wf (FixedBuffer_new 2 (\<lambda>_. 0))" "fb_wf (FixedBuffer_new 3 (\<lambda>_. 0))" by simp_all
  have "fb_capacity (FixedBuffer_new n m) - fb_cur (FixedBuffer_new n m) = n" for n m
    by (simp add: FixedBuffer_new_def)
  then show ?thesis
    using fixed_append_all_or_nothing[OF wf(1), of "[1, 2]"]
      fixed_append_all_or_nothing[OF wf(2), of "[1, 2]"] by simp
qed

end
