(* ===== verification/Times.thy ===== *)
theory Times
  imports Base
begin

text \<open>
  \<open>src/stnl/TimeUtil.h\<close> and \<open>src/stnl/TimeUtil.cpp\<close>: a \<open>Timestamp\<close> is its signed
  64-bit number of nanoseconds since the epoch. Durations are C++ \<open>double\<close>s; their
  values are rationals, and the rounding of the multiplication by \<open>NanosecondsRatio\<close>
  is the argument \<open>rnd\<close>. The clock is an argument as well.
\<close>

section \<open>Decimal text\<close>

text \<open>\<open>%d\<close> and \<open>%06d\<close> of \<open>printf\<close> on non-negative numbers, and the value of a numeral.\<close>

definition dec_digit :: "nat \<Rightarrow> char" where
  "dec_digit d = char_of (48 + d)"

fun dec :: "nat \<Rightarrow> string" where
  "dec n = (if n < 10 then [dec_digit n] else dec (n div 10) @ [dec_digit (n mod 10)])"

declare dec.simps [simp del]

definition dec_val :: "string \<Rightarrow> nat" where
  "dec_val s = foldl (\<lambda>a c. 10 * a + (of_char c - 48)) 0 s"

definition pad0 :: "nat \<Rightarrow> string \<Rightarrow> string" where
  "pad0 w s = replicate (w - length s) (CHR ''0'') @ s"

definition dec_int :: "int \<Rightarrow> string" where
  "dec_int i = (if i < 0 then CHR ''-'' # dec (nat (- i)) else dec (nat i))"

text \<open>\<open>printf\<close> with a width and the flag \<open>0\<close>: the sign comes first and counts for the width.\<close>

definition dec_int0 :: "nat \<Rightarrow> int \<Rightarrow> string" where
  "dec_int0 w i = (if i < 0 then CHR ''-'' # pad0 (w - 1) (dec (nat (- i))) else pad0 w (dec (nat i)))"

lemma dec_digit_val: "d < 10 \<Longrightarrow> of_char (dec_digit d) = 48 + d"
  by (simp add: dec_digit_def)

lemma dec_val_snoc: "dec_val (s @ [c]) = 10 * dec_val s + (of_char c - 48)"
  by (simp add: dec_val_def)

lemma dec_val_dec [simp]: "dec_val (dec n) = n"
proof (induction n rule: dec.induct)
  case (1 n)
  show ?case
  proof (cases "n < 10")
    case True
    then show ?thesis by (subst dec.simps) (simp add: dec_val_def dec_digit_val)
  next
    case False
    then show ?thesis using 1
      by (subst dec.simps) (simp add: dec_val_snoc dec_digit_val)
  qed
qed

lemma dec_inj: "dec m = dec n \<Longrightarrow> m = n"
  by (metis dec_val_dec)

lemma dec_digits: "c \<in> set (dec n) \<Longrightarrow> of_char c \<in> {48..<58::nat}"
proof (induction n rule: dec.induct)
  case (1 n)
  then show ?case
    by (cases "n < 10") (auto simp: dec.simps[of n] dec_digit_val)
qed

lemma dec_no_sep: "CHR ''.'' \<notin> set (dec n)" "CHR '':'' \<notin> set (dec n)" "CHR ''-'' \<notin> set (dec n)"
  using dec_digits[of "CHR ''.''" n] dec_digits[of "CHR '':''" n] dec_digits[of "CHR ''-''" n]
  by auto

lemma dec_length: "n < 10 ^ k \<Longrightarrow> 0 < k \<Longrightarrow> length (dec n) \<le> k"
proof (induction n arbitrary: k rule: dec.induct)
  case (1 n)
  show ?case
  proof (cases "n < 10")
    case True
    with 1 show ?thesis by (subst dec.simps) simp
  next
    case False
    from 1(3) obtain j where k: "k = Suc j" by (cases k) auto
    with 1(2) False have "0 < j" by (cases j) auto
    note j = k this
    with 1(2) have "n div 10 < 10 ^ j" by (simp add: less_mult_imp_div_less mult.commute)
    with 1(1)[OF False _ j(2)] False j show ?thesis by (subst dec.simps) simp
  qed
qed

lemma dec_int_int [simp]: "dec_int (int n) = dec n" "dec_int0 w (int n) = pad0 w (dec n)"
  by (simp_all add: dec_int_def dec_int0_def)

lemma dec_val_pad0 [simp]: "dec_val (pad0 w s) = dec_val s"
proof -
  have "foldl (\<lambda>a c. 10 * a + (of_char c - 48)) 0 (replicate k CHR ''0'' @ s) =
      foldl (\<lambda>a c. 10 * a + (of_char c - 48)) (0::nat) s" for k
    by (induction k) simp_all
  then show ?thesis by (simp add: dec_val_def pad0_def)
qed

lemma length_pad0: "length s \<le> w \<Longrightarrow> length (pad0 w s) = w"
  by (simp add: pad0_def)

section \<open>Timestamps\<close>

type_synonym timestamp = int
type_synonym seconds = rat

definition NanosecondsRatio :: int where
  "NanosecondsRatio = 1000000000"

definition MicrosecondsRatio :: int where
  "MicrosecondsRatio = 1000000"

definition MillisecondsRatio :: int where
  "MillisecondsRatio = 1000"

definition int64_range :: "int \<Rightarrow> bool" where
  "int64_range i \<longleftrightarrow> - 9223372036854775808 \<le> i \<and> i < 9223372036854775808"

definition int64 :: "int \<Rightarrow> int result" where
  "int64 i = check SignedOverflow (int64_range i) (Inr i)"

text \<open>\<open>std::chrono::duration_cast\<close> truncates towards zero.\<close>

definition secondsSinceEpoch :: "timestamp \<Rightarrow> int" where
  "secondsSinceEpoch t = t sdiv 1000000000"

definition mircoSecondsSinceEpoch :: "timestamp \<Rightarrow> int" where
  "mircoSecondsSinceEpoch t = t sdiv 1000"

definition milliSecondsSinceEpoch :: "timestamp \<Rightarrow> int" where
  "milliSecondsSinceEpoch t = t sdiv 1000000"

definition nanosecondFraction :: "timestamp \<Rightarrow> int" where
  "nanosecondFraction t = t - mircoSecondsSinceEpoch t * MillisecondsRatio"

definition ts_valid :: "timestamp \<Rightarrow> bool" where
  "ts_valid t \<longleftrightarrow> t > 0"

definition ts_invalid :: timestamp where
  "ts_invalid = 0"

definition ts_toString :: "timestamp \<Rightarrow> string" where
  "ts_toString t =
     (let s = t sdiv NanosecondsRatio;
          us = mircoSecondsSinceEpoch t smod MicrosecondsRatio
      in take 31 (dec_int s @ ''.'' @ dec_int0 6 us))"

definition truncq :: "rat \<Rightarrow> int" where
  "truncq q = (if q < 0 then - \<lfloor>- q\<rfloor> else \<lfloor>q\<rfloor>)"

definition addTime :: "(rat \<Rightarrow> rat) \<Rightarrow> timestamp \<Rightarrow> seconds \<Rightarrow> timestamp result" where
  "addTime rnd t s =
     bindr (int64 (truncq (rnd (s * of_int NanosecondsRatio)))) (\<lambda>delta. int64 (t + delta))"

definition intervalFromNow :: "timestamp \<Rightarrow> timestamp \<Rightarrow> (int \<times> int) result" where
  "intervalFromNow now when =
     bindr (int64 (when - now))
      (\<lambda>d. let diff = (if d \<le> 0 then 1000 else d)
           in Inr (diff sdiv NanosecondsRatio, diff smod NanosecondsRatio))"

lemma int64_ok [simp]: "int64_range i \<Longrightarrow> int64 i = Inr i"
  by (simp add: int64_def)

lemma int64_eq_Inr: "int64 i = Inr j \<longleftrightarrow> int64_range i \<and> j = i"
  by (auto simp: int64_def)

lemma sdiv_nonneg: "0 \<le> a \<Longrightarrow> 0 < b \<Longrightarrow> a sdiv b = a div (b::int)"
  by (cases "a = 0") (simp_all add: signed_divide_int_def)

lemma smod_nonneg: "0 \<le> a \<Longrightarrow> 0 < b \<Longrightarrow> a smod b = a mod (b::int)"
  by (cases "a = 0") (simp_all add: signed_modulo_int_def)

lemma truncq_of_int [simp]: "truncq (of_int i) = i"
  by (simp add: truncq_def)

lemma truncq_mono: "p \<le> q \<Longrightarrow> truncq p \<le> truncq q"
proof -
  assume "p \<le> q"
  then have "\<lfloor>p\<rfloor> \<le> \<lfloor>q\<rfloor>" "\<lfloor>- q\<rfloor> \<le> \<lfloor>- p\<rfloor>" by (simp_all add: floor_mono)
  moreover have "- \<lfloor>- p\<rfloor> \<le> \<lfloor>q\<rfloor>" if "p < 0" "\<not> q < 0"
  proof -
    have "0 \<le> \<lfloor>- p\<rfloor>" "0 \<le> \<lfloor>q\<rfloor>" using that by simp_all
    then show ?thesis by linarith
  qed
  ultimately show ?thesis
    using \<open>p \<le> q\<close> by (auto simp: truncq_def)
qed

lemma intervalFromNow_ok:
  assumes "int64_range (when - now)"
  shows "\<exists>s ns. intervalFromNow now when = Inr (s, ns) \<and> 0 \<le> s \<and> 0 \<le> ns \<and> ns < NanosecondsRatio \<and>
    s * NanosecondsRatio + ns = (if when \<le> now then 1000 else when - now)"
proof -
  let ?d = "if when \<le> now then 1000 else when - now"
  have pos: "0 < ?d" by simp
  have "intervalFromNow now when = Inr (?d sdiv NanosecondsRatio, ?d smod NanosecondsRatio)"
    using assms by (auto simp: intervalFromNow_def)
  then show ?thesis
    using pos by (auto simp: sdiv_nonneg smod_nonneg NanosecondsRatio_def)
qed

section \<open>Properties\<close>

text \<open>C38. \<open>intervalFromNow\<close> always yields a legal, non-zero timer value: the nanosecond part is
  normalised, the two fields are never both zero (which would disarm the timer descriptor), and
  together they are the time left, or one microsecond when the expiration has passed.\<close>

theorem intervalFromNow_arms:
  assumes "int64_range (when - now)"
  shows "\<exists>s ns. intervalFromNow now when = Inr (s, ns) \<and> 0 \<le> s \<and> 0 \<le> ns \<and> ns < 1000000000 \<and>
    (s, ns) \<noteq> (0, 0) \<and> s * 1000000000 + ns = (if when \<le> now then 1000 else when - now)"
proof -
  obtain s ns where i: "intervalFromNow now when = Inr (s, ns)" "0 \<le> s" "0 \<le> ns"
      "ns < 1000000000" "s * 1000000000 + ns = (if when \<le> now then 1000 else when - now)"
    using intervalFromNow_ok[OF assms] unfolding NanosecondsRatio_def by blast
  moreover from i(5) have "(s, ns) \<noteq> (0, 0)" by (auto split: if_splits)
  ultimately show ?thesis by blast
qed

theorem intervalFromNow_arms_witness:
  "\<exists>s ns. intervalFromNow 5000 3000 = Inr (s, ns) \<and> s * 1000000000 + ns = 1000 \<and> (s, ns) \<noteq> (0, 0)"
  using intervalFromNow_arms[of 3000 5000] by (auto simp: int64_range_def)

text \<open>C39. \<open>toString\<close> prints a non-negative timestamp so that it can be read back to the microsecond:
  the seconds stand before the dot, and exactly six digits of microseconds behind it.\<close>

theorem toString_reads_back:
  assumes "0 \<le> t" and "int64_range t"
  shows "\<exists>s f. ts_toString t = s @ ''.'' @ f \<and> CHR ''.'' \<notin> set s \<and> length f = 6 \<and>
    int (dec_val s) = t div 1000000000 \<and> int (dec_val f) = t div 1000 mod 1000000"
proof -
  let ?s = "nat (t div 1000000000)" and ?us = "nat (t div 1000 mod 1000000)"
  have us: "mircoSecondsSinceEpoch t smod MicrosecondsRatio = int ?us"
    using assms(1) by (simp add: mircoSecondsSinceEpoch_def sdiv_nonneg smod_nonneg MicrosecondsRatio_def)
  have s: "t sdiv NanosecondsRatio = int ?s"
    using assms(1) by (simp add: sdiv_nonneg NanosecondsRatio_def)
  have f6: "length (pad0 6 (dec ?us)) = 6"
    by (rule length_pad0, rule dec_length) (simp_all add: nat_less_iff)
  have s10: "length (dec ?s) \<le> 10"
    using assms by (intro dec_length) (simp_all add: int64_range_def nat_less_iff)
  have "ts_toString t = take 31 (dec ?s @ ''.'' @ pad0 6 (dec ?us))"
    by (simp only: ts_toString_def Let_def us s dec_int_int)
  also have "\<dots> = dec ?s @ ''.'' @ pad0 6 (dec ?us)"
    using s10 f6 by simp
  finally have "ts_toString t = dec ?s @ ''.'' @ pad0 6 (dec ?us)" .
  moreover have "int (dec_val (dec ?s)) = t div 1000000000"
    "int (dec_val (pad0 6 (dec ?us))) = t div 1000 mod 1000000"
    using assms(1) by simp_all
  ultimately show ?thesis
    using f6 dec_no_sep(1)[of ?s] by blast
qed

theorem toString_reads_back_witness:
  "\<exists>s f. ts_toString 1700000000012345678 = s @ ''.'' @ f \<and> length f = 6 \<and>
    int (dec_val s) = 1700000000 \<and> int (dec_val f) = 12345"
  using toString_reads_back[of 1700000000012345678] by (auto simp: int64_range_def)

end
