(* ===== verification/Reactor.thy ===== *)
theory Reactor
  imports Base
begin

text \<open>
  \<open>src/stnl/Channel.h\<close>, \<open>Channel.cpp\<close>, \<open>Selector.h\<close>, \<open>Epoll.h\<close> and \<open>Epoll.cpp\<close>. A
  \<open>Channel\<close> is an object on the heap, reached through raw pointers from the \<open>Epoll\<close>
  that watches it and from its owner, so the state is a store of channels beside the
  fields of \<open>Epoll\<close>. Calls into the kernel are recorded in a trace; the documented
  meaning of \<open>epoll_ctl\<close> and \<open>close\<close> is a function of that trace (\<open>interest\<close>), which the
  properties compare with what the objects believe.
\<close>

section \<open>Channels, callbacks and kernel calls\<close>

type_synonym ptr = nat
type_synonym events = "32 word"

datatype event_state = NEW | ADDED | DELETED

text \<open>The \<open>std::bind\<close> objects the library registers as event callbacks.\<close>

datatype callback =
    CbWakeupRead
  | CbTimerRead
  | CbAcceptorRead
  | CbTcpRead ptr
  | CbTcpWrite ptr
  | CbTcpClose ptr
  | CbTcpError ptr
  | CbConnectorWrite
  | CbConnectorError

record channel =
  ch_fd :: int
  ch_requested :: events
  ch_returned :: events
  ch_state :: event_state
  ch_writeCb :: "callback option"
  ch_readCb :: "callback option"
  ch_errorCb :: "callback option"
  ch_closeCb :: "callback option"

datatype ctl_op = CtlAdd | CtlMod | CtlDel

datatype syscall =
    SysEpollCtl ctl_op int events ptr
  | SysClose int
  | SysShutdownWrite int
  | SysWrite int "byte list"
  | SysSetKeepAlive int bool
  | SysSetTcpNoDelay int bool
  | SysSocket int "16 word"
  | SysBind int "byte list"
  | SysConnect int "byte list"
  | SysListen int
  | SysAccept int
  | SysSetReuseAddr int bool
  | SysSetReusePort int bool
  | SysOpenNull int
  | SysTimerfdSettime int int "int \<times> int"
  | SysTimerfdRead int
  | SysEventfdWrite int
  | SysEventfdRead int

record reactor =
  rx_chans :: "ptr \<Rightarrow> channel option"
  rx_channelMap :: "int \<Rightarrow> ptr option"
  rx_eventsSize :: nat
  rx_trace :: "syscall list"

definition POLLIN :: events where "POLLIN = 1"
definition POLLPRI :: events where "POLLPRI = 2"
definition POLLOUT :: events where "POLLOUT = 4"
definition POLLERR :: events where "POLLERR = 8"
definition POLLHUP :: events where "POLLHUP = 16"
definition POLLNVAL :: events where "POLLNVAL = 32"
definition POLLRDHUP :: events where "POLLRDHUP = 8192"

definition kNoneEvent :: events where "kNoneEvent = 0"
definition kReadEvent :: events where "kReadEvent = POLLIN OR POLLPRI"
definition kWriteEvent :: events where "kWriteEvent = POLLOUT"

definition InitEventVectorSize :: nat where "InitEventVectorSize = 16"

definition Epoll_new :: reactor where
  "Epoll_new = \<lparr>rx_chans = Map.empty, rx_channelMap = Map.empty,
     rx_eventsSize = InitEventVectorSize, rx_trace = []\<rparr>"

definition sys_call :: "syscall \<Rightarrow> 'z reactor_scheme \<Rightarrow> 'z reactor_scheme" where
  "sys_call c s = s\<lparr>rx_trace := rx_trace s @ [c]\<rparr>"

definition Channel_make :: "int \<Rightarrow> channel" where
  "Channel_make fd = \<lparr>ch_fd = fd, ch_requested = 0, ch_returned = 0, ch_state = NEW,
     ch_writeCb = None, ch_readCb = None, ch_errorCb = None, ch_closeCb = None\<rparr>"

definition Channel_put :: "ptr \<Rightarrow> channel \<Rightarrow> 'z reactor_scheme \<Rightarrow> 'z reactor_scheme" where
  "Channel_put p c s = s\<lparr>rx_chans := (rx_chans s)(p \<mapsto> c)\<rparr>"

definition Channel_destroy :: "ptr \<Rightarrow> 'z reactor_scheme \<Rightarrow> 'z reactor_scheme" where
  "Channel_destroy p s = s\<lparr>rx_chans := (rx_chans s)(p := None)\<rparr>"

definition isNoEvent :: "channel \<Rightarrow> bool" where
  "isNoEvent c \<longleftrightarrow> ch_requested c = kNoneEvent"

definition ch_writeable :: "channel \<Rightarrow> bool" where
  "ch_writeable c \<longleftrightarrow> ch_requested c AND kWriteEvent \<noteq> 0"

definition ch_readable :: "channel \<Rightarrow> bool" where
  "ch_readable c \<longleftrightarrow> ch_requested c AND kReadEvent \<noteq> 0"

section \<open>Epoll\<close>

text \<open>The result of \<open>epoll_ctl\<close> is ignored by the code, so the call is only recorded.\<close>

definition Epoll_update :: "ptr \<Rightarrow> channel \<Rightarrow> ctl_op \<Rightarrow> 'z reactor_scheme \<Rightarrow> 'z reactor_scheme" where
  "Epoll_update p c operation s = sys_call (SysEpollCtl operation (ch_fd c) (ch_requested c) p) s"

definition Epoll_updateChannel :: "ptr \<Rightarrow> 'z reactor_scheme \<Rightarrow> 'z reactor_scheme result" where
  "Epoll_updateChannel p s =
     bindr (deref (rx_chans s) p)
      (\<lambda>c. let fd = ch_fd c in
        case ch_state c of
          NEW \<Rightarrow>
            assert_c (rx_channelMap s fd = None)
             (let c' = c\<lparr>ch_state := ADDED\<rparr> in
              Inr (Epoll_update p c' CtlAdd
                (Channel_put p c' (s\<lparr>rx_channelMap := (rx_channelMap s)(fd \<mapsto> p)\<rparr>))))
        | ADDED \<Rightarrow>
            assert_c (rx_channelMap s fd = Some p)
             (if isNoEvent c
              then let c' = c\<lparr>ch_state := DELETED\<rparr> in
                   Inr (Epoll_update p c' CtlDel (Channel_put p c' s))
              else Inr (Epoll_update p c CtlMod s))
        | DELETED \<Rightarrow>
            assert_c (rx_channelMap s fd = Some p)
             (let c' = c\<lparr>ch_state := ADDED\<rparr> in
              Inr (Epoll_update p c' CtlAdd (Channel_put p c' s))))"

definition Epoll_removeChannel :: "ptr \<Rightarrow> 'z reactor_scheme \<Rightarrow> 'z reactor_scheme result" where
  "Epoll_removeChannel p s =
     bindr (deref (rx_chans s) p)
      (\<lambda>c. let s1 = s\<lparr>rx_channelMap := (rx_channelMap s)(ch_fd c := None)\<rparr>;
               s2 = (if ch_state c = ADDED then Epoll_update p c CtlDel s1 else s1)
           in Inr (Channel_put p (c\<lparr>ch_state := NEW\<rparr>) s2))"

text \<open>
  \<open>select\<close>: the outcome of \<open>epoll_wait\<close> is an argument, \<open>None\<close> for an error and
  otherwise the events delivered, each with the pointer registered for its descriptor.
\<close>

definition select_one :: "ptr \<times> events \<Rightarrow> 'z reactor_scheme \<times> ptr list \<Rightarrow>
    ('z reactor_scheme \<times> ptr list) result" where
  "select_one ev st =
     (case (ev, st) of ((p, revents), (s, active)) \<Rightarrow>
       bindr (deref (rx_chans s) p)
        (\<lambda>c. assert_c (rx_channelMap s (ch_fd c) \<noteq> None)
            (assert_c (rx_channelMap s (ch_fd c) = Some p)
              (Inr (Channel_put p (c\<lparr>ch_returned := revents\<rparr>) s, active @ [p])))))"

definition Epoll_select :: "(ptr \<times> events) list option \<Rightarrow> 'z reactor_scheme \<Rightarrow>
    ('z reactor_scheme \<times> ptr list) result" where
  "Epoll_select outcome s =
     (case outcome of
        None \<Rightarrow> Inr (s, [])
      | Some evs \<Rightarrow>
          if evs = [] then Inr (s, [])
          else assert_c (length evs \<le> rx_eventsSize s)
                (bindr (fold_res select_one evs (s, []))
                  (\<lambda>(s', active).
                     Inr (if length evs = rx_eventsSize s'
                          then s'\<lparr>rx_eventsSize := rx_eventsSize s' * 2\<rparr> else s', active))))"

section \<open>Channel operations\<close>

text \<open>\<open>update()\<close> goes through \<open>EventLoop::updateChannel\<close> to the selector.\<close>

definition Channel_update :: "ptr \<Rightarrow> 'z reactor_scheme \<Rightarrow> 'z reactor_scheme result" where
  "Channel_update p s = Epoll_updateChannel p s"

definition Channel_request :: "(events \<Rightarrow> events) \<Rightarrow> ptr \<Rightarrow> 'z reactor_scheme \<Rightarrow> 'z reactor_scheme result" where
  "Channel_request f p s =
     bindr (deref (rx_chans s) p)
      (\<lambda>c. Channel_update p (Channel_put p (c\<lparr>ch_requested := f (ch_requested c)\<rparr>) s))"

definition enableRead :: "ptr \<Rightarrow> 'z reactor_scheme \<Rightarrow> 'z reactor_scheme result" where
  "enableRead = Channel_request (\<lambda>e. e OR kReadEvent)"

definition disableRead :: "ptr \<Rightarrow> 'z reactor_scheme \<Rightarrow> 'z reactor_scheme result" where
  "disableRead = Channel_request (\<lambda>e. e AND NOT kReadEvent)"

definition enableWrite :: "ptr \<Rightarrow> 'z reactor_scheme \<Rightarrow> 'z reactor_scheme result" where
  "enableWrite = Channel_request (\<lambda>e. e OR kWriteEvent)"

definition disableWrite :: "ptr \<Rightarrow> 'z reactor_scheme \<Rightarrow> 'z reactor_scheme result" where
  "disableWrite = Channel_request (\<lambda>e. e AND NOT kWriteEvent)"

definition disableAll :: "ptr \<Rightarrow> 'z reactor_scheme \<Rightarrow> 'z reactor_scheme result" where
  "disableAll = Channel_request (\<lambda>e. kNoneEvent)"

definition Channel_remove :: "ptr \<Rightarrow> 'z reactor_scheme \<Rightarrow> 'z reactor_scheme result" where
  "Channel_remove p s = Epoll_removeChannel p s"

definition call_cb :: "(callback \<Rightarrow> 's \<Rightarrow> 's result) \<Rightarrow> callback option \<Rightarrow> 's \<Rightarrow> 's result" where
  "call_cb run cb s = (case cb of None \<Rightarrow> Inr s | Some f \<Rightarrow> run f s)"

text \<open>
  \<open>handleEvents\<close>: each test reads the fields of the channel again, in the state the
  callbacks before it have left; a callback that destroyed the channel shows as a
  dangling pointer.
\<close>

definition handle_if :: "(events \<Rightarrow> bool) \<Rightarrow> (channel \<Rightarrow> callback option) \<Rightarrow>
    (callback \<Rightarrow> 'z reactor_scheme \<Rightarrow> 'z reactor_scheme result) \<Rightarrow> ptr \<Rightarrow>
    'z reactor_scheme \<Rightarrow> 'z reactor_scheme result" where
  "handle_if test cb run p s =
     bindr (deref (rx_chans s) p)
      (\<lambda>c. if test (ch_returned c) then call_cb run (cb c) s else Inr s)"

definition wants_write :: "events \<Rightarrow> bool" where
  "wants_write e \<longleftrightarrow> e AND POLLOUT \<noteq> 0"

definition wants_error :: "events \<Rightarrow> bool" where
  "wants_error e \<longleftrightarrow> e AND POLLERR \<noteq> 0"

definition wants_read :: "events \<Rightarrow> bool" where
  "wants_read e \<longleftrightarrow> e AND (POLLIN OR POLLPRI OR POLLRDHUP) \<noteq> 0"

definition wants_close :: "events \<Rightarrow> bool" where
  "wants_close e \<longleftrightarrow> e AND POLLHUP \<noteq> 0 \<and> \<not> e AND POLLIN \<noteq> 0"

definition Channel_handleEvents :: "(callback \<Rightarrow> 'z reactor_scheme \<Rightarrow> 'z reactor_scheme result) \<Rightarrow>
    ptr \<Rightarrow> 'z reactor_scheme \<Rightarrow> 'z reactor_scheme result" where
  "Channel_handleEvents run p s =
     bindr (handle_if wants_write ch_writeCb run p s)
      (\<lambda>s1. bindr (handle_if wants_error ch_errorCb run p s1)
        (\<lambda>s2. bindr (handle_if wants_read ch_readCb run p s2)
          (handle_if wants_close ch_closeCb run p)))"

section \<open>What the kernel watches\<close>

text \<open>
  \<open>epoll_ctl(2)\<close>: \<open>ADD\<close> registers an absent descriptor, \<open>MOD\<close> and \<open>DEL\<close> need a present
  one, and closing a descriptor removes it. \<open>ctl_legal\<close> says that no call of a trace
  would have failed with \<open>EEXIST\<close> or \<open>ENOENT\<close>.
\<close>

type_synonym watch = "int \<Rightarrow> (events \<times> ptr) option"

fun ctl_step :: "watch \<Rightarrow> syscall \<Rightarrow> watch" where
  "ctl_step w (SysEpollCtl CtlDel fd ev p) = w(fd := None)"
| "ctl_step w (SysEpollCtl op fd ev p) = w(fd \<mapsto> (ev, p))"
| "ctl_step w (SysClose fd) = w(fd := None)"
| "ctl_step w _ = w"

fun ctl_ok :: "watch \<Rightarrow> syscall \<Rightarrow> bool" where
  "ctl_ok w (SysEpollCtl CtlAdd fd ev p) = (w fd = None)"
| "ctl_ok w (SysEpollCtl op fd ev p) = (w fd \<noteq> None)"
| "ctl_ok w _ = True"

definition interest :: "syscall list \<Rightarrow> watch" where
  "interest tr = foldl ctl_step Map.empty tr"

fun ctl_legal_from :: "watch \<Rightarrow> syscall list \<Rightarrow> bool" where
  "ctl_legal_from w [] = True"
| "ctl_legal_from w (c # cs) = (ctl_ok w c \<and> ctl_legal_from (ctl_step w c) cs)"

definition ctl_legal :: "syscall list \<Rightarrow> bool" where
  "ctl_legal tr = ctl_legal_from Map.empty tr"

definition expected :: "'z reactor_scheme \<Rightarrow> watch" where
  "expected s fd =
     (case rx_channelMap s fd of None \<Rightarrow> None
      | Some p \<Rightarrow>
         (case rx_chans s p of None \<Rightarrow> None
          | Some c \<Rightarrow> if ch_state c = ADDED then Some (ch_requested c, p) else None))"

definition rx_wf :: "'z reactor_scheme \<Rightarrow> bool" where
  "rx_wf s \<longleftrightarrow>
     (\<forall>fd p. rx_channelMap s fd = Some p \<longrightarrow>
        (\<exists>c. rx_chans s p = Some c \<and> ch_fd c = fd \<and> ch_state c \<noteq> NEW)) \<and>
     (\<forall>p c. rx_chans s p = Some c \<longrightarrow> ch_state c \<noteq> NEW \<longrightarrow> rx_channelMap s (ch_fd c) = Some p) \<and>
     interest (rx_trace s) = expected s \<and> ctl_legal (rx_trace s)"

section \<open>Automation for the reactor\<close>

lemmas event_consts = POLLIN_def POLLPRI_def POLLOUT_def POLLERR_def POLLHUP_def POLLNVAL_def
  POLLRDHUP_def kNoneEvent_def kReadEvent_def kWriteEvent_def

lemma reactor_updates [simp]:
  "rx_trace (sys_call c s) = rx_trace s @ [c]"
  "rx_chans (sys_call c s) = rx_chans s"
  "rx_channelMap (sys_call c s) = rx_channelMap s"
  "rx_eventsSize (sys_call c s) = rx_eventsSize s"
  "reactor.more (sys_call c s) = reactor.more s"
  "rx_trace (Channel_put p ch s) = rx_trace s"
  "rx_chans (Channel_put p ch s) = (rx_chans s)(p \<mapsto> ch)"
  "rx_channelMap (Channel_put p ch s) = rx_channelMap s"
  "rx_eventsSize (Channel_put p ch s) = rx_eventsSize s"
  "reactor.more (Channel_put p ch s) = reactor.more s"
  "rx_trace (Channel_destroy p s) = rx_trace s"
  "rx_chans (Channel_destroy p s) = (rx_chans s)(p := None)"
  "rx_channelMap (Channel_destroy p s) = rx_channelMap s"
  "reactor.more (Channel_destroy p s) = reactor.more s"
  by (simp_all add: sys_call_def Channel_put_def Channel_destroy_def)

lemma interest_snoc [simp]: "interest (tr @ [c]) = ctl_step (interest tr) c"
  by (simp add: interest_def)

lemma interest_Nil [simp]: "interest [] = Map.empty"
  by (simp add: interest_def)

lemma ctl_legal_from_snoc:
  "ctl_legal_from w (tr @ [c]) \<longleftrightarrow> ctl_legal_from w tr \<and> ctl_ok (foldl ctl_step w tr) c"
  by (induction tr arbitrary: w) auto

lemma ctl_legal_snoc [simp]: "ctl_legal (tr @ [c]) \<longleftrightarrow> ctl_legal tr \<and> ctl_ok (interest tr) c"
  by (simp add: ctl_legal_def interest_def ctl_legal_from_snoc)

lemma ctl_legal_Nil [simp]: "ctl_legal []"
  by (simp add: ctl_legal_def)

lemma expected_cong:
  "rx_chans s = rx_chans t \<Longrightarrow> rx_channelMap s = rx_channelMap t \<Longrightarrow> expected s = expected t"
  by (simp add: expected_def fun_eq_iff split: option.splits)

lemma expected_sys_call [simp]: "expected (sys_call c s) = expected s"
  by (rule expected_cong) simp_all

text \<open>Bits of the event masks.\<close>

lemma mask_bit_iff: "e AND 4 = 0 \<longleftrightarrow> \<not> bit e 2" for e :: events
  using and_exp_eq_0_iff_not_bit[of e 2] by simp

lemma requested_bits [simp]:
  "(e OR kWriteEvent) AND kWriteEvent \<noteq> 0"
  "(e AND NOT kWriteEvent) AND kWriteEvent = 0"
  "(e OR kReadEvent) AND kWriteEvent = e AND kWriteEvent"
  "(e AND NOT kReadEvent) AND kWriteEvent = e AND kWriteEvent"
  "(e AND NOT kWriteEvent) AND kReadEvent = e AND kReadEvent"
  "(e OR kWriteEvent) AND kReadEvent = e AND kReadEvent"
  "(e OR kReadEvent) AND kReadEvent \<noteq> 0"
  "e OR kWriteEvent \<noteq> 0" "e OR kReadEvent \<noteq> 0"
proof -
  have *: "bit (4 :: int) n \<longleftrightarrow> n = 2" "bit (3 :: int) n \<longleftrightarrow> n = 0 \<or> n = 1" for n
    by (auto simp: bit_numeral_rec bit_Suc bit_1_iff gr0_conv_Suc numeral_2_eq_2
        split: nat.splits)
  show "(e OR kWriteEvent) AND kWriteEvent \<noteq> 0"
    by (simp add: event_consts mask_bit_iff bit_or_iff *)
  show "(e AND NOT kWriteEvent) AND kWriteEvent = 0"
    by (simp add: event_consts mask_bit_iff bit_and_iff bit_not_iff *)
  show "(e OR kReadEvent) AND kWriteEvent = e AND kWriteEvent"
    by (rule bit_word_eqI) (auto simp: event_consts bit_or_iff bit_and_iff *)
  show "(e AND NOT kReadEvent) AND kWriteEvent = e AND kWriteEvent"
    by (rule bit_word_eqI) (auto simp: event_consts bit_and_iff bit_not_iff *)
  show "(e AND NOT kWriteEvent) AND kReadEvent = e AND kReadEvent"
    by (rule bit_word_eqI) (auto simp: event_consts bit_and_iff bit_not_iff *)
  show "(e OR kWriteEvent) AND kReadEvent = e AND kReadEvent"
    by (rule bit_word_eqI) (auto simp: event_consts bit_or_iff bit_and_iff *)
  have "bit ((e OR kReadEvent) AND kReadEvent) 0"
    by (simp add: event_consts bit_or_iff bit_and_iff *)
  then show "(e OR kReadEvent) AND kReadEvent \<noteq> 0" by (metis bit_0_eq bot_apply bot_bool_def)
  have "bit (e OR kWriteEvent) 2" "bit (e OR kReadEvent) 0"
    by (simp_all add: event_consts bit_or_iff *)
  then show "e OR kWriteEvent \<noteq> 0" "e OR kReadEvent \<noteq> 0"
    by (metis bit_0_eq bot_apply bot_bool_def)+
qed

section \<open>The operations keep the reactor well formed\<close>

lemma Epoll_new_simps [simp]:
  "rx_chans Epoll_new = Map.empty" "rx_channelMap Epoll_new = Map.empty"
  "rx_eventsSize Epoll_new = 16" "rx_trace Epoll_new = []"
  by (simp_all add: Epoll_new_def InitEventVectorSize_def)

lemma Channel_make_simps [simp]:
  "ch_fd (Channel_make fd) = fd" "ch_state (Channel_make fd) = NEW"
  "ch_requested (Channel_make fd) = 0" "ch_returned (Channel_make fd) = 0"
  by (simp_all add: Channel_make_def)

lemma rx_wf_new [simp]: "rx_wf Epoll_new"
  by (auto simp: rx_wf_def Epoll_new_def expected_def fun_eq_iff)

lemma rx_wf_sys_call:
  assumes "rx_wf s" and "\<And>w. ctl_step w c = w" and "\<And>w. ctl_ok w c"
  shows "rx_wf (sys_call c s)"
  using assms by (simp add: rx_wf_def)

lemma rx_wf_close:
  assumes "rx_wf s" and "rx_channelMap s fd = None"
  shows "rx_wf (sys_call (SysClose fd) s)"
proof -
  have "expected s fd = None" using assms(2) by (simp add: expected_def)
  then have "(expected s)(fd := None) = expected s" by (simp add: fun_upd_idem)
  with assms(1) show ?thesis by (simp add: rx_wf_def)
qed

lemma rx_wf_mapD: "rx_wf s \<Longrightarrow> rx_channelMap s fd = Some p \<Longrightarrow>
    \<exists>c. rx_chans s p = Some c \<and> ch_fd c = fd \<and> ch_state c \<noteq> NEW"
  by (simp add: rx_wf_def)

lemma rx_wf_chanD: "rx_wf s \<Longrightarrow> rx_chans s p = Some c \<Longrightarrow> ch_state c \<noteq> NEW \<Longrightarrow>
    rx_channelMap s (ch_fd c) = Some p"
  by (simp add: rx_wf_def)

lemma rx_wf_put_new:
  assumes "rx_wf s" and "rx_chans s p = None" and "ch_state c = NEW"
  shows "rx_wf (Channel_put p c s)"
proof -
  have "rx_channelMap s fd \<noteq> Some p" for fd
    using rx_wf_mapD[OF assms(1), of fd p] assms(2) by auto
  then show ?thesis
    using assms unfolding rx_wf_def by (auto simp: expected_def fun_eq_iff split: option.splits)
qed

lemma rx_wf_destroy:
  assumes "rx_wf s" and "rx_chans s p = Some c" and "ch_state c = NEW"
  shows "rx_wf (Channel_destroy p s)"
proof -
  have "rx_channelMap s fd \<noteq> Some p" for fd
    using rx_wf_mapD[OF assms(1), of fd p] assms by auto
  then show ?thesis
    using assms unfolding rx_wf_def by (auto simp: expected_def fun_eq_iff split: option.splits)
qed

text \<open>Changing what a channel remembers of returned events or callbacks.\<close>

lemma rx_wf_put_same:
  assumes "rx_wf s" and "rx_chans s p = Some c" and "ch_fd c' = ch_fd c"
    and "ch_state c' = ch_state c" and "ch_requested c' = ch_requested c"
  shows "rx_wf (Channel_put p c' s)"
proof -
  have "expected (Channel_put p c' s) = expected s"
    using assms(2-) by (auto simp: expected_def fun_eq_iff split: option.splits)
  moreover have "ch_fd c = fd \<and> ch_state c \<noteq> NEW" if "rx_channelMap s fd = Some p" for fd
    using rx_wf_mapD[OF assms(1) that] assms(2) by simp
  ultimately show ?thesis
    using assms unfolding rx_wf_def by (auto split: if_splits)
qed

fun next_state :: "event_state \<Rightarrow> events \<Rightarrow> event_state" where
  "next_state NEW e = ADDED"
| "next_state ADDED e = (if e = 0 then DELETED else ADDED)"
| "next_state DELETED e = ADDED"

fun next_ctl :: "event_state \<Rightarrow> events \<Rightarrow> ctl_op" where
  "next_ctl NEW e = CtlAdd"
| "next_ctl ADDED e = (if e = 0 then CtlDel else CtlMod)"
| "next_ctl DELETED e = CtlAdd"

definition rx_ready :: "'z reactor_scheme \<Rightarrow> ptr \<Rightarrow> bool" where
  "rx_ready s p \<longleftrightarrow>
     (\<exists>c. rx_chans s p = Some c \<and> (ch_state c = NEW \<longrightarrow> rx_channelMap s (ch_fd c) = None))"

definition requested_with :: "events \<Rightarrow> channel \<Rightarrow> channel" where
  "requested_with e c = c\<lparr>ch_requested := e, ch_state := next_state (ch_state c) e\<rparr>"

definition request_result :: "ptr \<Rightarrow> channel \<Rightarrow> events \<Rightarrow> 'z reactor_scheme \<Rightarrow> 'z reactor_scheme" where
  "request_result p c e s =
     s\<lparr>rx_chans := (rx_chans s)(p \<mapsto> requested_with e c),
       rx_channelMap := (rx_channelMap s)(ch_fd c \<mapsto> p),
       rx_trace := rx_trace s @ [SysEpollCtl (next_ctl (ch_state c) e) (ch_fd c) e p]\<rparr>"

lemma requested_with_simps [simp]:
  "ch_fd (requested_with e c) = ch_fd c"
  "ch_requested (requested_with e c) = e"
  "ch_state (requested_with e c) = next_state (ch_state c) e"
  "ch_returned (requested_with e c) = ch_returned c"
  "ch_writeCb (requested_with e c) = ch_writeCb c"
  "ch_readCb (requested_with e c) = ch_readCb c"
  "ch_errorCb (requested_with e c) = ch_errorCb c"
  "ch_closeCb (requested_with e c) = ch_closeCb c"
  by (simp_all add: requested_with_def)

lemma next_state_not_NEW [simp]: "next_state st e \<noteq> NEW"
  by (cases st) simp_all

lemma Channel_request_eq:
  assumes wf: "rx_wf s" and c: "rx_chans s p = Some c" and ready: "rx_ready s p"
  shows "Channel_request f p s = Inr (request_result p c (f (ch_requested c)) s)"
proof -
  have new: "rx_channelMap s (ch_fd c) = None" if "ch_state c = NEW"
    using ready c that by (auto simp: rx_ready_def)
  have old: "rx_channelMap s (ch_fd c) = Some p" if "ch_state c \<noteq> NEW"
    using rx_wf_chanD[OF wf c that] .
  have same: "requested_with e c = c\<lparr>ch_requested := e\<rparr>" if "ch_state c = ADDED" "e \<noteq> 0" for e
    using that by (cases c) (simp add: requested_with_def)
  note defs = Channel_request_def Channel_update_def Epoll_updateChannel_def Epoll_update_def
    request_result_def isNoEvent_def kNoneEvent_def Channel_put_def sys_call_def
  show ?thesis
  proof (cases "ch_state c = ADDED \<and> f (ch_requested c) \<noteq> 0")
    case True
    with c old show ?thesis by (simp add: defs same fun_upd_idem)
  next
    case False
    with c new old show ?thesis
      by (cases "ch_state c") (auto simp: defs requested_with_def fun_upd_idem)
  qed
qed

lemma request_result_wf:
  assumes wf: "rx_wf s" and c: "rx_chans s p = Some c" and ready: "rx_ready s p"
  shows "rx_wf (request_result p c e s)"
proof -
  let ?s = "request_result p c e s"
  have new: "rx_channelMap s (ch_fd c) = None" if "ch_state c = NEW"
    using ready c that by (auto simp: rx_ready_def)
  have old: "rx_channelMap s (ch_fd c) = Some p" if "ch_state c \<noteq> NEW"
    using rx_wf_chanD[OF wf c that] .
  have only: "fd = ch_fd c" if "rx_channelMap s fd = Some p" for fd
    using rx_wf_mapD[OF wf that] c by auto
  have exp: "expected ?s = (if next_state (ch_state c) e = ADDED
      then (expected s)(ch_fd c \<mapsto> (e, p)) else (expected s)(ch_fd c := None))"
    using only by (auto simp: expected_def request_result_def fun_eq_iff split: option.splits)
  have int: "interest (rx_trace s) = expected s" and legal: "ctl_legal (rx_trace s)"
    using wf by (simp_all add: rx_wf_def)
  have here: "expected s (ch_fd c) = (if ch_state c = ADDED then Some (ch_requested c, p) else None)"
    using new old c by (cases "ch_state c") (auto simp: expected_def)
  have "interest (rx_trace ?s) = expected ?s" "ctl_legal (rx_trace ?s)"
    using int legal here exp by (cases "ch_state c"; simp add: request_result_def)+
  moreover have "\<exists>d. rx_chans ?s q = Some d \<and> ch_fd d = fd \<and> ch_state d \<noteq> NEW"
    if "rx_channelMap ?s fd = Some q" for fd q
  proof (cases "fd = ch_fd c")
    case True
    with that show ?thesis by (simp add: request_result_def)
  next
    case False
    then have m: "rx_channelMap s fd = Some q" using that by (simp add: request_result_def)
    with False only have "q \<noteq> p" by auto
    with rx_wf_mapD[OF wf m] show ?thesis by (simp add: request_result_def)
  qed
  moreover have "rx_channelMap ?s (ch_fd d) = Some q"
    if q: "rx_chans ?s q = Some d" "ch_state d \<noteq> NEW" for q d
  proof (cases "q = p")
    case True
    with q show ?thesis by (auto simp: request_result_def)
  next
    case False
    then have d: "rx_chans s q = Some d" using q by (simp add: request_result_def)
    from rx_wf_chanD[OF wf d q(2)] have m: "rx_channelMap s (ch_fd d) = Some q" .
    with new old False have "ch_fd d \<noteq> ch_fd c" by (cases "ch_state c = NEW") auto
    with m show ?thesis by (simp add: request_result_def)
  qed
  ultimately show ?thesis unfolding rx_wf_def by blast
qed

lemma Channel_remove_eq:
  assumes "rx_chans s p = Some c"
  shows "Channel_remove p s = Inr (s\<lparr>rx_chans := (rx_chans s)(p \<mapsto> c\<lparr>ch_state := NEW\<rparr>),
      rx_channelMap := (rx_channelMap s)(ch_fd c := None),
      rx_trace := rx_trace s @
        (if ch_state c = ADDED then [SysEpollCtl CtlDel (ch_fd c) (ch_requested c) p] else [])\<rparr>)"
  using assms
  by (simp add: Channel_remove_def Epoll_removeChannel_def Epoll_update_def Channel_put_def sys_call_def)

lemma Channel_remove_wf:
  assumes wf: "rx_wf s" and c: "rx_chans s p = Some c" and ready: "rx_ready s p"
    and rem: "Channel_remove p s = Inr s'"
  shows "rx_wf s' \<and> interest (rx_trace s') = (interest (rx_trace s))(ch_fd c := None)"
proof -
  have owner: "rx_channelMap s (ch_fd c) = (if ch_state c = NEW then None else Some p)"
    using ready c rx_wf_chanD[OF wf c] by (auto simp: rx_ready_def)
  have only: "fd = ch_fd c" if "rx_channelMap s fd = Some p" for fd
    using rx_wf_mapD[OF wf that] c by auto
  have int: "interest (rx_trace s) = expected s" and legal: "ctl_legal (rx_trace s)"
    using wf by (simp_all add: rx_wf_def)
  have s': "rx_chans s' = (rx_chans s)(p \<mapsto> c\<lparr>ch_state := NEW\<rparr>)"
      "rx_channelMap s' = (rx_channelMap s)(ch_fd c := None)"
      "rx_trace s' = rx_trace s @
        (if ch_state c = ADDED then [SysEpollCtl CtlDel (ch_fd c) (ch_requested c) p] else [])"
    using rem Channel_remove_eq[OF c] by auto
  have here: "expected s (ch_fd c) = (if ch_state c = ADDED then Some (ch_requested c, p) else None)"
    using owner c by (auto simp: expected_def)
  have exp: "expected s' = (expected s)(ch_fd c := None)"
    using only s' by (auto simp: expected_def fun_eq_iff split: option.splits)
  have int': "interest (rx_trace s') = (interest (rx_trace s))(ch_fd c := None)"
    using s'(3) int here by (auto simp: fun_upd_idem)
  have "ctl_legal (rx_trace s')"
    using s'(3) int legal here by auto
  moreover have "\<exists>d. rx_chans s' q = Some d \<and> ch_fd d = fd \<and> ch_state d \<noteq> NEW"
    if "rx_channelMap s' fd = Some q" for fd q
  proof -
    have m: "rx_channelMap s fd = Some q" "fd \<noteq> ch_fd c" using that s' by (auto split: if_splits)
    then have "q \<noteq> p" using only by auto
    with rx_wf_mapD[OF wf m(1)] s' show ?thesis by auto
  qed
  moreover have "rx_channelMap s' (ch_fd d) = Some q"
    if q: "rx_chans s' q = Some d" "ch_state d \<noteq> NEW" for q d
  proof -
    have "q \<noteq> p" "rx_chans s q = Some d" using q s' by (auto split: if_splits)
    moreover from rx_wf_chanD[OF wf this(2) q(2)] have "rx_channelMap s (ch_fd d) = Some q" .
    moreover from this \<open>q \<noteq> p\<close> owner have "ch_fd d \<noteq> ch_fd c" by (auto split: if_splits)
    ultimately show ?thesis using s' by simp
  qed
  ultimately show ?thesis using int int' exp unfolding rx_wf_def by simp
qed

section \<open>The selector contract\<close>

text \<open>
  \<open>rx_inv\<close> adds that live channels have different descriptors, which the kernel
  guarantees for open ones; every live channel is then ready to be registered.
\<close>

definition rx_inv :: "'z reactor_scheme \<Rightarrow> bool" where
  "rx_inv s \<longleftrightarrow> rx_wf s \<and>
     (\<forall>p q c d. rx_chans s p = Some c \<longrightarrow> rx_chans s q = Some d \<longrightarrow> ch_fd c = ch_fd d \<longrightarrow> p = q)"

lemma rx_inv_wf [simp]: "rx_inv s \<Longrightarrow> rx_wf s"
  by (simp add: rx_inv_def)

lemma rx_inv_ready [simp]:
  assumes "rx_inv s" and "rx_chans s p = Some c"
  shows "rx_ready s p"
proof -
  have "rx_channelMap s (ch_fd c) = None" if "ch_state c = NEW"
  proof (rule ccontr)
    assume "rx_channelMap s (ch_fd c) \<noteq> None"
    then obtain q where "rx_channelMap s (ch_fd c) = Some q" by auto
    then obtain d where "rx_chans s q = Some d" "ch_fd d = ch_fd c" "ch_state d \<noteq> NEW"
      using rx_wf_mapD assms(1) rx_inv_wf by blast
    with assms that show False unfolding rx_inv_def by (metis option.inject)
  qed
  with assms(2) show ?thesis by (simp add: rx_ready_def)
qed

lemma rx_inv_keep:
  assumes inv: "rx_inv s" and wf: "rx_wf s'" and c: "rx_chans s p = Some c"
    and upd: "rx_chans s' = (rx_chans s)(p \<mapsto> c')" "ch_fd c' = ch_fd c"
  shows "rx_inv s'"
proof -
  have fd: "\<exists>d'. rx_chans s q = Some d' \<and> ch_fd d' = ch_fd d" if "rx_chans s' q = Some d" for q d
    using that upd c by (auto split: if_splits)
  have "p1 = p2" if "rx_chans s' p1 = Some c1" "rx_chans s' p2 = Some c2" "ch_fd c1 = ch_fd c2"
    for p1 p2 c1 c2
    using fd[OF that(1)] fd[OF that(2)] that(3) inv unfolding rx_inv_def by metis
  with wf show ?thesis unfolding rx_inv_def by blast
qed

lemma rx_inv_new [simp]: "rx_inv Epoll_new"
  by (simp add: rx_inv_def)

lemma rx_inv_put_new:
  assumes inv: "rx_inv s" and free: "rx_chans s p = None" and new: "ch_state c = NEW"
    and fd: "\<And>q d. rx_chans s q = Some d \<Longrightarrow> ch_fd d \<noteq> ch_fd c"
  shows "rx_inv (Channel_put p c s)"
  unfolding rx_inv_def
proof (intro conjI allI impI)
  show "rx_wf (Channel_put p c s)"
    by (rule rx_wf_put_new[OF rx_inv_wf[OF inv] free new])
  fix q r c1 c2
  assume "rx_chans (Channel_put p c s) q = Some c1" "rx_chans (Channel_put p c s) r = Some c2"
    "ch_fd c1 = ch_fd c2"
  with fd[of q c1] fd[of r c2] inv show "q = r"
    unfolding rx_inv_def by (cases "q = p"; cases "r = p") auto
qed

lemma rx_inv_destroy:
  assumes "rx_inv s" and "rx_chans s p = Some c" and "ch_state c = NEW"
  shows "rx_inv (Channel_destroy p s)"
  using assms rx_wf_destroy[OF rx_inv_wf[OF assms(1)] assms(2,3)]
  unfolding rx_inv_def by (auto split: if_splits)

locale selector =
  fixes inv :: "'s \<Rightarrow> bool"
    and chan :: "'s \<Rightarrow> ptr \<Rightarrow> channel option"
    and watched :: "'s \<Rightarrow> watch"
    and request :: "(events \<Rightarrow> events) \<Rightarrow> ptr \<Rightarrow> 's \<Rightarrow> 's result"
    and remove :: "ptr \<Rightarrow> 's \<Rightarrow> 's result"
  assumes request_law: "inv s \<Longrightarrow> chan s p = Some c \<Longrightarrow>
      \<exists>s'. request f p s = Inr s' \<and> inv s' \<and>
        chan s' = (chan s)(p \<mapsto> requested_with (f (ch_requested c)) c) \<and>
        watched s' = (watched s)(ch_fd c :=
          (if next_state (ch_state c) (f (ch_requested c)) = ADDED
           then Some (f (ch_requested c), p) else None))"
    and remove_law: "inv s \<Longrightarrow> chan s p = Some c \<Longrightarrow>
      \<exists>s'. remove p s = Inr s' \<and> inv s' \<and> chan s' = (chan s)(p \<mapsto> c\<lparr>ch_state := NEW\<rparr>) \<and>
        watched s' = (watched s)(ch_fd c := None)"
begin

text \<open>A channel that is disabled and removed leaves nothing behind, whatever it was.\<close>

lemma disable_and_remove:
  assumes "inv s" and "chan s p = Some c"
  shows "\<exists>s'. bindr (request (\<lambda>_. 0) p s) (remove p) = Inr s' \<and> inv s' \<and>
    chan s' = (chan s)(p \<mapsto> c\<lparr>ch_requested := 0, ch_state := NEW\<rparr>) \<and>
    watched s' = (watched s)(ch_fd c := None)"
proof -
  obtain s1 where s1: "request (\<lambda>_. 0) p s = Inr s1" "inv s1"
      "chan s1 = (chan s)(p \<mapsto> requested_with 0 c)"
      "watched s1 = (watched s)(ch_fd c :=
        (if next_state (ch_state c) 0 = ADDED then Some (0, p) else None))"
    using request_law[OF assms, of "\<lambda>_. 0"] by auto
  then obtain s2 where "remove p s1 = Inr s2" "inv s2"
      "chan s2 = (chan s1)(p \<mapsto> (requested_with 0 c)\<lparr>ch_state := NEW\<rparr>)"
      "watched s2 = (watched s1)(ch_fd c := None)"
    using remove_law[of s1 p "requested_with 0 c"] by auto
  with s1 show ?thesis by (auto simp: requested_with_def)
qed

text \<open>Any sequence of requests and removals on live channels succeeds and keeps the invariant.\<close>

lemma requests_total:
  assumes "inv s" and "\<And>p f. (p, f) \<in> set ops \<Longrightarrow> chan s p \<noteq> None"
  shows "\<exists>s'. fold_res (\<lambda>(p, f) s. case f of None \<Rightarrow> remove p s | Some g \<Rightarrow> request g p s) ops s = Inr s' \<and>
    inv s'"
proof -
  let ?step = "\<lambda>(p, f) s. case f of None \<Rightarrow> remove p s | Some g \<Rightarrow> request g p s"
  let ?P = "\<lambda>t. inv t \<and> (\<forall>p. chan s p \<noteq> None \<longrightarrow> chan t p \<noteq> None)"
  have "\<exists>s'. fold_res ?step ops s = Inr s' \<and> ?P s'"
  proof (rule fold_res_total)
    show "?P s" using assms by simp
    fix x t assume "x \<in> set ops" "?P t"
    moreover obtain p f where x: "x = (p, f)" by (cases x)
    ultimately obtain c where c: "inv t" "chan t p = Some c" using assms(2) by fastforce
    show "\<exists>t'. ?step x t = Inr t' \<and> ?P t'"
    proof (cases f)
      case None
      from remove_law[OF c] obtain t' where "remove p t = Inr t'" "inv t'"
          "chan t' = (chan t)(p \<mapsto> c\<lparr>ch_state := NEW\<rparr>)" by blast
      with None x \<open>?P t\<close> show ?thesis by auto
    next
      case (Some g)
      from request_law[OF c, of g] obtain t' where "request g p t = Inr t'" "inv t'"
          "chan t' = (chan t)(p \<mapsto> requested_with (g (ch_requested c)) c)" by blast
      with Some x \<open>?P t\<close> show ?thesis by auto
    qed
  qed
  then show ?thesis by blast
qed

end

lemma rx_request_law:
  assumes inv: "rx_inv s" and c: "rx_chans s p = Some c"
  shows "Channel_request f p s = Inr (request_result p c (f (ch_requested c)) s)"
    and "rx_inv (request_result p c e s)"
    and "interest (rx_trace (request_result p c e s)) = (interest (rx_trace s))(ch_fd c :=
          (if next_state (ch_state c) e = ADDED then Some (e, p) else None))"
proof -
  note ready = rx_inv_ready[OF inv c] and wf = rx_inv_wf[OF inv]
  show "Channel_request f p s = Inr (request_result p c (f (ch_requested c)) s)"
    by (rule Channel_request_eq[OF wf c ready])
  show "rx_inv (request_result p c e s)"
    by (rule rx_inv_keep[OF inv request_result_wf[OF wf c ready] c, where c' = "requested_with e c"])
      (simp_all add: request_result_def)
  show "interest (rx_trace (request_result p c e s)) = (interest (rx_trace s))(ch_fd c :=
          (if next_state (ch_state c) e = ADDED then Some (e, p) else None))"
    by (cases "ch_state c") (simp_all add: request_result_def)
qed

interpretation epl: selector rx_inv rx_chans "\<lambda>s. interest (rx_trace s)" Channel_request Channel_remove
proof
  fix s :: "'z reactor_scheme" and p c f
  assume a: "rx_inv s" "rx_chans s p = Some c"
  show "\<exists>s'. Channel_request f p s = Inr s' \<and> rx_inv s' \<and>
        rx_chans s' = (rx_chans s)(p \<mapsto> requested_with (f (ch_requested c)) c) \<and>
        interest (rx_trace s') = (interest (rx_trace s))(ch_fd c :=
          (if next_state (ch_state c) (f (ch_requested c)) = ADDED
           then Some (f (ch_requested c), p) else None))"
    using rx_request_law[OF a] by (auto simp: request_result_def)
  show "\<exists>s'. Channel_remove p s = Inr s' \<and> rx_inv s' \<and>
        rx_chans s' = (rx_chans s)(p \<mapsto> c\<lparr>ch_state := NEW\<rparr>) \<and>
        interest (rx_trace s') = (interest (rx_trace s))(ch_fd c := None)"
  proof -
    obtain s' where s': "Channel_remove p s = Inr s'"
        "rx_chans s' = (rx_chans s)(p \<mapsto> c\<lparr>ch_state := NEW\<rparr>)"
      using Channel_remove_eq[OF a(2)] by auto
    then have w: "rx_wf s' \<and> interest (rx_trace s') = (interest (rx_trace s))(ch_fd c := None)"
      using Channel_remove_wf[OF rx_inv_wf[OF a(1)] a(2) rx_inv_ready[OF a]] by blast
    then have "rx_inv s'" using rx_inv_keep[OF a(1) _ a(2) s'(2)] by simp
    with w s' show ?thesis by blast
  qed
qed

section \<open>Delivering events\<close>

text \<open>
  \<open>epoll_wait\<close> reports descriptors it watches, with the pointer registered for each:
  \<open>deliverable\<close> says so of its outcome.
\<close>

definition deliverable :: "'z reactor_scheme \<Rightarrow> (ptr \<times> events) list \<Rightarrow> bool" where
  "deliverable s evs \<longleftrightarrow>
     (\<forall>(p, e) \<in> set evs. \<exists>fd ev. interest (rx_trace s) fd = Some (ev, p)) \<and>
     distinct (map fst evs) \<and> length evs \<le> rx_eventsSize s"

lemma interest_chan:
  assumes "rx_wf s" and "interest (rx_trace s) fd = Some (ev, p)"
  shows "\<exists>c. rx_chans s p = Some c \<and> ch_fd c = fd \<and> rx_channelMap s fd = Some p \<and> ch_state c = ADDED"
proof -
  have "expected s fd = Some (ev, p)" using assms by (simp add: rx_wf_def)
  then have m: "rx_channelMap s fd = Some p"
    by (auto simp: expected_def split: option.splits if_splits)
  with rx_wf_mapD[OF assms(1) m] \<open>expected s fd = Some (ev, p)\<close> show ?thesis
    by (auto simp: expected_def split: if_splits)
qed

lemma select_fold:
  assumes "rx_inv t" and "distinct (map fst evs)"
    and "\<forall>(p, e) \<in> set evs. \<exists>fd ev. interest (rx_trace t) fd = Some (ev, p)"
  shows "\<exists>t'. fold_res select_one evs (t, act) = Inr (t', act @ map fst evs) \<and> rx_inv t' \<and>
    rx_channelMap t' = rx_channelMap t \<and> rx_trace t' = rx_trace t \<and>
    rx_eventsSize t' = rx_eventsSize t \<and> reactor.more t' = reactor.more t \<and>
    (\<forall>p. p \<notin> fst ` set evs \<longrightarrow> rx_chans t' p = rx_chans t p) \<and>
    (\<forall>(p, e) \<in> set evs. \<exists>c. rx_chans t p = Some c \<and> rx_chans t' p = Some (c\<lparr>ch_returned := e\<rparr>))"
  using assms
proof (induction evs arbitrary: t act)
  case (Cons ev evs)
  obtain p e where ev: "ev = (p, e)" by (cases ev)
  with Cons.prems(3) obtain fd w where w: "interest (rx_trace t) fd = Some (w, p)" by auto
  from interest_chan[OF rx_inv_wf[OF Cons.prems(1)] w]
  obtain c where c: "rx_chans t p = Some c" "rx_channelMap t (ch_fd c) = Some p" by auto
  let ?t1 = "Channel_put p (c\<lparr>ch_returned := e\<rparr>) t"
  have one: "select_one ev (t, act) = Inr (?t1, act @ [p])"
    using c ev by (simp add: select_one_def)
  have wf1: "rx_wf ?t1"
    by (rule rx_wf_put_same[OF rx_inv_wf[OF Cons.prems(1)] c(1)]) simp_all
  have inv1: "rx_inv ?t1"
    by (rule rx_inv_keep[OF Cons.prems(1) wf1 c(1), where c' = "c\<lparr>ch_returned := e\<rparr>"]) simp_all
  have notin: "p \<notin> fst ` set evs" using Cons.prems(2) ev by simp
  obtain t' where t': "fold_res select_one evs (?t1, act @ [p]) = Inr (t', (act @ [p]) @ map fst evs)"
      "rx_inv t'" "rx_channelMap t' = rx_channelMap t" "rx_trace t' = rx_trace t"
      "rx_eventsSize t' = rx_eventsSize t" "reactor.more t' = reactor.more t"
      "\<forall>q. q \<notin> fst ` set evs \<longrightarrow> rx_chans t' q = rx_chans ?t1 q"
      "\<forall>(q, f) \<in> set evs. \<exists>d. rx_chans ?t1 q = Some d \<and> rx_chans t' q = Some (d\<lparr>ch_returned := f\<rparr>)"
    using Cons.IH[OF inv1, of "act @ [p]"] Cons.prems(2,3) by auto
  have "rx_chans t' p = Some (c\<lparr>ch_returned := e\<rparr>)" using t'(7) notin by simp
  moreover have "\<exists>d. rx_chans t q = Some d \<and> rx_chans t' q = Some (d\<lparr>ch_returned := f\<rparr>)"
    if "(q, f) \<in> set evs" for q f
  proof -
    from that notin have "q \<noteq> p" by force
    with t'(8) that show ?thesis by fastforce
  qed
  ultimately show ?case using one t' ev c(1) by auto
qed simp

lemma Epoll_select_ok:
  assumes inv: "rx_inv s" and del: "deliverable s evs"
  shows "\<exists>s'. Epoll_select (Some evs) s = Inr (s', map fst evs) \<and> rx_inv s' \<and>
    rx_channelMap s' = rx_channelMap s \<and> rx_trace s' = rx_trace s \<and>
    reactor.more s' = reactor.more s \<and> rx_eventsSize s \<le> rx_eventsSize s' \<and>
    (\<forall>p. p \<notin> fst ` set evs \<longrightarrow> rx_chans s' p = rx_chans s p) \<and>
    (\<forall>(p, e) \<in> set evs. \<exists>c. rx_chans s p = Some c \<and> rx_chans s' p = Some (c\<lparr>ch_returned := e\<rparr>))"
proof (cases "evs = []")
  case True
  then show ?thesis using inv by (simp add: Epoll_select_def)
next
  case False
  obtain t where t: "fold_res select_one evs (s, []) = Inr (t, map fst evs)" "rx_inv t"
      "rx_channelMap t = rx_channelMap s" "rx_trace t = rx_trace s"
      "rx_eventsSize t = rx_eventsSize s" "reactor.more t = reactor.more s"
      "\<forall>p. p \<notin> fst ` set evs \<longrightarrow> rx_chans t p = rx_chans s p"
      "\<forall>(p, e) \<in> set evs. \<exists>c. rx_chans s p = Some c \<and> rx_chans t p = Some (c\<lparr>ch_returned := e\<rparr>)"
    using select_fold[OF inv, of evs "[]"] del by (auto simp: deliverable_def)
  let ?t' = "t\<lparr>rx_eventsSize := rx_eventsSize t * 2\<rparr>"
  have "expected ?t' = expected t" by (rule expected_cong) simp_all
  then have "rx_wf ?t'" using t(2)[THEN rx_inv_wf] by (simp add: rx_wf_def)
  then have "rx_inv ?t'" using t(2) by (simp add: rx_inv_def)
  then show ?thesis
    using False t del by (auto simp: Epoll_select_def deliverable_def)
qed

section \<open>Dispatching events\<close>

definition opt_list :: "'a option \<Rightarrow> 'a list" where
  "opt_list x = (case x of None \<Rightarrow> [] | Some y \<Rightarrow> [y])"

definition dispatch :: "channel \<Rightarrow> callback list" where
  "dispatch c =
     (if wants_write (ch_returned c) then opt_list (ch_writeCb c) else []) @
     (if wants_error (ch_returned c) then opt_list (ch_errorCb c) else []) @
     (if wants_read (ch_returned c) then opt_list (ch_readCb c) else []) @
     (if wants_close (ch_returned c) then opt_list (ch_closeCb c) else [])"

definition same_handlers :: "channel \<Rightarrow> ptr \<Rightarrow> 'z reactor_scheme \<Rightarrow> bool" where
  "same_handlers c p s \<longleftrightarrow>
     (\<exists>d. rx_chans s p = Some d \<and> ch_returned d = ch_returned c \<and> ch_writeCb d = ch_writeCb c \<and>
        ch_errorCb d = ch_errorCb c \<and> ch_readCb d = ch_readCb c \<and> ch_closeCb d = ch_closeCb c)"

lemma call_cb_simps [simp]:
  "call_cb run None s = Inr s" "call_cb run (Some f) s = run f s"
  by (simp_all add: call_cb_def)

lemma fold_res_optional:
  "fold_res run (opt_list cb) s = call_cb run cb s"
  by (cases cb) (auto simp: opt_list_def bindr_def split: sum.splits)

lemma handle_if_eq:
  assumes "same_handlers c p s" and "\<And>d. same_handlers c p s \<Longrightarrow> rx_chans s p = Some d \<Longrightarrow> cb d = cb c"
  shows "handle_if test cb run p s =
    fold_res run (if test (ch_returned c) then opt_list (cb c) else []) s"
  using assms by (auto simp: handle_if_def same_handlers_def fold_res_optional)

lemma handleEvents_dispatch:
  assumes alive: "same_handlers c p s"
    and keep: "\<And>f t t'. same_handlers c p t \<Longrightarrow> run f t = Inr t' \<Longrightarrow> same_handlers c p t'"
  shows "Channel_handleEvents run p s = fold_res run (dispatch c) s"
proof -
  have keeps: "same_handlers c p t'" if "same_handlers c p t" "fold_res run fs t = Inr t'" for fs t t'
    by (rule fold_res_inv[where f = run and xs = fs and s = t]) (use keep that in blast)+
  have seq: "bindr (handle_if test cb run p t) g = fold_res run (fs @ gs) t"
    if "same_handlers c p t" "handle_if test cb run p t = fold_res run fs t"
      "\<And>t'. same_handlers c p t' \<Longrightarrow> g t' = fold_res run gs t'" for test cb t g fs gs
    using keeps[OF that(1)] that(2,3) by (cases "fold_res run fs t") (auto simp: fold_res_append)
  let ?w = "if wants_write (ch_returned c) then opt_list (ch_writeCb c) else []"
  let ?e = "if wants_error (ch_returned c) then opt_list (ch_errorCb c) else []"
  let ?r = "if wants_read (ch_returned c) then opt_list (ch_readCb c) else []"
  let ?k = "if wants_close (ch_returned c) then opt_list (ch_closeCb c) else []"
  have w: "handle_if wants_write ch_writeCb run p t = fold_res run ?w t"
    and e: "handle_if wants_error ch_errorCb run p t = fold_res run ?e t"
    and r: "handle_if wants_read ch_readCb run p t = fold_res run ?r t"
    and k: "handle_if wants_close ch_closeCb run p t = fold_res run ?k t"
    if "same_handlers c p t" for t
  proof -
    note same = that[unfolded same_handlers_def]
    show "handle_if wants_write ch_writeCb run p t = fold_res run ?w t"
      by (rule handle_if_eq[OF that]) (use same in auto)
    show "handle_if wants_error ch_errorCb run p t = fold_res run ?e t"
      by (rule handle_if_eq[OF that]) (use same in auto)
    show "handle_if wants_read ch_readCb run p t = fold_res run ?r t"
      by (rule handle_if_eq[OF that]) (use same in auto)
    show "handle_if wants_close ch_closeCb run p t = fold_res run ?k t"
      by (rule handle_if_eq[OF that]) (use same in auto)
  qed
  have rk: "bindr (handle_if wants_read ch_readCb run p t) (handle_if wants_close ch_closeCb run p) =
      fold_res run (?r @ ?k) t" if "same_handlers c p t" for t
    by (rule seq[OF that r[OF that] k])
  have erk: "bindr (handle_if wants_error ch_errorCb run p t)
      (\<lambda>s2. bindr (handle_if wants_read ch_readCb run p s2) (handle_if wants_close ch_closeCb run p)) =
      fold_res run (?e @ ?r @ ?k) t" if "same_handlers c p t" for t
    by (rule seq[OF that e[OF that] rk])
  show ?thesis
    unfolding Channel_handleEvents_def dispatch_def
    by (rule seq[OF alive w[OF alive] erk])
qed

section \<open>Properties\<close>

datatype channel_op = OpEnableRead | OpDisableRead | OpEnableWrite | OpDisableWrite | OpDisableAll | OpRemove

fun run_channel_op :: "channel_op \<Rightarrow> ptr \<Rightarrow> 'z reactor_scheme \<Rightarrow> 'z reactor_scheme result" where
  "run_channel_op OpEnableRead = enableRead"
| "run_channel_op OpDisableRead = disableRead"
| "run_channel_op OpEnableWrite = enableWrite"
| "run_channel_op OpDisableWrite = disableWrite"
| "run_channel_op OpDisableAll = disableAll"
| "run_channel_op OpRemove = Channel_remove"

fun op_request :: "channel_op \<Rightarrow> (events \<Rightarrow> events) option" where
  "op_request OpEnableRead = Some (\<lambda>e. e OR kReadEvent)"
| "op_request OpDisableRead = Some (\<lambda>e. e AND NOT kReadEvent)"
| "op_request OpEnableWrite = Some (\<lambda>e. e OR kWriteEvent)"
| "op_request OpDisableWrite = Some (\<lambda>e. e AND NOT kWriteEvent)"
| "op_request OpDisableAll = Some (\<lambda>e. kNoneEvent)"
| "op_request OpRemove = None"

lemma channel_op_request:
  "run_channel_op c p s =
    (case op_request c of None \<Rightarrow> Channel_remove p s | Some g \<Rightarrow> Channel_request g p s)"
  by (cases c) (simp_all add: enableRead_def disableRead_def enableWrite_def disableWrite_def disableAll_def)

text \<open>C4. Whatever sequence of enabling, disabling and removing is performed on live channels: no
  assertion of \<open>Epoll\<close> fails, every \<open>epoll_ctl\<close> issued is one the kernel accepts, and in the end
  the kernel watches exactly the registered channels, each for exactly the events it requests.\<close>

theorem epoll_tracks_channels:
  assumes "rx_inv s" and "\<And>p. p \<in> snd ` set ops \<Longrightarrow> rx_chans s p \<noteq> None"
  shows "\<exists>s'. fold_res (\<lambda>(c, p). run_channel_op c p) ops s = Inr s' \<and> ctl_legal (rx_trace s') \<and>
    (\<forall>fd ev p. interest (rx_trace s') fd = Some (ev, p) \<longleftrightarrow>
      (\<exists>c. rx_chans s' p = Some c \<and> ch_fd c = fd \<and> ch_state c = ADDED \<and> ch_requested c = ev))"
proof -
  let ?ops = "map (\<lambda>(c, p). (p, op_request c)) ops"
  have fold: "fold_res (\<lambda>(c, p). run_channel_op c p) xs t =
      fold_res (\<lambda>(p, f) s. case f of None \<Rightarrow> Channel_remove p s | Some g \<Rightarrow> Channel_request g p s)
        (map (\<lambda>(c, p). (p, op_request c)) xs) t" for xs and t :: "'a reactor_scheme"
    by (induction xs arbitrary: t) (auto simp: channel_op_request bindr_def split: sum.splits)
  obtain s' where s': "fold_res (\<lambda>(c, p). run_channel_op c p) ops s = Inr s'" "rx_inv s'"
    unfolding fold using epl.requests_total[OF assms(1), of ?ops] assms(2) by force
  have "interest (rx_trace s') fd = Some (ev, p) \<longleftrightarrow>
      (\<exists>c. rx_chans s' p = Some c \<and> ch_fd c = fd \<and> ch_state c = ADDED \<and> ch_requested c = ev)" for fd ev p
  proof -
    have "expected s' fd = Some (ev, p) \<longleftrightarrow>
      (\<exists>c. rx_chans s' p = Some c \<and> ch_fd c = fd \<and> ch_state c = ADDED \<and> ch_requested c = ev)"
      using rx_wf_mapD[OF rx_inv_wf[OF s'(2)], of fd p] rx_wf_chanD[OF rx_inv_wf[OF s'(2)], of p]
      by (auto simp: expected_def split: option.splits if_splits)
    then show ?thesis using s'(2)[THEN rx_inv_wf] by (simp add: rx_wf_def)
  qed
  then show ?thesis using s' by (auto simp: rx_inv_def rx_wf_def)
qed

definition two_channels :: reactor where
  "two_channels = Channel_put 2 (Channel_make 8) (Channel_put 1 (Channel_make 7) Epoll_new)"

lemma two_channels_inv: "rx_inv two_channels"
proof -
  have "rx_inv (Channel_put 1 (Channel_make 7) Epoll_new)"
    by (rule rx_inv_put_new) simp_all
  then show ?thesis unfolding two_channels_def
    by (rule rx_inv_put_new) (auto split: if_splits)
qed

theorem epoll_tracks_channels_witness:
  "\<exists>s'. fold_res (\<lambda>(c, p). run_channel_op c p)
      [(OpEnableRead, 1), (OpEnableWrite, 2), (OpDisableAll, 1), (OpRemove, 2)] two_channels = Inr s' \<and>
    ctl_legal (rx_trace s')"
proof -
  let ?ops = "[(OpEnableRead, 1), (OpEnableWrite, 2), (OpDisableAll, 1), (OpRemove, 2)]"
  have "rx_chans two_channels p \<noteq> None" if "p \<in> snd ` set ?ops" for p
    using that by (auto simp: two_channels_def)
  from epoll_tracks_channels[OF two_channels_inv this] show ?thesis by blast
qed

text \<open>C30. \<open>select\<close>: for any batch of events the kernel can deliver, no debug assertion fails, the
  active list holds the channels in the order reported, each with exactly the events returned for
  it, no other channel changes, and nothing is told to the kernel.\<close>

theorem select_delivers:
  assumes "rx_inv s" and "deliverable s evs"
  shows "\<exists>s'. Epoll_select (Some evs) s = Inr (s', map fst evs) \<and> rx_inv s' \<and>
    rx_trace s' = rx_trace s \<and>
    (\<forall>p. p \<notin> fst ` set evs \<longrightarrow> rx_chans s' p = rx_chans s p) \<and>
    (\<forall>(p, e) \<in> set evs. \<exists>c. rx_chans s p = Some c \<and> rx_chans s' p = Some (c\<lparr>ch_returned := e\<rparr>))"
  using Epoll_select_ok[OF assms] by blast

theorem select_delivers_witness:
  "\<exists>s s'. enableRead 1 two_channels = Inr s \<and> Epoll_select (Some [(1, 5)]) s = Inr (s', [1])"
proof -
  have c: "rx_chans two_channels 1 = Some (Channel_make 7)" by (simp add: two_channels_def)
  let ?s = "request_result 1 (Channel_make 7) (ch_requested (Channel_make 7) OR kReadEvent) two_channels"
  have e: "enableRead 1 two_channels = Inr ?s"
    unfolding enableRead_def by (rule rx_request_law(1)[OF two_channels_inv c])
  have "interest (rx_trace ?s) 7 = Some (kReadEvent, 1)"
    using rx_request_law(3)[OF two_channels_inv c]
    by (simp add: Channel_make_def)
  then have "deliverable ?s [(1, 5)]"
    by (auto simp: deliverable_def request_result_def two_channels_def)
  from select_delivers[OF rx_request_law(2)[OF two_channels_inv c] this] e show ?thesis by auto
qed

text \<open>C31. \<open>handleEvents\<close> runs exactly the registered callbacks the returned events ask for, in the
  order write, error, read, close, and the close callback only when the hang-up comes without
  readable input, provided the callbacks leave the channel alive with its handlers.\<close>

theorem handleEvents_order:
  assumes "same_handlers c p s"
    and "\<And>f t t'. same_handlers c p t \<Longrightarrow> run f t = Inr t' \<Longrightarrow> same_handlers c p t'"
  shows "Channel_handleEvents run p s = fold_res run (dispatch c) s"
  using assms by (rule handleEvents_dispatch)

theorem handleEvents_order_witness:
  "Channel_handleEvents (\<lambda>f t. Inr (sys_call (SysClose (case f of CbTcpWrite _ \<Rightarrow> 1 | _ \<Rightarrow> 2)) t)) 1
     (Channel_put 1 ((Channel_make 7)\<lparr>ch_returned := 5, ch_writeCb := Some (CbTcpWrite 9),
        ch_readCb := Some (CbTcpRead 9), ch_closeCb := Some (CbTcpClose 9)\<rparr>) Epoll_new) =
   Inr (sys_call (SysClose 2) (sys_call (SysClose 1)
     (Channel_put 1 ((Channel_make 7)\<lparr>ch_returned := 5, ch_writeCb := Some (CbTcpWrite 9),
        ch_readCb := Some (CbTcpRead 9), ch_closeCb := Some (CbTcpClose 9)\<rparr>) Epoll_new)))"
proof -
  let ?c = "(Channel_make 7)\<lparr>ch_returned := 5, ch_writeCb := Some (CbTcpWrite 9),
        ch_readCb := Some (CbTcpRead 9), ch_closeCb := Some (CbTcpClose 9)\<rparr>"
  let ?run = "\<lambda>f (t :: reactor). Inr (sys_call (SysClose (case f of CbTcpWrite _ \<Rightarrow> 1 | _ \<Rightarrow> 2)) t)"
  have "same_handlers ?c 1 (Channel_put 1 ?c Epoll_new)"
    by (simp add: same_handlers_def)
  moreover have "same_handlers ?c 1 t'" if "same_handlers ?c 1 t" "?run f t = Inr t'" for f t t'
    using that by (auto simp: same_handlers_def)
  ultimately have "Channel_handleEvents ?run 1 (Channel_put 1 ?c Epoll_new) =
      fold_res ?run (dispatch ?c) (Channel_put 1 ?c Epoll_new)"
    by (rule handleEvents_order)
  then show ?thesis
    by (simp add: dispatch_def wants_write_def wants_error_def wants_read_def wants_close_def
        event_consts opt_list_def)
qed

text \<open>Disabling a channel that is already disabled registers it again: \<open>disableAll\<close> on a
  channel in state \<open>NEW\<close> or \<open>DELETED\<close> issues \<open>EPOLL_CTL_ADD\<close> with an empty mask, so the kernel
  watches the descriptor again (and can report errors and hang-ups on it).\<close>

theorem disableAll_twice_registers:
  assumes "rx_inv s" and "rx_chans s p = Some c" and "ch_state c \<noteq> ADDED"
  shows "\<exists>s'. disableAll p s = Inr s' \<and> interest (rx_trace s') (ch_fd c) = Some (0, p)"
proof -
  have "next_state (ch_state c) 0 = ADDED" using assms(3) by (cases "ch_state c") simp_all
  then show ?thesis
    using rx_request_law(1)[OF assms(1,2), where f = "\<lambda>e. kNoneEvent"]
      rx_request_law(3)[OF assms(1,2), where e = 0]
    by (auto simp: disableAll_def kNoneEvent_def)
qed

theorem disableAll_twice_registers_witness:
  "\<exists>s'. disableAll 1 two_channels = Inr s' \<and> interest (rx_trace s') 7 = Some (0, 1)"
  using disableAll_twice_registers[OF two_channels_inv, of 1 "Channel_make 7"]
  by (simp add: two_channels_def Channel_make_def)

end
