(* ===== verification/Loops.thy ===== *)
theory Loops
  imports Reactor Times
begin

text \<open>
  \<open>src/stnl/EventLoop.h\<close> and \<open>EventLoop.cpp\<close>: the reactor loop, its queue of pending
  functions and the event descriptor that wakes it up. An \<open>EventLoop\<close> extends the
  state of its \<open>Epoll\<close>; whether the calling thread is the loop's own
  (\<open>isInLoopThread()\<close>) is an argument of the operations other threads may call. The
  last part interleaves the loop with other threads that queue functions.
\<close>

section \<open>State\<close>

text \<open>
  The \<open>std::function<void()>\<close> values the library hands to \<open>runInLoop\<close>,
  \<open>queueInLoop\<close> and the timers: a member function bound to its arguments.
  \<open>FnUser\<close> stands for a function of the application.
\<close>

datatype task =
    FnEstablish ptr
  | FnDestroy ptr
  | FnSend ptr "byte list"
  | FnShutdown ptr
  | FnForceClose ptr
  | FnSetCloseCallback ptr
  | FnInsertTimer ptr
  | FnCancelTimer "int \<times> ptr"
  | FnConnectorStart
  | FnConnectorStop
  | FnConnectorResetChannel
  | FnListen
  | FnRemoveConnection ptr
  | FnUser nat

record eventloop = reactor +
  el_looping :: bool
  el_running :: bool
  el_pending :: "task list"
  el_calling :: bool
  el_wakeupFd :: int
  el_wakeupChan :: ptr

section \<open>Operations\<close>

text \<open>A short \<open>read\<close> or \<open>write\<close> of the event descriptor is only logged.\<close>

definition wakeup :: "'z eventloop_scheme \<Rightarrow> 'z eventloop_scheme" where
  "wakeup s = sys_call (SysEventfdWrite (el_wakeupFd s)) s"

definition wakeupReadCallback :: "'z eventloop_scheme \<Rightarrow> 'z eventloop_scheme" where
  "wakeupReadCallback s = sys_call (SysEventfdRead (el_wakeupFd s)) s"

definition queue_push :: "task \<Rightarrow> 'z eventloop_scheme \<Rightarrow> 'z eventloop_scheme" where
  "queue_push f s = s\<lparr>el_pending := el_pending s @ [f]\<rparr>"

definition queueInLoop :: "bool \<Rightarrow> task \<Rightarrow> 'z eventloop_scheme \<Rightarrow> 'z eventloop_scheme" where
  "queueInLoop inLoop f s =
     (let s1 = queue_push f s in
      if \<not> inLoop \<or> el_calling s1 then wakeup s1 else s1)"

definition runInLoop :: "(task \<Rightarrow> 'z eventloop_scheme \<Rightarrow> 'z eventloop_scheme result) \<Rightarrow>
    bool \<Rightarrow> task option \<Rightarrow> 'z eventloop_scheme \<Rightarrow> 'z eventloop_scheme result" where
  "runInLoop exec inLoop func s =
     (case func of
        None \<Rightarrow> Inr s
      | Some f \<Rightarrow> if inLoop then exec f s else Inr (queueInLoop inLoop f s))"

definition assertInLoopThread :: "bool \<Rightarrow> 'a result \<Rightarrow> 'a result" where
  "assertInLoopThread inLoop m = check Aborted inLoop m"

definition doPendingFunctions :: "(task \<Rightarrow> 'z eventloop_scheme \<Rightarrow> 'z eventloop_scheme result) \<Rightarrow>
    'z eventloop_scheme \<Rightarrow> 'z eventloop_scheme result" where
  "doPendingFunctions exec s =
     (let s1 = s\<lparr>el_calling := True\<rparr>;
          functions = el_pending s1;
          s2 = s1\<lparr>el_pending := []\<rparr>
      in bindr (fold_res exec functions s2) (\<lambda>s3. Inr (s3\<lparr>el_calling := False\<rparr>)))"

definition EventLoop_quit :: "bool \<Rightarrow> 'z eventloop_scheme \<Rightarrow> 'z eventloop_scheme" where
  "EventLoop_quit inLoop s =
     (let s1 = s\<lparr>el_running := False\<rparr> in if \<not> inLoop then wakeup s1 else s1)"

definition loop_enter :: "'z eventloop_scheme \<Rightarrow> 'z eventloop_scheme result" where
  "loop_enter s =
     assert_c (\<not> el_looping s)
      (assert_c (\<not> el_running s) (Inr (s\<lparr>el_looping := True, el_running := True\<rparr>)))"

text \<open>
  One round of the \<open>while\<close> loop: the outcome of \<open>epoll_wait\<close> and the time it
  returned are inputs, \<open>hcb\<close> runs an event callback and \<open>exec\<close> a pending function.
\<close>

type_synonym wait_outcome = "(ptr \<times> events) list option \<times> timestamp"

definition loop_round ::
  "(timestamp \<Rightarrow> callback \<Rightarrow> 'z eventloop_scheme \<Rightarrow> 'z eventloop_scheme result) \<Rightarrow>
   (task \<Rightarrow> 'z eventloop_scheme \<Rightarrow> 'z eventloop_scheme result) \<Rightarrow>
   wait_outcome \<Rightarrow> 'z eventloop_scheme \<Rightarrow> 'z eventloop_scheme result" where
  "loop_round hcb exec outcome s =
     bindr (Epoll_select (fst outcome) s)
      (\<lambda>(s1, active).
         bindr (fold_res (Channel_handleEvents (hcb (snd outcome))) active s1)
          (doPendingFunctions exec))"

text \<open>
  The loop consumes the outcomes of its successive \<open>epoll_wait\<close> calls; it has returned
  when \<open>el_looping\<close> is false again, and is blocked in \<open>epoll_wait\<close> when they run out.
\<close>

fun loop_rounds ::
  "(timestamp \<Rightarrow> callback \<Rightarrow> 'z eventloop_scheme \<Rightarrow> 'z eventloop_scheme result) \<Rightarrow>
   (task \<Rightarrow> 'z eventloop_scheme \<Rightarrow> 'z eventloop_scheme result) \<Rightarrow>
   wait_outcome list \<Rightarrow> 'z eventloop_scheme \<Rightarrow> 'z eventloop_scheme result" where
  "loop_rounds hcb exec outs s =
     (if \<not> el_running s then Inr (s\<lparr>el_looping := False\<rparr>)
      else case outs of
             [] \<Rightarrow> Inr s
           | out # outs' \<Rightarrow> bindr (loop_round hcb exec out s) (loop_rounds hcb exec outs'))"

definition EventLoop_loop ::
  "(timestamp \<Rightarrow> callback \<Rightarrow> 'z eventloop_scheme \<Rightarrow> 'z eventloop_scheme result) \<Rightarrow>
   (task \<Rightarrow> 'z eventloop_scheme \<Rightarrow> 'z eventloop_scheme result) \<Rightarrow>
   wait_outcome list \<Rightarrow> 'z eventloop_scheme \<Rightarrow> 'z eventloop_scheme result" where
  "EventLoop_loop hcb exec outs s = bindr (loop_enter s) (loop_rounds hcb exec outs)"

declare loop_rounds.simps [simp del]

section \<open>Frames\<close>

lemma loop_updates [simp]:
  "el_pending (sys_call c s) = el_pending s" "el_running (sys_call c s) = el_running s"
  "el_looping (sys_call c s) = el_looping s" "el_calling (sys_call c s) = el_calling s"
  "el_wakeupFd (sys_call c s) = el_wakeupFd s" "el_wakeupChan (sys_call c s) = el_wakeupChan s"
  "eventloop.more (sys_call c s) = eventloop.more s"
  by (simp_all add: sys_call_def)

lemma queue_push_simps [simp]:
  "el_pending (queue_push f s) = el_pending s @ [f]" "rx_chans (queue_push f s) = rx_chans s"
  "rx_channelMap (queue_push f s) = rx_channelMap s" "rx_trace (queue_push f s) = rx_trace s"
  "el_running (queue_push f s) = el_running s" "el_looping (queue_push f s) = el_looping s"
  "el_calling (queue_push f s) = el_calling s" "el_wakeupFd (queue_push f s) = el_wakeupFd s"
  "eventloop.more (queue_push f s) = eventloop.more s"
  by (simp_all add: queue_push_def)

lemma wakeup_simps [simp]:
  "el_pending (wakeup s) = el_pending s" "rx_chans (wakeup s) = rx_chans s"
  "rx_channelMap (wakeup s) = rx_channelMap s"
  "rx_trace (wakeup s) = rx_trace s @ [SysEventfdWrite (el_wakeupFd s)]"
  "el_running (wakeup s) = el_running s" "el_looping (wakeup s) = el_looping s"
  "el_calling (wakeup s) = el_calling s" "el_wakeupFd (wakeup s) = el_wakeupFd s"
  "eventloop.more (wakeup s) = eventloop.more s"
  by (simp_all add: wakeup_def)

lemma queueInLoop_simps [simp]:
  "el_pending (queueInLoop b f s) = el_pending s @ [f]" "rx_chans (queueInLoop b f s) = rx_chans s"
  "rx_channelMap (queueInLoop b f s) = rx_channelMap s"
  "rx_trace (queueInLoop b f s) =
     rx_trace s @ (if \<not> b \<or> el_calling s then [SysEventfdWrite (el_wakeupFd s)] else [])"
  "el_running (queueInLoop b f s) = el_running s" "el_looping (queueInLoop b f s) = el_looping s"
  "el_calling (queueInLoop b f s) = el_calling s" "el_wakeupFd (queueInLoop b f s) = el_wakeupFd s"
  "eventloop.more (queueInLoop b f s) = eventloop.more s"
  by (simp_all add: queueInLoop_def)

lemma rx_inv_cong:
  "rx_inv s \<Longrightarrow> rx_chans t = rx_chans s \<Longrightarrow> rx_channelMap t = rx_channelMap s \<Longrightarrow>
   rx_trace t = rx_trace s \<Longrightarrow> rx_inv t"
  using expected_cong[of t s] by (simp add: rx_inv_def rx_wf_def)

lemma rx_inv_sys_call:
  assumes "rx_inv s" and "\<And>w. ctl_step w c = w" and "\<And>w. ctl_ok w c"
  shows "rx_inv (sys_call c s)"
  using rx_wf_sys_call[OF rx_inv_wf[OF assms(1)] assms(2,3)] assms(1) by (simp add: rx_inv_def)

lemma doPending_eq: "el_pending s = fs \<Longrightarrow> doPendingFunctions exec s =
    bindr (fold_res exec fs (s\<lparr>el_calling := True, el_pending := []\<rparr>)) (\<lambda>s3. Inr (s3\<lparr>el_calling := False\<rparr>))"
  by (simp add: doPendingFunctions_def)

lemma rx_inv_queueInLoop [simp]: "rx_inv s \<Longrightarrow> rx_inv (queueInLoop b f s)"
proof -
  assume "rx_inv s"
  then have "rx_inv (queue_push f s)" by (rule rx_inv_cong) simp_all
  then show ?thesis
    by (simp add: queueInLoop_def wakeup_def rx_inv_sys_call)
qed

section \<open>Wakeups under interleaving\<close>

text \<open>
  \<open>eventfd(2)\<close> with \<open>EFD_SEMAPHORE\<close>: the descriptor holds a count; a write of 1 adds
  one, a read takes one off (or fails at zero), and the descriptor is readable when the
  count is positive.
\<close>

fun eventfd_step :: "int \<Rightarrow> nat \<Rightarrow> syscall \<Rightarrow> nat" where
  "eventfd_step fd n (SysEventfdWrite g) = (if g = fd then Suc n else n)"
| "eventfd_step fd n (SysEventfdRead g) = (if g = fd then n - 1 else n)"
| "eventfd_step fd n _ = n"

definition eventfd_count :: "int \<Rightarrow> syscall list \<Rightarrow> nat" where
  "eventfd_count fd tr = foldl (eventfd_step fd) 0 tr"

lemma eventfd_count_snoc [simp]: "eventfd_count fd (tr @ [c]) = eventfd_step fd (eventfd_count fd tr) c"
  by (simp add: eventfd_count_def)

lemma eventfd_count_Nil [simp]: "eventfd_count fd [] = 0"
  by (simp add: eventfd_count_def)

text \<open>
  Where the loop thread is: not yet in \<open>loop()\<close>, in \<open>epoll_wait\<close>, running event callbacks, or
  inside \<open>doPendingFunctions\<close> with some functions of the swapped-out batch still to run.
  \<open>w_owing\<close> counts the other threads that have pushed a function (or stored the quit
  flag) and not yet written the descriptor; the histories record what was queued and
  what has been run. \<open>w_early\<close> counts the pending functions that the loop's own thread queued
  before \<open>loop()\<close>, where \<open>queueInLoop\<close> sees its own thread and does not wake the loop.
\<close>

datatype loop_pc = BeforeLoop | InSelect | InHandlers | InPending "task list"

record wakestate =
  w_loop :: eventloop
  w_pc :: loop_pc
  w_owing :: nat
  w_queued :: "task list"
  w_executed :: "task list"
  w_early :: nat

definition w_readable :: "wakestate \<Rightarrow> bool" where
  "w_readable w \<longleftrightarrow> 0 < eventfd_count (el_wakeupFd (w_loop w)) (rx_trace (w_loop w))"

definition wake_start :: "wakestate \<Rightarrow> bool" where
  "wake_start w \<longleftrightarrow> w_pc w = BeforeLoop \<and> el_pending (w_loop w) = [] \<and> \<not> el_calling (w_loop w) \<and>
     w_owing w = 0 \<and> w_queued w = [] \<and> w_executed w = [] \<and> w_early w = 0"

inductive wake_step :: "wakestate \<Rightarrow> wakestate \<Rightarrow> bool" where
  other_pushes: "wake_step w (w\<lparr>w_loop := queue_push f (w_loop w), w_owing := Suc (w_owing w),
      w_queued := w_queued w @ [f]\<rparr>)"
| other_wakes: "0 < w_owing w \<Longrightarrow>
    wake_step w (w\<lparr>w_loop := wakeup (w_loop w), w_owing := w_owing w - 1\<rparr>)"
| queues_early: "w_pc w = BeforeLoop \<Longrightarrow>
    wake_step w (w\<lparr>w_loop := queueInLoop True f (w_loop w), w_queued := w_queued w @ [f], w_early := Suc (w_early w)\<rparr>)"
| enters: "w_pc w = BeforeLoop \<Longrightarrow> loop_enter (w_loop w) = Inr l \<Longrightarrow> wake_step w (w\<lparr>w_loop := l, w_pc := InSelect\<rparr>)"
| select_returns: "w_pc w = InSelect \<Longrightarrow> wake_step w (w\<lparr>w_pc := InHandlers\<rparr>)"
| handles_wakeup: "w_pc w = InHandlers \<Longrightarrow> w_readable w \<Longrightarrow>
    wake_step w (w\<lparr>w_loop := wakeupReadCallback (w_loop w)\<rparr>)"
| loop_queues: "w_pc w \<noteq> BeforeLoop \<Longrightarrow> w_pc w \<noteq> InSelect \<Longrightarrow>
    wake_step w (w\<lparr>w_loop := queueInLoop True f (w_loop w), w_queued := w_queued w @ [f]\<rparr>)"
| swaps: "w_pc w = InHandlers \<Longrightarrow>
    wake_step w (w\<lparr>w_loop := (w_loop w)\<lparr>el_calling := True, el_pending := []\<rparr>,
      w_pc := InPending (el_pending (w_loop w)), w_early := 0\<rparr>)"
| runs_one: "w_pc w = InPending (f # fs) \<Longrightarrow>
    wake_step w (w\<lparr>w_pc := InPending fs, w_executed := w_executed w @ [f]\<rparr>)"
| finishes: "w_pc w = InPending [] \<Longrightarrow>
    wake_step w (w\<lparr>w_loop := (w_loop w)\<lparr>el_calling := False\<rparr>, w_pc := InSelect\<rparr>)"

fun pc_batch :: "loop_pc \<Rightarrow> task list" where
  "pc_batch (InPending fs) = fs"
| "pc_batch _ = []"

fun pc_calling :: "loop_pc \<Rightarrow> bool" where
  "pc_calling (InPending fs) = True"
| "pc_calling _ = False"

definition wake_inv :: "wakestate \<Rightarrow> bool" where
  "wake_inv w \<longleftrightarrow>
     w_queued w = w_executed w @ pc_batch (w_pc w) @ el_pending (w_loop w) \<and>
     (el_calling (w_loop w) \<longleftrightarrow> pc_calling (w_pc w)) \<and>
     w_early w \<le> length (el_pending (w_loop w)) \<and>
     (w_pc w \<noteq> InHandlers \<longrightarrow> w_early w < length (el_pending (w_loop w)) \<longrightarrow> w_readable w \<or> 0 < w_owing w)"

lemma wake_step_inv: "wake_step w w' \<Longrightarrow> wake_inv w \<Longrightarrow> wake_inv w'"
proof (induction rule: wake_step.induct)
  case (loop_queues w f)
  then show ?case by (cases "w_pc w") (auto simp: wake_inv_def w_readable_def)
next
  case (enters w l)
  then show ?case by (auto simp: wake_inv_def w_readable_def loop_enter_def check_def split: if_splits)
qed (auto simp: wake_inv_def w_readable_def wakeupReadCallback_def)

interpretation wake: invariant_system wake_start wake_step wake_inv
proof
  show "wake_inv w" if "wake_start w" for w
    using that by (auto simp: wake_start_def wake_inv_def)
  show "wake_inv w'" if "wake_step w w'" "wake_inv w" for w w'
    using that by (rule wake_step_inv)
qed

section \<open>Properties\<close>

definition idle_loop :: eventloop where
  "idle_loop = \<lparr>rx_chans = Map.empty, rx_channelMap = Map.empty, rx_eventsSize = 16, rx_trace = [],
     el_looping = False, el_running = False, el_pending = [], el_calling = False,
     el_wakeupFd = 5, el_wakeupChan = 1\<rparr>"

definition idle_wake :: wakestate where
  "idle_wake = \<lparr>w_loop = idle_loop, w_pc = BeforeLoop, w_owing = 0, w_queued = [], w_executed = [], w_early = 0\<rparr>"

lemma idle_reach: "reach wake_start wake_step idle_wake"
  by (rule reach_start) (simp add: wake_start_def idle_wake_def idle_loop_def)

text \<open>The run in which the loop's own thread queues a function and then enters the loop.\<close>

definition early_wake :: "task \<Rightarrow> wakestate" where
  "early_wake f = idle_wake\<lparr>w_loop := queueInLoop True f (w_loop idle_wake), w_queued := [f], w_early := 1\<rparr>"

definition entered :: "wakestate \<Rightarrow> wakestate" where
  "entered w = w\<lparr>w_loop := (w_loop w)\<lparr>el_looping := True, el_running := True\<rparr>, w_pc := InSelect\<rparr>"

lemma enters_loop:
  assumes "reach wake_start wake_step w" and "w_pc w = BeforeLoop" and "\<not> el_looping (w_loop w)" and "\<not> el_running (w_loop w)"
  shows "reach wake_start wake_step (entered w)"
  unfolding entered_def
  by (rule reach_step[OF assms(1)], rule wake_step.enters[OF assms(2)]) (use assms(3,4) in \<open>simp add: loop_enter_def\<close>)

lemma early_reach: "reach wake_start wake_step (early_wake f)"
  using reach_step[OF idle_reach wake_step.queues_early[of idle_wake f]] by (simp add: early_wake_def idle_wake_def)

text \<open>C12. A wakeup is lost only before \<open>loop()\<close>: in every interleaving of the loop's thread with any number of
  threads that queue functions, from before \<open>loop()\<close> on, whenever the loop is about to block in
  \<open>epoll_wait\<close> with a function pending other than those its own thread queued before \<open>loop()\<close>, its
  event descriptor is readable or a thread that pushed is about to write it. The exception is
  real: a function the loop's own thread queues before \<open>loop()\<close> is left waiting, with the
  descriptor not readable and nobody about to write it.\<close>

theorem no_lost_wakeup:
  shows "(\<forall>w. reach wake_start wake_step w \<and> w_pc w = InSelect \<and> w_early w < length (el_pending (w_loop w)) \<longrightarrow>
      w_readable w \<or> 0 < w_owing w) \<and>
    (\<forall>f. \<exists>w. reach wake_start wake_step w \<and> w_pc w = InSelect \<and> el_pending (w_loop w) = [f] \<and>
      \<not> w_readable w \<and> w_owing w = 0)"
proof (intro conjI allI)
  fix w
  show "reach wake_start wake_step w \<and> w_pc w = InSelect \<and> w_early w < length (el_pending (w_loop w)) \<longrightarrow>
      w_readable w \<or> 0 < w_owing w"
    using wake.reach_inv[of w] by (auto simp: wake_inv_def)
  fix f
  have "reach wake_start wake_step (entered (early_wake f))"
    by (rule enters_loop[OF early_reach]) (simp_all add: early_wake_def idle_wake_def idle_loop_def)
  moreover have "w_pc (entered (early_wake f)) = InSelect" "el_pending (w_loop (entered (early_wake f))) = [f]"
    "\<not> w_readable (entered (early_wake f))" "w_owing (entered (early_wake f)) = 0"
    by (simp_all add: entered_def early_wake_def idle_wake_def idle_loop_def w_readable_def)
  ultimately show "\<exists>w. reach wake_start wake_step w \<and> w_pc w = InSelect \<and> el_pending (w_loop w) = [f] \<and>
      \<not> w_readable w \<and> w_owing w = 0" by blast
qed

theorem no_lost_wakeup_witness:
  "\<exists>w. reach wake_start wake_step w \<and> w_pc w = InSelect \<and> w_early w = 1 \<and> el_pending (w_loop w) = [FnUser 1, FnUser 2] \<and>
    (w_readable w \<or> 0 < w_owing w)"
proof -
  let ?v = "entered (early_wake (FnUser 1))"
  let ?w = "?v\<lparr>w_loop := queue_push (FnUser 2) (w_loop ?v), w_owing := Suc (w_owing ?v), w_queued := w_queued ?v @ [FnUser 2]\<rparr>"
  have "reach wake_start wake_step ?v"
    by (rule enters_loop[OF early_reach]) (simp_all add: early_wake_def idle_wake_def idle_loop_def)
  then have r: "reach wake_start wake_step ?w" by (rule reach_step) (rule wake_step.other_pushes)
  have f: "w_pc ?w = InSelect" "w_early ?w = 1" "el_pending (w_loop ?w) = [FnUser 1, FnUser 2]"
    by (simp_all add: entered_def early_wake_def idle_wake_def idle_loop_def)
  have "w_early ?w < length (el_pending (w_loop ?w))" unfolding f by simp
  with no_lost_wakeup r f show ?thesis by blast
qed

text \<open>Functions run in the order they were queued, each exactly once: at every moment the
  sequence queued by all threads is the sequence already run, followed by the rest of the batch
  being run, followed by what is pending.\<close>

theorem pending_functions_fifo:
  assumes "reach wake_start wake_step w"
  shows "w_queued w = w_executed w @ pc_batch (w_pc w) @ el_pending (w_loop w)"
  using wake.reach_inv[OF assms] by (simp add: wake_inv_def)

theorem pending_functions_fifo_witness:
  "\<exists>w. reach wake_start wake_step w \<and> w_queued w = [FnUser 1] \<and>
    w_queued w = w_executed w @ pc_batch (w_pc w) @ el_pending (w_loop w)"
proof -
  let ?w = "idle_wake\<lparr>w_loop := queue_push (FnUser 1) (w_loop idle_wake),
      w_owing := Suc (w_owing idle_wake), w_queued := w_queued idle_wake @ [FnUser 1]\<rparr>"
  have r: "reach wake_start wake_step ?w"
    by (rule reach_step[OF idle_reach]) (rule wake_step.other_pushes)
  moreover have "w_queued ?w = [FnUser 1]" by (simp add: idle_wake_def)
  ultimately show ?thesis using pending_functions_fifo[OF r] by blast
qed

text \<open>A \<open>quit\<close> that arrives before \<open>loop\<close> is entered is lost: \<open>loop\<close> sets the running flag
  again, passes its assertions, and goes into its rounds as if \<open>quit\<close> had not been called.\<close>

theorem quit_before_loop_is_lost:
  assumes "\<not> el_looping s" and "\<not> el_running s"
  shows "\<exists>s'. loop_enter (EventLoop_quit inLoop s) = Inr s' \<and> el_running s' \<and>
    loop_rounds hcb exec [] s' = Inr s'"
  using assms by (simp add: loop_enter_def EventLoop_quit_def loop_rounds.simps)

theorem quit_before_loop_is_lost_witness:
  "\<exists>s'. loop_enter (EventLoop_quit False (idle_loop\<lparr>el_looping := False, el_running := False\<rparr>)) = Inr s' \<and>
    el_running s'"
  using quit_before_loop_is_lost[of "idle_loop\<lparr>el_looping := False, el_running := False\<rparr>" False]
  by auto

end
