(* ===== verification/Timers.thy ===== *)
theory Timers
  imports Loops "HOL-Library.Multiset"
begin

text \<open>
  \<open>src/stnl/Timer.h\<close> and \<open>Timer.cpp\<close>, and the part of \<open>EventLoop.cpp\<close> that owns the
  timer queue (construction, destruction, \<open>runAt\<close>, \<open>runAfter\<close>, \<open>runEvery\<close>,
  \<open>cancelTimer\<close>). \<open>Timer\<close> objects live on a heap; the \<open>multimap\<close> of the queue is its
  list of pairs in iteration order. The address a \<open>new\<close> returns is an argument; an
  address in use is how a failed allocation is expressed.
\<close>

section \<open>State\<close>

type_synonym timer_id = "int \<times> ptr"

record timer =
  tm_callback :: "task option"
  tm_expiration :: timestamp
  tm_interval :: seconds
  tm_repeat :: bool
  tm_id :: timer_id

record tloop = eventloop +
  tq_timerfd :: int
  tq_chan :: ptr
  tq_heap :: "ptr \<Rightarrow> timer option"
  tq_timers :: "(timestamp \<times> ptr) list"
  tq_active :: "timer_id set"
  tq_canceling :: "ptr set"
  tq_callingExpired :: bool
  tq_count :: int

section \<open>Timer\<close>

definition Timer_new :: "ptr \<Rightarrow> task option \<Rightarrow> timestamp \<Rightarrow> seconds \<Rightarrow>
    'z tloop_scheme \<Rightarrow> (timer_id \<times> 'z tloop_scheme) result" where
  "Timer_new p cb when interval s =
     check BadAlloc (tq_heap s p = None)
      (let n = tq_count s + 1;
           tm = \<lparr>tm_callback = cb, tm_expiration = when, tm_interval = interval,
                 tm_repeat = (interval > 0), tm_id = (n, p)\<rparr>
       in Inr ((n, p), s\<lparr>tq_count := n, tq_heap := (tq_heap s)(p \<mapsto> tm)\<rparr>))"

definition Timer_delete :: "ptr \<Rightarrow> 'z tloop_scheme \<Rightarrow> 'z tloop_scheme result" where
  "Timer_delete p s =
     bindr (deref (tq_heap s) p)
      (\<lambda>_. Inr (s\<lparr>tq_count := tq_count s - 1, tq_heap := (tq_heap s)(p := None)\<rparr>))"

definition Timer_restart :: "(rat \<Rightarrow> rat) \<Rightarrow> timestamp \<Rightarrow> ptr \<Rightarrow> 'z tloop_scheme \<Rightarrow> 'z tloop_scheme result" where
  "Timer_restart rnd when p s =
     bindr (deref (tq_heap s) p)
      (\<lambda>tm. bindr (if tm_repeat tm then addTime rnd when (tm_interval tm) else Inr ts_invalid)
        (\<lambda>e. Inr (s\<lparr>tq_heap := (tq_heap s)(p \<mapsto> tm\<lparr>tm_expiration := e\<rparr>)\<rparr>)))"

definition Timer_run :: "(task \<Rightarrow> 'z tloop_scheme \<Rightarrow> 'z tloop_scheme result) \<Rightarrow> ptr \<Rightarrow>
    'z tloop_scheme \<Rightarrow> 'z tloop_scheme result" where
  "Timer_run run p s =
     bindr (deref (tq_heap s) p)
      (\<lambda>tm. case tm_callback tm of None \<Rightarrow> Inr s | Some f \<Rightarrow> run f s)"

section \<open>TimerQueue\<close>

text \<open>\<open>multimap::emplace\<close> puts a pair behind those with an equal key.\<close>

definition mm_emplace :: "timestamp \<Rightarrow> ptr \<Rightarrow> (timestamp \<times> ptr) list \<Rightarrow> (timestamp \<times> ptr) list" where
  "mm_emplace t p m = takeWhile (\<lambda>x. fst x \<le> t) m @ (t, p) # dropWhile (\<lambda>x. fst x \<le> t) m"

definition sizes_agree :: "'z tloop_scheme \<Rightarrow> bool" where
  "sizes_agree s \<longleftrightarrow> length (tq_timers s) = card (tq_active s)"

definition resetTimerfd :: "timestamp \<Rightarrow> timestamp \<Rightarrow> 'z tloop_scheme \<Rightarrow> 'z tloop_scheme result" where
  "resetTimerfd now expiration s =
     bindr (intervalFromNow now expiration)
      (\<lambda>new_val. Inr (sys_call (SysTimerfdSettime (tq_timerfd s) now new_val) s))"

definition tq_insert :: "bool \<Rightarrow> ptr \<Rightarrow> 'z tloop_scheme \<Rightarrow> (bool \<times> 'z tloop_scheme) result" where
  "tq_insert inLoop p s =
     assertInLoopThread inLoop
      (assert_c (sizes_agree s)
       (bindr (deref (tq_heap s) p)
        (\<lambda>tm. let expiration = tm_expiration tm;
                  timerId = tm_id tm;
                  earliestTimeout = (tq_timers s = [] \<or> expiration < fst (hd (tq_timers s)));
                  s1 = s\<lparr>tq_timers := mm_emplace expiration p (tq_timers s)\<rparr>
              in assert_c (timerId \<notin> tq_active s1)
                  (let s2 = s1\<lparr>tq_active := insert timerId (tq_active s1)\<rparr> in
                   assert_c (sizes_agree s2) (Inr (earliestTimeout, s2))))))"

definition insertInLoop :: "bool \<Rightarrow> timestamp \<Rightarrow> ptr \<Rightarrow> 'z tloop_scheme \<Rightarrow> 'z tloop_scheme result" where
  "insertInLoop inLoop now p s =
     assertInLoopThread inLoop
      (bindr (deref (tq_heap s) p)
        (\<lambda>tm. let when = tm_expiration tm in
          bindr (tq_insert inLoop p s)
           (\<lambda>(earliestTimeout, s1).
              if earliestTimeout then resetTimerfd now when s1 else Inr s1)))"

definition TimerQueue_insert :: "bool \<Rightarrow> timestamp \<Rightarrow> ptr \<Rightarrow> task option \<Rightarrow> timestamp \<Rightarrow> seconds \<Rightarrow>
    'z tloop_scheme \<Rightarrow> (timer_id \<times> 'z tloop_scheme) result" where
  "TimerQueue_insert inLoop now p cb when interval s =
     bindr (Timer_new p cb when interval s)
      (\<lambda>(tid, s1).
         bindr (runInLoop (\<lambda>_. insertInLoop inLoop now p) inLoop (Some (FnInsertTimer p)) s1)
          (\<lambda>s2. Inr (tid, s2)))"

definition cancelInLoop :: "bool \<Rightarrow> timer_id \<Rightarrow> 'z tloop_scheme \<Rightarrow> 'z tloop_scheme result" where
  "cancelInLoop inLoop timerId s =
     assertInLoopThread inLoop
      (assert_c (sizes_agree s)
        (bindr
          (if timerId \<in> tq_active s
           then bindr (deref (tq_heap s) (snd timerId))
                 (\<lambda>tm. let e = (tm_expiration tm, snd timerId) in
                   bindr (if e \<in> set (tq_timers s)
                          then Timer_delete (snd timerId) (s\<lparr>tq_timers := remove1 e (tq_timers s)\<rparr>)
                          else Inr s)
                    (\<lambda>s1. Inr (s1\<lparr>tq_active := tq_active s1 - {timerId}\<rparr>)))
           else if tq_callingExpired s
           then Inr (s\<lparr>tq_canceling := insert (snd timerId) (tq_canceling s)\<rparr>)
           else Inr s)
          (\<lambda>s2. assert_c (sizes_agree s2) (Inr s2))))"

definition TimerQueue_cancel :: "bool \<Rightarrow> timer_id \<Rightarrow> 'z tloop_scheme \<Rightarrow> 'z tloop_scheme result" where
  "TimerQueue_cancel inLoop timerId s =
     runInLoop (\<lambda>_. cancelInLoop inLoop timerId) inLoop (Some (FnCancelTimer timerId)) s"

definition erase_active :: "ptr \<Rightarrow> 'z tloop_scheme \<Rightarrow> 'z tloop_scheme result" where
  "erase_active p s =
     bindr (deref (tq_heap s) p) (\<lambda>tm. Inr (s\<lparr>tq_active := tq_active s - {tm_id tm}\<rparr>))"

definition getAllExpirationTimer :: "timestamp \<Rightarrow> 'z tloop_scheme \<Rightarrow> (ptr list \<times> 'z tloop_scheme) result" where
  "getAllExpirationTimer when s =
     (let expired = takeWhile (\<lambda>x. fst x \<le> when) (tq_timers s);
          rest = dropWhile (\<lambda>x. fst x \<le> when) (tq_timers s)
      in assert_c (rest = [] \<or> when < fst (hd rest))
          (bindr (fold_res erase_active (map snd expired) (s\<lparr>tq_timers := rest\<rparr>))
            (\<lambda>s1. assert_c (sizes_agree s1) (Inr (map snd expired, s1)))))"

text \<open>
  The loop of \<open>resetExpirationTimers\<close> carries the timers that stay in the vector, which
  are destroyed with it when \<open>timerReadingCallback\<close> returns.
\<close>

definition reset_one :: "(rat \<Rightarrow> rat) \<Rightarrow> timestamp \<Rightarrow> ptr \<Rightarrow> 'z tloop_scheme \<times> ptr list \<Rightarrow>
    ('z tloop_scheme \<times> ptr list) result" where
  "reset_one rnd when p st =
     (case st of (s, left) \<Rightarrow>
       bindr (deref (tq_heap s) p)
        (\<lambda>tm. if tm_repeat tm \<and> p \<notin> tq_canceling s
              then bindr (Timer_restart rnd when p s)
                    (\<lambda>s1. bindr (tq_insert True p s1) (\<lambda>(_, s2). Inr (s2, left)))
              else Inr (s, left @ [p])))"

definition resetExpirationTimers :: "(rat \<Rightarrow> rat) \<Rightarrow> timestamp \<Rightarrow> ptr list \<Rightarrow> timestamp \<Rightarrow>
    'z tloop_scheme \<Rightarrow> ('z tloop_scheme \<times> ptr list) result" where
  "resetExpirationTimers rnd now expirationTimers when s =
     bindr (fold_res (reset_one rnd when) expirationTimers (s, []))
      (\<lambda>(s1, left).
         bindr (case tq_timers s1 of [] \<Rightarrow> Inr ts_invalid
                | (_, p) # _ \<Rightarrow> bindr (deref (tq_heap s1) p) (\<lambda>tm. Inr (tm_expiration tm)))
          (\<lambda>nextExpiration.
             if ts_valid nextExpiration
             then bindr (resetTimerfd now nextExpiration s1) (\<lambda>s2. Inr (s2, left))
             else Inr (s1, left)))"

definition timerReadingCallback :: "(rat \<Rightarrow> rat) \<Rightarrow> bool \<Rightarrow> timestamp \<Rightarrow> timestamp \<Rightarrow>
    (task \<Rightarrow> 'z tloop_scheme \<Rightarrow> 'z tloop_scheme result) \<Rightarrow>
    'z tloop_scheme \<Rightarrow> 'z tloop_scheme result" where
  "timerReadingCallback rnd inLoop now_time now_reset run s =
     assertInLoopThread inLoop
      (bindr (getAllExpirationTimer now_time (sys_call (SysTimerfdRead (tq_timerfd s)) s))
        (\<lambda>(expirationTimers, s1).
           bindr (fold_res (Timer_run run) expirationTimers
                   (s1\<lparr>tq_callingExpired := True, tq_canceling := {}\<rparr>))
            (\<lambda>s2. bindr (resetExpirationTimers rnd now_reset expirationTimers now_time
                           (s2\<lparr>tq_callingExpired := False\<rparr>))
              (\<lambda>(s3, left). fold_res Timer_delete left s3))))"

section \<open>Construction and destruction of the loop with its queue\<close>

definition TimerQueue_init :: "int \<Rightarrow> ptr \<Rightarrow> 'z tloop_scheme \<Rightarrow> 'z tloop_scheme result" where
  "TimerQueue_init timerfd chan s =
     enableRead chan
      (Channel_put chan ((Channel_make timerfd)\<lparr>ch_readCb := Some CbTimerRead\<rparr>)
        (s\<lparr>tq_timerfd := timerfd, tq_chan := chan, tq_timers := [], tq_active := {},
           tq_canceling := {}, tq_callingExpired := False\<rparr>))"

definition TimerQueue_destroy :: "'z tloop_scheme \<Rightarrow> 'z tloop_scheme result" where
  "TimerQueue_destroy s =
     bindr (disableAll (tq_chan s) s)
      (\<lambda>s1. bindr (Channel_remove (tq_chan s) s1)
        (\<lambda>s2. bindr (fold_res Timer_delete (map snd (tq_timers s2))
                       (sys_call (SysClose (tq_timerfd s)) (s2\<lparr>tq_timers := []\<rparr>)))
          (\<lambda>s3. Inr (Channel_destroy (tq_chan s) s3))))"

text \<open>
  The state before the constructor body: members initialised in declaration order, so
  the timer queue comes before the wakeup channel. A second loop in one thread is a
  \<open>LOG_FATAL\<close>.
\<close>

definition raw_loop :: "(ptr \<Rightarrow> timer option) \<Rightarrow> int \<Rightarrow> tloop" where
  "raw_loop heap timers_alive =
     \<lparr>rx_chans = Map.empty, rx_channelMap = Map.empty, rx_eventsSize = InitEventVectorSize,
      rx_trace = [], el_looping = False, el_running = False, el_pending = [], el_calling = False,
      el_wakeupFd = -1, el_wakeupChan = 0, tq_timerfd = -1, tq_chan = 0, tq_heap = heap,
      tq_timers = [], tq_active = {}, tq_canceling = {}, tq_callingExpired = False,
      tq_count = timers_alive\<rparr>"

definition EventLoop_new :: "bool \<Rightarrow> int \<Rightarrow> ptr \<Rightarrow> int \<Rightarrow> ptr \<Rightarrow> tloop \<Rightarrow> tloop result" where
  "EventLoop_new thread_has_loop timerfd tchan wakeupfd wchan s0 =
     bindr (TimerQueue_init timerfd tchan s0)
      (\<lambda>s1. check Aborted (\<not> thread_has_loop)
        (enableRead wchan
          (Channel_put wchan ((Channel_make wakeupfd)\<lparr>ch_readCb := Some CbWakeupRead\<rparr>)
            (s1\<lparr>el_wakeupFd := wakeupfd, el_wakeupChan := wchan\<rparr>))))"

definition EventLoop_destroy :: "'z tloop_scheme \<Rightarrow> 'z tloop_scheme result" where
  "EventLoop_destroy s =
     bindr (disableAll (el_wakeupChan s) s)
      (\<lambda>s1. bindr (Channel_remove (el_wakeupChan s) s1)
        (\<lambda>s2. TimerQueue_destroy
           (Channel_destroy (el_wakeupChan s) (sys_call (SysClose (el_wakeupFd s)) s2))))"

section \<open>Timers through the loop\<close>

definition runAt :: "bool \<Rightarrow> timestamp \<Rightarrow> ptr \<Rightarrow> timestamp \<Rightarrow> task option \<Rightarrow> 'z tloop_scheme \<Rightarrow>
    (timer_id \<times> 'z tloop_scheme) result" where
  "runAt inLoop now p time cb s = TimerQueue_insert inLoop now p cb time 0 s"

definition runAfter :: "(rat \<Rightarrow> rat) \<Rightarrow> bool \<Rightarrow> timestamp \<Rightarrow> ptr \<Rightarrow> seconds \<Rightarrow> task option \<Rightarrow>
    'z tloop_scheme \<Rightarrow> (timer_id \<times> 'z tloop_scheme) result" where
  "runAfter rnd inLoop now p delay cb s =
     bindr (addTime rnd now delay) (\<lambda>time. runAt inLoop now p time cb s)"

definition runEvery :: "(rat \<Rightarrow> rat) \<Rightarrow> bool \<Rightarrow> timestamp \<Rightarrow> ptr \<Rightarrow> seconds \<Rightarrow> task option \<Rightarrow>
    'z tloop_scheme \<Rightarrow> (timer_id \<times> 'z tloop_scheme) result" where
  "runEvery rnd inLoop now p interval cb s =
     bindr (addTime rnd now interval)
      (\<lambda>time. TimerQueue_insert inLoop now p cb time interval s)"

definition cancelTimer :: "bool \<Rightarrow> timer_id \<Rightarrow> 'z tloop_scheme \<Rightarrow> 'z tloop_scheme result" where
  "cancelTimer inLoop timerId s = TimerQueue_cancel inLoop timerId s"

section \<open>The multimap\<close>

lemma mm_emplace_perm: "mset (mm_emplace t p m) = add_mset (t, p) (mset m)"
proof -
  have "mset m = mset (takeWhile (\<lambda>x. fst x \<le> t) m) + mset (dropWhile (\<lambda>x. fst x \<le> t) m)"
    by (metis mset_append takeWhile_dropWhile_id)
  then show ?thesis by (simp add: mm_emplace_def)
qed

lemma set_mm_emplace [simp]: "set (mm_emplace t p m) = insert (t, p) (set m)"
  using arg_cong[OF mm_emplace_perm, of set_mset] by simp

lemma mm_emplace_not_Nil [simp]: "mm_emplace t p m \<noteq> []"
  by (simp add: mm_emplace_def)

lemma distinct_mm_emplace:
  "distinct (map snd (mm_emplace t p m) @ xs) \<longleftrightarrow> p \<notin> snd ` set m \<and> p \<notin> set xs \<and> distinct (map snd m @ xs)"
proof -
  have "mset (map snd (mm_emplace t p m) @ xs) = mset (p # map snd m @ xs)"
    using mm_emplace_perm[of t p m] by simp
  from mset_eq_imp_distinct_iff[OF this] show ?thesis by auto
qed

lemma perm_remove1:
  "x \<in> set xs \<Longrightarrow> image_mset f (mset xs) = add_mset (f x) (image_mset f (mset (remove1 x xs)))"
  by (induction xs) auto

lemma distinct_map_mm_emplace [simp]:
  "distinct (map snd (mm_emplace t p m)) \<longleftrightarrow> p \<notin> snd ` set m \<and> distinct (map snd m)"
  using distinct_mm_emplace[of t p m "[]"] by simp

lemma sorted_takeWhile_dropWhile:
  assumes "sorted (map fst m)"
  shows "x \<in> set (takeWhile (\<lambda>x. fst x \<le> t) m) \<longleftrightarrow> x \<in> set m \<and> fst x \<le> (t :: timestamp)"
    and "x \<in> set (dropWhile (\<lambda>x. fst x \<le> t) m) \<longleftrightarrow> x \<in> set m \<and> t < fst x"
proof -
  let ?T = "takeWhile (\<lambda>x. fst x \<le> t) m" and ?D = "dropWhile (\<lambda>x. fst x \<le> t) m"
  have D: "\<forall>x \<in> set ?D. t < fst x"
    using assms
  proof (induction m)
    case (Cons y m)
    then show ?case by (cases "fst y \<le> t") (auto simp: not_le intro: less_le_trans)
  qed simp
  have T: "\<forall>x \<in> set ?T. fst x \<le> t"
    by (auto dest: set_takeWhileD)
  have m: "set m = set ?T \<union> set ?D"
    by (metis set_append takeWhile_dropWhile_id)
  show "x \<in> set ?T \<longleftrightarrow> x \<in> set m \<and> fst x \<le> t"
    unfolding m using T D by (meson UnCI UnE not_le)
  show "x \<in> set ?D \<longleftrightarrow> x \<in> set m \<and> t < fst x"
    unfolding m using T D by (meson UnCI UnE not_le)
qed

lemma sorted_map_take_drop:
  "sorted (map fst m) \<Longrightarrow> sorted (map fst (takeWhile P m)) \<and> sorted (map fst (dropWhile P m))"
  by (metis map_append sorted_append takeWhile_dropWhile_id)

lemma sorted_mm_emplace: "sorted (map fst m) \<Longrightarrow> sorted (map fst (mm_emplace t p m))"
  using sorted_map_take_drop[of m "\<lambda>x. fst x \<le> t"] sorted_takeWhile_dropWhile[of m _ t]
  by (fastforce simp: mm_emplace_def sorted_append)

lemma hd_mm_emplace:
  "hd (mm_emplace t p m) = (if m = [] \<or> t < fst (hd m) then (t, p) else hd m)"
  by (cases m) (auto simp: mm_emplace_def)

section \<open>The invariant of the queue\<close>

text \<open>
  \<open>vec\<close> lists the timers owned elsewhere: in the vector of expired timers, or by
  queued calls of \<open>insertInLoop\<close>.
\<close>

definition tq_inv :: "ptr list \<Rightarrow> 'z tloop_scheme \<Rightarrow> bool" where
  "tq_inv vec s \<longleftrightarrow>
     sorted (map fst (tq_timers s)) \<and> distinct (map snd (tq_timers s) @ vec) \<and>
     (\<forall>(t, p) \<in> set (tq_timers s). \<exists>tm. tq_heap s p = Some tm \<and> tm_expiration tm = t) \<and>
     (\<forall>p \<in> set vec. tq_heap s p \<noteq> None) \<and>
     (\<forall>p tm. tq_heap s p = Some tm \<longrightarrow> snd (tm_id tm) = p \<and> tm_repeat tm = (0 < tm_interval tm)) \<and>
     tq_active s = (\<lambda>(t, p). tm_id (the (tq_heap s p))) ` set (tq_timers s)"

lemma tq_inv_perm: "tq_inv vec s \<Longrightarrow> mset vec = mset vec' \<Longrightarrow> tq_inv vec' s"
proof -
  assume a: "tq_inv vec s" "mset vec = mset vec'"
  then have "mset (map snd (tq_timers s) @ vec) = mset (map snd (tq_timers s) @ vec')" by simp
  from mset_eq_imp_distinct_iff[OF this] mset_eq_setD[OF a(2)] a(1) show ?thesis
    by (simp add: tq_inv_def)
qed

lemma tq_inv_cong:
  "tq_inv vec s \<Longrightarrow> tq_timers t = tq_timers s \<Longrightarrow> tq_heap t = tq_heap s \<Longrightarrow>
   tq_active t = tq_active s \<Longrightarrow> tq_inv vec t"
  by (simp add: tq_inv_def)

lemma tq_inv_weaken: "tq_inv (p # vec) s \<Longrightarrow> tq_inv vec s"
  by (simp add: tq_inv_def)

lemma tq_inv_timer:
  assumes "tq_inv vec s" and "(t, p) \<in> set (tq_timers s)"
  shows "\<exists>tm. tq_heap s p = Some tm \<and> tm_expiration tm = t \<and> snd (tm_id tm) = p"
  using assms by (fastforce simp: tq_inv_def)

lemma tq_inv_sizes [simp]:
  assumes "tq_inv vec s"
  shows "sizes_agree s"
proof -
  let ?f = "\<lambda>(t, p). tm_id (the (tq_heap s p))"
  have "inj_on ?f (set (tq_timers s))"
  proof (rule inj_onI)
    fix x y
    assume x: "x \<in> set (tq_timers s)" and y: "y \<in> set (tq_timers s)" and eq: "?f x = ?f y"
    obtain t p u q where xy: "x = (t, p)" "y = (u, q)" by (cases x, cases y)
    obtain tm where tm: "tq_heap s p = Some tm" "tm_expiration tm = t" "snd (tm_id tm) = p"
      using tq_inv_timer[OF assms] x xy by blast
    obtain tn where tn: "tq_heap s q = Some tn" "tm_expiration tn = u" "snd (tm_id tn) = q"
      using tq_inv_timer[OF assms] y xy by blast
    from eq tm tn xy have "p = q" by simp
    with tm tn xy show "x = y" by simp
  qed
  moreover have "distinct (tq_timers s)"
    using assms by (auto simp: tq_inv_def distinct_map)
  ultimately show ?thesis
    using assms by (simp add: sizes_agree_def tq_inv_def card_image distinct_card)
qed

text \<open>A timer in the queue is active; the id of a live timer elsewhere is not.\<close>

lemma tq_active_iff:
  assumes "tq_inv vec s"
  shows "i \<in> tq_active s \<longleftrightarrow> (\<exists>t tm. (t, snd i) \<in> set (tq_timers s) \<and> tq_heap s (snd i) = Some tm \<and>
    tm_id tm = i \<and> tm_expiration tm = t)"
proof
  assume "i \<in> tq_active s"
  then obtain t p where "(t, p) \<in> set (tq_timers s)" "i = tm_id (the (tq_heap s p))"
    using assms by (auto simp: tq_inv_def)
  with tq_inv_timer[OF assms this(1)] show "\<exists>t tm. (t, snd i) \<in> set (tq_timers s) \<and>
      tq_heap s (snd i) = Some tm \<and> tm_id tm = i \<and> tm_expiration tm = t" by auto
next
  assume "\<exists>t tm. (t, snd i) \<in> set (tq_timers s) \<and> tq_heap s (snd i) = Some tm \<and> tm_id tm = i \<and>
      tm_expiration tm = t"
  then obtain t tm where i: "(t, snd i) \<in> set (tq_timers s)" "tq_heap s (snd i) = Some tm" "tm_id tm = i"
    by blast
  have "tq_active s = (\<lambda>(t, p). tm_id (the (tq_heap s p))) ` set (tq_timers s)"
    using assms by (simp add: tq_inv_def)
  moreover have "i = (\<lambda>(t, p). tm_id (the (tq_heap s p))) (t, snd i)" using i by simp
  ultimately show "i \<in> tq_active s" using i(1) by (metis imageI)
qed

section \<open>Every operation keeps the invariant\<close>

lemma tq_inv_outside:
  assumes "tq_inv (p # vec) s"
  shows "p \<notin> snd ` set (tq_timers s)" and "p \<notin> set vec" and "\<exists>tm. tq_heap s p = Some tm \<and> snd (tm_id tm) = p"
  using assms by (auto simp: tq_inv_def)

lemma tq_inv_fresh:
  assumes "tq_inv vec s" and "tq_heap s p = None"
  shows "p \<notin> snd ` set (tq_timers s)" and "p \<notin> set vec"
  using assms tq_inv_timer[OF assms(1)] by (force, auto simp: tq_inv_def)

lemma tq_inv_heap_upd:
  assumes inv: "tq_inv vec s" and out: "p \<notin> snd ` set (tq_timers s)" "p \<notin> set vec"
    and x: "\<And>tm. x = Some tm \<Longrightarrow> snd (tm_id tm) = p \<and> tm_repeat tm = (0 < tm_interval tm)"
  shows "tq_inv vec (s\<lparr>tq_count := n, tq_heap := (tq_heap s)(p := x)\<rparr>)"
proof -
  have ne: "q \<noteq> p" if "(t, q) \<in> set (tq_timers s)" for t q
    using that out(1) by (metis image_eqI snd_conv)
  have "(\<lambda>(t, q). tm_id (the (((tq_heap s)(p := x)) q))) ` set (tq_timers s) =
      (\<lambda>(t, q). tm_id (the (tq_heap s q))) ` set (tq_timers s)"
    using ne by (intro image_cong) auto
  moreover have "\<forall>(t, q) \<in> set (tq_timers s). \<exists>tm. ((tq_heap s)(p := x)) q = Some tm \<and> tm_expiration tm = t"
    using inv ne by (auto simp: tq_inv_def)
  moreover have "\<forall>q \<in> set vec. ((tq_heap s)(p := x)) q \<noteq> None"
    using inv out by (auto simp: tq_inv_def)
  ultimately show ?thesis
    using inv x by (simp add: tq_inv_def)
qed

lemma Timer_new_ok:
  assumes "tq_inv vec s" and "tq_heap s p = None"
  shows "\<exists>s'. Timer_new p cb when i s = Inr ((tq_count s + 1, p), s') \<and> tq_inv (p # vec) s' \<and>
    s' = s\<lparr>tq_count := tq_count s + 1, tq_heap := (tq_heap s)(p \<mapsto>
      \<lparr>tm_callback = cb, tm_expiration = when, tm_interval = i, tm_repeat = (i > 0),
       tm_id = (tq_count s + 1, p)\<rparr>)\<rparr>"
proof -
  let ?tm = "\<lparr>tm_callback = cb, tm_expiration = when, tm_interval = i, tm_repeat = (i > 0),
       tm_id = (tq_count s + 1, p)\<rparr>"
  let ?s = "s\<lparr>tq_count := tq_count s + 1, tq_heap := (tq_heap s)(p \<mapsto> ?tm)\<rparr>"
  have "tq_inv vec ?s"
    by (rule tq_inv_heap_upd[OF assms(1) tq_inv_fresh[OF assms]]) simp
  then have "tq_inv (p # vec) ?s"
    using tq_inv_fresh[OF assms] by (simp add: tq_inv_def)
  then show ?thesis using assms(2) by (simp add: Timer_new_def)
qed

lemma Timer_delete_ok:
  assumes "tq_inv (p # vec) s"
  shows "\<exists>s'. Timer_delete p s = Inr s' \<and> tq_inv vec s' \<and>
    s' = s\<lparr>tq_count := tq_count s - 1, tq_heap := (tq_heap s)(p := None)\<rparr>"
  using tq_inv_outside[OF assms]
    tq_inv_heap_upd[OF tq_inv_weaken[OF assms] tq_inv_outside(1,2)[OF assms], of None]
  by (auto simp: Timer_delete_def)

lemma tq_insert_ok:
  assumes inv: "tq_inv (p # vec) s" and tm: "tq_heap s p = Some tm"
  shows "tq_insert True p s =
      Inr (tq_timers s = [] \<or> tm_expiration tm < fst (hd (tq_timers s)),
        s\<lparr>tq_timers := mm_emplace (tm_expiration tm) p (tq_timers s),
          tq_active := insert (tm_id tm) (tq_active s)\<rparr>)"
    and "tq_inv vec (s\<lparr>tq_timers := mm_emplace (tm_expiration tm) p (tq_timers s),
          tq_active := insert (tm_id tm) (tq_active s)\<rparr>)"
proof -
  let ?s = "s\<lparr>tq_timers := mm_emplace (tm_expiration tm) p (tq_timers s),
          tq_active := insert (tm_id tm) (tq_active s)\<rparr>"
  note out = tq_inv_outside[OF inv]
  have id: "snd (tm_id tm) = p" using out(3) tm by auto
  then have fresh: "tm_id tm \<notin> tq_active s"
    using tq_active_iff[OF inv, of "tm_id tm"] out(1) by (metis image_eqI snd_conv)
  show inv': "tq_inv vec ?s"
    using inv out tm by (auto simp: tq_inv_def sorted_mm_emplace distinct_mm_emplace)
  show "tq_insert True p s =
      Inr (tq_timers s = [] \<or> tm_expiration tm < fst (hd (tq_timers s)), ?s)"
    using tm fresh tq_inv_sizes[OF inv] tq_inv_sizes[OF inv']
    by (simp add: tq_insert_def assertInLoopThread_def)
qed

lemma tq_inv_sys_call [simp]: "tq_inv vec (sys_call c s) = tq_inv vec s"
  by (simp add: sys_call_def tq_inv_def)

lemma cancelInLoop_ok:
  assumes inv: "tq_inv vec s"
  shows "\<exists>s'. cancelInLoop True i s = Inr s' \<and> tq_inv vec s' \<and> i \<notin> tq_active s' \<and>
    set (tq_timers s') = {(t, p) \<in> set (tq_timers s). i \<noteq> tm_id (the (tq_heap s p))} \<and>
    (i \<notin> tq_active s \<longrightarrow> tq_callingExpired s \<longrightarrow> snd i \<in> tq_canceling s') \<and>
    (\<forall>p \<in> set vec. tq_heap s' p = tq_heap s p) \<and> tq_canceling s \<subseteq> tq_canceling s' \<and>
    el_pending s' = el_pending s \<and> rx_trace s' = rx_trace s \<and> tq_timerfd s' = tq_timerfd s \<and>
    tq_callingExpired s' = tq_callingExpired s"
proof (cases "i \<in> tq_active s")
  case True
  then obtain t tm where t: "(t, snd i) \<in> set (tq_timers s)" "tq_heap s (snd i) = Some tm"
      "tm_id tm = i" "tm_expiration tm = t"
    using tq_active_iff[OF inv] by blast
  let ?p = "snd i" and ?m = "remove1 (t, snd i) (tq_timers s)"
  have dist: "distinct (map snd (tq_timers s) @ vec)" using inv by (simp add: tq_inv_def)
  then have distm: "distinct (tq_timers s)" by (auto simp: distinct_map)
  have only: "u = t" if "(u, ?p) \<in> set (tq_timers s)" for u
    using tq_inv_timer[OF inv that] t by auto
  then have notin: "?p \<notin> snd ` set ?m" using distm by auto
  have notvec: "?p \<notin> set vec" using dist t(1) by force
  have insert_image_mset: "image_mset snd (mset (tq_timers s)) = add_mset ?p (image_mset snd (mset ?m))"
    using perm_remove1[OF t(1), of snd] by (simp del: mset_remove1)
  have "mset (map snd (tq_timers s) @ vec) = mset (?p # map snd ?m @ vec)"
    using insert_image_mset by (simp del: mset_remove1)
  from mset_eq_imp_distinct_iff[OF this] dist have dist': "distinct (map snd ?m @ vec)" by simp
  let ?s1 = "s\<lparr>tq_timers := ?m, tq_active := tq_active s - {i}\<rparr>"
  have act: "tq_active s - {i} = (\<lambda>(t, p). tm_id (the (tq_heap s p))) ` set ?m"
  proof -
    have "i \<noteq> tm_id (the (tq_heap s q))" if "(u, q) \<in> set ?m" for u q
    proof
      assume "i = tm_id (the (tq_heap s q))"
      moreover have "(u, q) \<in> set (tq_timers s)" using that by (metis notin_set_remove1)
      ultimately have "?p = q" using tq_inv_timer[OF inv, of u q] by auto
      with that notin show False by (metis image_eqI snd_conv)
    qed
    moreover have "tq_active s = (\<lambda>(t, p). tm_id (the (tq_heap s p))) ` set (tq_timers s)"
      using inv by (simp add: tq_inv_def)
    moreover have "set (tq_timers s) = insert (t, ?p) (set ?m)"
      using distm t(1) by auto
    ultimately show ?thesis using t(2,3) by auto
  qed
  have sub: "set ?m \<subseteq> set (tq_timers s)" by (rule set_remove1_subset)
  have inv1: "tq_inv vec ?s1"
    using inv dist' act sub sorted_map_remove1[where f = fst and xs = "tq_timers s" and x = "(t, ?p)"]
    unfolding tq_inv_def by auto
  let ?s2 = "?s1\<lparr>tq_count := tq_count s - 1, tq_heap := (tq_heap s)(?p := None)\<rparr>"
  have inv2: "tq_inv vec ?s2"
    using tq_inv_heap_upd[OF inv1, of ?p None "tq_count s - 1"] notin notvec by simp
  have "cancelInLoop True i s = Inr ?s2"
    using True t tq_inv_sizes[OF inv] tq_inv_sizes[OF inv2]
    by (simp add: sizes_agree_def cancelInLoop_def assertInLoopThread_def Timer_delete_def)
  moreover have "set ?m = {(u, q) \<in> set (tq_timers s). i \<noteq> tm_id (the (tq_heap s q))}"
  proof -
    have "set ?m = set (tq_timers s) - {(t, ?p)}" using distm by simp
    moreover have "i = tm_id (the (tq_heap s q)) \<longleftrightarrow> q = ?p \<and> u = t" if uq: "(u, q) \<in> set (tq_timers s)" for u q
    proof
      assume i: "i = tm_id (the (tq_heap s q))"
      obtain tn where "tq_heap s q = Some tn" "snd (tm_id tn) = q"
        using tq_inv_timer[OF inv uq] by blast
      with i have "q = ?p" by simp
      with only[of u] uq show "q = ?p \<and> u = t" by simp
    qed (simp add: t(2,3))
    ultimately show ?thesis by auto
  qed
  moreover have "\<forall>p \<in> set vec. tq_heap ?s2 p = tq_heap s p" using notvec by auto
  ultimately show ?thesis using inv2 True by auto
next
  case False
  have keep: "tq_inv vec (s\<lparr>tq_canceling := X\<rparr>)" for X
    using inv by (rule tq_inv_cong) simp_all
  have "set (tq_timers s) = {(t, p) \<in> set (tq_timers s). i \<noteq> tm_id (the (tq_heap s p))}"
    using False inv by (auto simp: tq_inv_def)
  then show ?thesis
    using False inv keep tq_inv_sizes[OF inv] tq_inv_sizes[OF keep]
    by (auto simp: cancelInLoop_def assertInLoopThread_def)
qed

section \<open>One round of expirations\<close>

lemma tq_inv_expire:
  assumes inv: "tq_inv vec s" and m: "tq_timers s = ex @ rest"
  shows "fold_res erase_active (map snd ex) (s\<lparr>tq_timers := rest\<rparr>) =
      Inr (s\<lparr>tq_timers := rest,
        tq_active := tq_active s - (\<lambda>(t, p). tm_id (the (tq_heap s p))) ` set ex\<rparr>)"
    and "tq_inv (map snd ex @ vec) (s\<lparr>tq_timers := rest,
        tq_active := tq_active s - (\<lambda>(t, p). tm_id (the (tq_heap s p))) ` set ex\<rparr>)"
proof -
  let ?id = "\<lambda>(t, p). tm_id (the (tq_heap s p))"
  have "fold_res erase_active (map snd xs) u = Inr (u\<lparr>tq_active := tq_active u - ?id ` set xs\<rparr>)"
    if "set xs \<subseteq> set ex" "tq_heap u = tq_heap s" for xs and u :: "'a tloop_scheme"
    using that
  proof (induction xs arbitrary: u)
    case (Cons x xs)
    obtain t p where x: "x = (t, p)" by (cases x)
    obtain tm where tm: "tq_heap u p = Some tm"
      using tq_inv_timer[OF inv, of t p] Cons.prems x m by auto
    have "tq_active u - {tm_id tm} - ?id ` set xs = tq_active u - ?id ` set (x # xs)"
      using tm x Cons.prems(2) by auto
    with Cons tm x show ?case by (simp add: erase_active_def)
  qed simp
  from this[of ex "s\<lparr>tq_timers := rest\<rparr>"]
  show "fold_res erase_active (map snd ex) (s\<lparr>tq_timers := rest\<rparr>) =
      Inr (s\<lparr>tq_timers := rest, tq_active := tq_active s - ?id ` set ex\<rparr>)" by simp
  have disj: "?id x \<noteq> ?id y" if x: "x \<in> set ex" and y: "y \<in> set rest" for x y
  proof -
    obtain t p u q where xy: "x = (t, p)" "y = (u, q)" by (cases x, cases y)
    have "(t, p) \<in> set (tq_timers s)" "(u, q) \<in> set (tq_timers s)" using x y xy m by auto
    then have "snd (?id x) = p" "snd (?id y) = q"
      using tq_inv_timer[OF inv, of t p] tq_inv_timer[OF inv, of u q] xy by auto
    moreover have "p \<in> snd ` set ex" "q \<in> snd ` set rest"
      using x y xy by (metis image_eqI snd_conv)+
    moreover have "snd ` set ex \<inter> snd ` set rest = {}"
      using inv m by (simp add: tq_inv_def Int_Un_distrib)
    ultimately show ?thesis by (metis disjoint_iff)
  qed
  have "tq_active s = ?id ` set ex \<union> ?id ` set rest"
    using inv m by (simp add: tq_inv_def image_Un)
  then have act: "tq_active s - ?id ` set ex = ?id ` set rest"
    using disj by blast
  show "tq_inv (map snd ex @ vec) (s\<lparr>tq_timers := rest, tq_active := tq_active s - ?id ` set ex\<rparr>)"
    using inv m act unfolding tq_inv_def by (auto simp: sorted_append split_beta)
qed

lemma getAllExpirationTimer_ok:
  assumes inv: "tq_inv vec s"
  obtains s1 where
    "getAllExpirationTimer when s = Inr (map snd (takeWhile (\<lambda>x. fst x \<le> when) (tq_timers s)), s1)"
    and "tq_inv (map snd (takeWhile (\<lambda>x. fst x \<le> when) (tq_timers s)) @ vec) s1"
    and "\<exists>A. s1 = s\<lparr>tq_timers := dropWhile (\<lambda>x. fst x \<le> when) (tq_timers s), tq_active := A\<rparr>"
proof -
  let ?ex = "takeWhile (\<lambda>x. fst x \<le> when) (tq_timers s)"
  let ?rest = "dropWhile (\<lambda>x. fst x \<le> when) (tq_timers s)"
  have m: "tq_timers s = ?ex @ ?rest" by simp
  have "?rest = [] \<or> when < fst (hd ?rest)"
    using hd_dropWhile[of "\<lambda>x. fst x \<le> when" "tq_timers s"] by (cases "?rest = []") auto
  then have "getAllExpirationTimer when s = Inr (map snd ?ex, s\<lparr>tq_timers := ?rest,
        tq_active := tq_active s - (\<lambda>(t, p). tm_id (the (tq_heap s p))) ` set ?ex\<rparr>)"
    using tq_inv_expire[OF inv m] tq_inv_sizes[OF tq_inv_expire(2)[OF inv m]]
    by (simp add: getAllExpirationTimer_def)
  with tq_inv_expire(2)[OF inv m] that show ?thesis by blast
qed

text \<open>Which of the expired timers go back into the queue.\<close>

definition reinserted :: "'z tloop_scheme \<Rightarrow> ptr \<Rightarrow> bool" where
  "reinserted s p \<longleftrightarrow> p \<notin> tq_canceling s \<and> (\<exists>tm. tq_heap s p = Some tm \<and> tm_repeat tm)"

definition next_of :: "(rat \<Rightarrow> rat) \<Rightarrow> timestamp \<Rightarrow> 'z tloop_scheme \<Rightarrow> ptr \<Rightarrow> timestamp" where
  "next_of rnd when s p =
     when + truncq (rnd (tm_interval (the (tq_heap s p)) * of_int NanosecondsRatio))"

definition reset_post :: "(rat \<Rightarrow> rat) \<Rightarrow> timestamp \<Rightarrow> ptr list \<Rightarrow> 'z tloop_scheme \<Rightarrow> 'z tloop_scheme \<Rightarrow> bool" where
  "reset_post rnd when E s s' \<longleftrightarrow>
     set (tq_timers s') = set (tq_timers s) \<union> (\<lambda>p. (next_of rnd when s p, p)) ` {p \<in> set E. reinserted s p} \<and>
     (\<forall>p. tq_heap s' p = (if p \<in> set E \<and> reinserted s p
        then Some ((the (tq_heap s p))\<lparr>tm_expiration := next_of rnd when s p\<rparr>) else tq_heap s p)) \<and>
     tq_canceling s' = tq_canceling s \<and> tq_callingExpired s' = tq_callingExpired s \<and>
     el_pending s' = el_pending s \<and> rx_trace s' = rx_trace s \<and> tq_timerfd s' = tq_timerfd s"

lemma addTime_ok: "ok_res (\<lambda>e. e = t + truncq (rnd (i * of_int NanosecondsRatio))) (addTime rnd t i)"
  by (auto simp: addTime_def int64_def check_def env_fault_def)

lemma tq_inv_restart:
  assumes "tq_inv (p # vec) s" and "snd (tm_id tm) = p" and "tm_repeat tm = (0 < tm_interval tm)"
  shows "tq_inv (p # vec) (s\<lparr>tq_heap := (tq_heap s)(p \<mapsto> tm)\<rparr>)"
proof -
  have "tq_inv vec (s\<lparr>tq_count := tq_count s, tq_heap := (tq_heap s)(p := Some tm)\<rparr>)"
    using assms tq_inv_outside[OF assms(1)]
    by (intro tq_inv_heap_upd tq_inv_weaken[OF assms(1)]) auto
  then show ?thesis
    using assms(1) tq_inv_outside(1,2)[OF assms(1)] by (simp add: tq_inv_def)
qed

lemma reset_one_ok:
  assumes inv: "tq_inv (p # vec) s"
  shows "ok_res (\<lambda>(s', left').
      reset_post rnd when [p] s s' \<and> left' = (if reinserted s p then left else left @ [p]) \<and>
      tq_inv (if reinserted s p then vec else p # vec) s')
    (reset_one rnd when p (s, left))"
proof -
  obtain tm where tm: "tq_heap s p = Some tm" "snd (tm_id tm) = p"
    using tq_inv_outside(3)[OF inv] by auto
  show ?thesis
  proof (cases "reinserted s p")
    case False
    then have no: "p = q \<longrightarrow> \<not> reinserted s q" for q by auto
    then show ?thesis using False inv tm by (auto simp: reset_one_def reset_post_def reinserted_def)
  next
    case True
    let ?tm = "tm\<lparr>tm_expiration := next_of rnd when s p\<rparr>"
    let ?s = "s\<lparr>tq_heap := (tq_heap s)(p \<mapsto> ?tm)\<rparr>"
    let ?t = "?s\<lparr>tq_timers := mm_emplace (tm_expiration ?tm) p (tq_timers ?s),
          tq_active := insert (tm_id ?tm) (tq_active ?s)\<rparr>"
    have rep: "tm_repeat tm" "p \<notin> tq_canceling s" using True tm by (auto simp: reinserted_def)
    have "tm_repeat tm = (0 < tm_interval tm)" using inv tm(1) by (simp add: tq_inv_def)
    then have inv1: "tq_inv (p # vec) ?s" using tq_inv_restart[OF inv, of ?tm] tm by simp
    have run: "ok_res (\<lambda>s1. s1 = ?s) (Timer_restart rnd when p s)"
      using addTime_ok[of "when" rnd "tm_interval tm"] tm rep
      by (cases "addTime rnd when (tm_interval tm)") (auto simp: Timer_restart_def next_of_def)
    have ins: "tq_insert True p ?s = Inr (tq_timers ?s = [] \<or> tm_expiration ?tm < fst (hd (tq_timers ?s)), ?t)"
      and inv2: "tq_inv vec ?t"
      using tq_insert_ok[OF inv1, of ?tm] by simp_all
    have post: "reset_post rnd when [p] s ?t"
      using True tm by (auto simp: reset_post_def)
    have "reset_one rnd when p (s, left) =
        bindr (Timer_restart rnd when p s) (\<lambda>s1. bindr (tq_insert True p s1) (\<lambda>(_, s2). Inr (s2, left)))"
      using tm rep by (simp add: reset_one_def)
    also have "ok_res (\<lambda>(s', left'). reset_post rnd when [p] s s' \<and> left' = left \<and> tq_inv vec s') \<dots>"
      by (rule ok_res_bindr[OF run]) (use ins inv2 post in simp)
    finally show ?thesis using True by simp
  qed
qed

lemma reinserted_step:
  assumes "reset_post rnd when [p] s s1" and "q \<noteq> p"
  shows "reinserted s1 q \<longleftrightarrow> reinserted s q" and "next_of rnd when s1 q = next_of rnd when s q"
    and "tq_heap s1 q = tq_heap s q"
  using assms by (auto simp: reset_post_def reinserted_def next_of_def)

lemma reset_post_compose:
  assumes 1: "reset_post rnd when [p] s s1" and 2: "reset_post rnd when E s1 s2" and p: "p \<notin> set E"
  shows "reset_post rnd when (p # E) s s2"
proof -
  have ne: "q \<noteq> p" if "q \<in> set E" for q using that p by auto
  have eq: "{q \<in> set E. reinserted s1 q} = {q \<in> set E. reinserted s q}"
    using reinserted_step(1)[OF 1 ne] by auto
  have "(\<lambda>q. (next_of rnd when s1 q, q)) ` {q \<in> set E. reinserted s1 q} =
      (\<lambda>q. (next_of rnd when s q, q)) ` {q \<in> set E. reinserted s q}"
    unfolding eq using reinserted_step(2)[OF 1 ne] by (intro image_cong) auto
  then have T: "set (tq_timers s2) = set (tq_timers s) \<union>
      (\<lambda>q. (next_of rnd when s q, q)) ` {q \<in> set (p # E). reinserted s q}"
    using 1 2 by (auto simp: reset_post_def)
  have H: "tq_heap s2 q = (if q \<in> set (p # E) \<and> reinserted s q
        then Some ((the (tq_heap s q))\<lparr>tm_expiration := next_of rnd when s q\<rparr>) else tq_heap s q)" for q
    using 1 2 p reinserted_step[OF 1, of q] by (cases "q = p") (auto simp: reset_post_def)
  show ?thesis using T H 1 2 unfolding reset_post_def by simp
qed

lemma reset_fold_ok:
  assumes "tq_inv (E @ left @ vec) s"
  shows "ok_res (\<lambda>(s', left').
      reset_post rnd when E s s' \<and> left' = left @ filter (\<lambda>p. \<not> reinserted s p) E \<and> tq_inv (left' @ vec) s')
    (fold_res (reset_one rnd when) E (s, left))"
  using assms
proof (induction E arbitrary: s left)
  case Nil
  then show ?case by (simp add: reset_post_def)
next
  case (Cons p E)
  have inv: "tq_inv (p # E @ left @ vec) s" using Cons.prems by simp
  have pE: "p \<notin> set E" using inv by (simp add: tq_inv_def)
  show ?case
    unfolding fold_res.simps
  proof (rule ok_res_bindr[OF reset_one_ok[OF inv, of rnd "when" left]])
    fix st
    assume "case st of (s', left') \<Rightarrow>
      reset_post rnd when [p] s s' \<and> left' = (if reinserted s p then left else left @ [p]) \<and>
      tq_inv (if reinserted s p then E @ left @ vec else p # E @ left @ vec) s'"
    then obtain s1 left1 where st: "st = (s1, left1)" and post: "reset_post rnd when [p] s s1"
      and left1: "left1 = (if reinserted s p then left else left @ [p])"
      and inv1: "tq_inv (if reinserted s p then E @ left @ vec else p # E @ left @ vec) s1"
      by (cases st) auto
    have inv2: "tq_inv (E @ left1 @ vec) s1"
      by (rule tq_inv_perm[OF inv1]) (simp add: left1)
    have flt: "filter (\<lambda>q. \<not> reinserted s1 q) E = filter (\<lambda>q. \<not> reinserted s q) E"
      using reinserted_step(1)[OF post] pE by (metis (mono_tags, lifting) filter_cong)
    show "ok_res (\<lambda>(s', left'). reset_post rnd when (p # E) s s' \<and>
        left' = left @ filter (\<lambda>p. \<not> reinserted s p) (p # E) \<and> tq_inv (left' @ vec) s')
      (fold_res (reset_one rnd when) E st)"
      unfolding st
      by (rule ok_res_mono[OF Cons.IH[OF inv2]])
        (use reset_post_compose[OF post _ pE] flt in \<open>auto simp: left1\<close>)
  qed
qed

lemma Timer_delete_fold:
  assumes "tq_inv (E @ vec) s"
  shows "\<exists>s'. fold_res Timer_delete E s = Inr s' \<and> tq_inv vec s' \<and>
    s' = s\<lparr>tq_count := tq_count s - int (length E), tq_heap := (\<lambda>p. if p \<in> set E then None else tq_heap s p)\<rparr>"
  using assms
proof (induction E arbitrary: s)
  case (Cons p E)
  have inv: "tq_inv (p # E @ vec) s" using Cons.prems by simp
  obtain s1 where s1: "Timer_delete p s = Inr s1" "tq_inv (E @ vec) s1"
      "s1 = s\<lparr>tq_count := tq_count s - 1, tq_heap := (tq_heap s)(p := None)\<rparr>"
    using Timer_delete_ok[OF inv] by blast
  have "(\<lambda>q. if q \<in> set E then None else tq_heap s1 q) = (\<lambda>q. if q \<in> set (p # E) then None else tq_heap s q)"
    using s1(3) by auto
  with Cons.IH[OF s1(2)] s1 show ?case by (auto simp: algebra_simps)
qed simp

section \<open>The timer descriptor\<close>

text \<open>
  \<open>timerfd(2)\<close>: a one-shot descriptor holds the time it was set and the time it fires.
  A read is taken to consume the expiration.
\<close>

fun timerfd_step :: "int \<Rightarrow> (timestamp \<times> timestamp) option \<Rightarrow> syscall \<Rightarrow> (timestamp \<times> timestamp) option" where
  "timerfd_step fd w (SysTimerfdSettime g now (sec, ns)) =
     (if g \<noteq> fd then w else if sec = 0 \<and> ns = 0 then None
      else Some (now, now + sec * NanosecondsRatio + ns))"
| "timerfd_step fd w (SysTimerfdRead g) = (if g = fd then None else w)"
| "timerfd_step fd w _ = w"

definition timerfd_state :: "int \<Rightarrow> syscall list \<Rightarrow> (timestamp \<times> timestamp) option" where
  "timerfd_state fd tr = foldl (timerfd_step fd) None tr"

text \<open>The descriptor fires by \<open>t\<close>, or a microsecond after it was set if \<open>t\<close> had passed.\<close>

definition fires_by :: "'z tloop_scheme \<Rightarrow> timestamp \<Rightarrow> bool" where
  "fires_by s t \<longleftrightarrow> (\<exists>now d. timerfd_state (tq_timerfd s) (rx_trace s) = Some (now, d) \<and> d \<le> max t (now + 1000))"

definition armed_upto :: "timestamp \<Rightarrow> 'z tloop_scheme \<Rightarrow> bool" where
  "armed_upto z s \<longleftrightarrow>
     (tq_timers s \<noteq> [] \<longrightarrow> fst (hd (tq_timers s)) \<le> z \<longrightarrow> fires_by s (fst (hd (tq_timers s))))"

definition armed :: "'z tloop_scheme \<Rightarrow> bool" where
  "armed s \<longleftrightarrow> (tq_timers s \<noteq> [] \<longrightarrow> fires_by s (fst (hd (tq_timers s))))"

lemma fires_by_mono: "fires_by s t \<Longrightarrow> t \<le> u \<Longrightarrow> fires_by s u"
  unfolding fires_by_def by (meson max.mono order_refl order_trans)

lemma fires_by_cong:
  "rx_trace t = rx_trace s \<Longrightarrow> tq_timerfd t = tq_timerfd s \<Longrightarrow> fires_by t = fires_by s"
  by (simp add: fires_by_def fun_eq_iff)

lemma armed_iff: "armed s \<longleftrightarrow> (\<forall>z. armed_upto z s)"
  by (auto simp: armed_def armed_upto_def)

lemma tloop_updates [simp]:
  "tq_timerfd (sys_call c s) = tq_timerfd s" "tq_timers (sys_call c s) = tq_timers s"
  "tq_heap (sys_call c s) = tq_heap s" "tq_active (sys_call c s) = tq_active s"
  "tq_canceling (sys_call c s) = tq_canceling s" "tq_callingExpired (sys_call c s) = tq_callingExpired s"
  "tq_count (sys_call c s) = tq_count s" "tq_chan (sys_call c s) = tq_chan s"
  "tloop.more (sys_call c s) = tloop.more s"
  by (simp_all add: sys_call_def)

lemma resetTimerfd_fires:
  "ok_res (\<lambda>s'. fires_by s' e \<and> (\<exists>it. s' = sys_call (SysTimerfdSettime (tq_timerfd s) now it) s))
    (resetTimerfd now e s)"
proof (cases "int64_range (e - now)")
  case True
  then obtain sec ns where i: "intervalFromNow now e = Inr (sec, ns)" "0 \<le> sec" "0 \<le> ns"
      "sec * NanosecondsRatio + ns = (if e \<le> now then 1000 else e - now)"
    using intervalFromNow_ok by blast
  then have "\<not> (sec = 0 \<and> ns = 0)" by (auto split: if_splits)
  then have "timerfd_state (tq_timerfd s) (rx_trace s @ [SysTimerfdSettime (tq_timerfd s) now (sec, ns)])
      = Some (now, now + sec * NanosecondsRatio + ns)"
    by (auto simp: timerfd_state_def)
  moreover have "now + sec * NanosecondsRatio + ns \<le> max e (now + 1000)"
    using i(4) by (auto split: if_splits)
  ultimately show ?thesis using i(1) by (auto simp: resetTimerfd_def fires_by_def)
qed (simp add: resetTimerfd_def intervalFromNow_def int64_def env_fault_def)

section \<open>What callbacks may do\<close>

text \<open>Timers whose \<open>insertInLoop\<close> is queued.\<close>

fun insert_ptr :: "task \<Rightarrow> ptr list" where
  "insert_ptr (FnInsertTimer p) = [p]"
| "insert_ptr _ = []"

definition inserts_of :: "task list \<Rightarrow> ptr list" where
  "inserts_of fs = concat (map insert_ptr fs)"

lemma inserts_of_simps [simp]:
  "inserts_of [] = []" "inserts_of (f # fs) = insert_ptr f @ inserts_of fs"
  "inserts_of (fs @ gs) = inserts_of fs @ inserts_of gs"
  by (simp_all add: inserts_of_def)

definition tq_frame :: "ptr list \<Rightarrow> 'z tloop_scheme \<Rightarrow> 'z tloop_scheme \<Rightarrow> bool" where
  "tq_frame vec s s' \<longleftrightarrow>
     (\<forall>p \<in> set vec. tq_heap s' p = tq_heap s p) \<and>
     tq_callingExpired s' = tq_callingExpired s \<and> tq_canceling s \<subseteq> tq_canceling s' \<and>
     inserts_of (el_pending s') = inserts_of (el_pending s) \<and> tq_timerfd s' = tq_timerfd s \<and>
     (\<forall>z. armed_upto z s \<longrightarrow> armed_upto z s')"

lemma tq_frame_refl [simp]: "tq_frame vec s s"
  by (simp add: tq_frame_def)

lemma tq_frame_trans: "tq_frame vec s t \<Longrightarrow> tq_frame vec t u \<Longrightarrow> tq_frame vec s u"
  unfolding tq_frame_def by auto

lemma insertInLoop_frame:
  assumes inv: "tq_inv (p # vec) s"
  shows "ok_res (\<lambda>s'. tq_inv vec s' \<and> tq_frame vec s s' \<and> el_pending s' = el_pending s \<and>
    tq_heap s' = tq_heap s \<and>
    (\<exists>tm. tq_heap s p = Some tm \<and> set (tq_timers s') = insert (tm_expiration tm, p) (set (tq_timers s))))
    (insertInLoop True now p s)"
proof -
  obtain tm where tm: "tq_heap s p = Some tm" using tq_inv_outside(3)[OF inv] by auto
  let ?s = "s\<lparr>tq_timers := mm_emplace (tm_expiration tm) p (tq_timers s),
          tq_active := insert (tm_id tm) (tq_active s)\<rparr>"
  note ins = tq_insert_ok[OF inv tm]
  show ?thesis
  proof (cases "tq_timers s = [] \<or> tm_expiration tm < fst (hd (tq_timers s))")
    case True
    have "ok_res (\<lambda>s'. tq_inv vec s' \<and> tq_frame vec s s' \<and> el_pending s' = el_pending s \<and>
        tq_heap s' = tq_heap s \<and> set (tq_timers s') = insert (tm_expiration tm, p) (set (tq_timers s)))
      (resetTimerfd now (tm_expiration tm) ?s)"
      by (rule ok_res_mono[OF resetTimerfd_fires])
        (use ins True in \<open>auto simp: tq_frame_def armed_upto_def hd_mm_emplace\<close>)
    then show ?thesis using True ins tm by (simp add: insertInLoop_def assertInLoopThread_def)
  next
    case False
    then have "tq_frame vec s ?s"
      using fires_by_cong[of ?s s] by (auto simp: tq_frame_def armed_upto_def hd_mm_emplace)
    then show ?thesis
      using False ins tm by (simp add: insertInLoop_def assertInLoopThread_def)
  qed
qed

lemma armed_upto_shrink:
  assumes "armed_upto z s" and "sorted (map fst (tq_timers s))" and "set (tq_timers s') \<subseteq> set (tq_timers s)"
    and "rx_trace s' = rx_trace s" and "tq_timerfd s' = tq_timerfd s"
  shows "armed_upto z s'"
proof (cases "tq_timers s'")
  case (Cons x xs)
  then have "x \<in> set (tq_timers s)" using assms(3) by auto
  then have le: "tq_timers s \<noteq> []" "fst (hd (tq_timers s)) \<le> fst x"
    using assms(2) by (cases "tq_timers s"; auto)+
  have "fires_by s' (fst x)" if "fst x \<le> z"
    using fires_by_mono[of s "fst (hd (tq_timers s))" "fst x"] le that assms(1)
      fires_by_cong[OF assms(4,5)] by (auto simp: armed_upto_def)
  then show ?thesis using Cons by (simp add: armed_upto_def)
qed (simp add: armed_upto_def)

lemma cancelInLoop_frame:
  assumes inv: "tq_inv vec s"
  shows "ok_res (\<lambda>s'. tq_inv vec s' \<and> tq_frame vec s s' \<and> el_pending s' = el_pending s) (cancelInLoop True i s)"
proof -
  obtain s' where s': "cancelInLoop True i s = Inr s'" "tq_inv vec s'"
    "set (tq_timers s') = {(t, p) \<in> set (tq_timers s). i \<noteq> tm_id (the (tq_heap s p))}"
    "\<forall>p \<in> set vec. tq_heap s' p = tq_heap s p" "tq_canceling s \<subseteq> tq_canceling s'"
    "el_pending s' = el_pending s" "rx_trace s' = rx_trace s" "tq_timerfd s' = tq_timerfd s"
    "tq_callingExpired s' = tq_callingExpired s"
    using cancelInLoop_ok[OF inv, of i] by blast
  have "armed_upto z s'" if "armed_upto z s" for z
    by (rule armed_upto_shrink[OF that]) (use inv s' in \<open>auto simp: tq_inv_def\<close>)
  then show ?thesis using s' by (simp add: tq_frame_def)
qed

text \<open>The calls an application makes on the timers of its loop.\<close>

datatype timer_call =
    TcInsert timestamp ptr "task option" timestamp seconds
  | TcCancel timer_id

definition run_timer_call :: "bool \<Rightarrow> timer_call \<Rightarrow> 'z tloop_scheme \<Rightarrow> 'z tloop_scheme result" where
  "run_timer_call inLoop c s =
     (case c of
        TcInsert now p cb when interval \<Rightarrow>
          bindr (TimerQueue_insert inLoop now p cb when interval s) (\<lambda>(_, s1). Inr s1)
      | TcCancel i \<Rightarrow> TimerQueue_cancel inLoop i s)"

lemma run_timer_call_in_loop:
  assumes inv: "tq_inv vec s"
  shows "ok_res (\<lambda>s'. tq_inv vec s' \<and> tq_frame vec s s') (run_timer_call True c s)"
proof (cases c)
  case (TcInsert now p cb "when" interval)
  show ?thesis
  proof (cases "tq_heap s p")
    case None
    obtain s1 where s1: "Timer_new p cb when interval s = Inr ((tq_count s + 1, p), s1)" "tq_inv (p # vec) s1"
      "s1 = s\<lparr>tq_count := tq_count s + 1, tq_heap := (tq_heap s)(p \<mapsto>
        \<lparr>tm_callback = cb, tm_expiration = when, tm_interval = interval, tm_repeat = (interval > 0),
         tm_id = (tq_count s + 1, p)\<rparr>)\<rparr>"
      using Timer_new_ok[OF inv None] by blast
    have "tq_frame vec s s1"
      using s1(3) fires_by_cong[of s1 s] tq_inv_fresh[OF inv None] by (auto simp: tq_frame_def armed_upto_def)
    then have "ok_res (\<lambda>s'. tq_inv vec s' \<and> tq_frame vec s s') (insertInLoop True now p s1)"
      by (intro ok_res_mono[OF insertInLoop_frame[OF s1(2)]]) (auto intro: tq_frame_trans)
    then have "ok_res (\<lambda>s'. tq_inv vec s' \<and> tq_frame vec s s')
        (bindr (insertInLoop True now p s1) (\<lambda>s'. Inr s'))"
      by (rule ok_res_bindr) simp
    then show ?thesis
      using s1(1) TcInsert by (simp add: run_timer_call_def TimerQueue_insert_def runInLoop_def bindr_assoc)
  next
    case (Some tm)
    then show ?thesis
      using TcInsert by (simp add: run_timer_call_def TimerQueue_insert_def Timer_new_def env_fault_def)
  qed
next
  case (TcCancel i)
  then show ?thesis
    by (simp add: run_timer_call_def TimerQueue_cancel_def runInLoop_def)
      (rule ok_res_mono[OF cancelInLoop_frame[OF inv]], simp)
qed

definition same_queue :: "'z tloop_scheme \<Rightarrow> 'z tloop_scheme \<Rightarrow> bool" where
  "same_queue s s' \<longleftrightarrow> tq_timers s' = tq_timers s \<and> tq_heap s' = tq_heap s \<and>
     tq_callingExpired s' = tq_callingExpired s \<and> el_pending s' = el_pending s \<and>
     tq_timerfd s' = tq_timerfd s"

lemma resetTimerfd_post:
  assumes "tq_timers s \<noteq> [] \<longrightarrow> \<not> ts_valid (fst (hd (tq_timers s))) \<longrightarrow> fires_by s (fst (hd (tq_timers s)))"
    and inv: "tq_inv vec s"
  shows "ok_res (\<lambda>s'. tq_inv vec s' \<and> armed s' \<and> same_queue s s')
    (bindr (case tq_timers s of [] \<Rightarrow> Inr ts_invalid
                | (_, p) # _ \<Rightarrow> bindr (deref (tq_heap s) p) (\<lambda>tm. Inr (tm_expiration tm)))
       (\<lambda>e. if ts_valid e then resetTimerfd now e s else Inr s))"
proof (cases "tq_timers s")
  case Nil
  with inv show ?thesis by (auto simp: same_queue_def ts_valid_def ts_invalid_def armed_def)
next
  case (Cons x xs)
  obtain t p where x: "x = (t, p)" by (cases x)
  then obtain tm where tm: "tq_heap s p = Some tm" "tm_expiration tm = t"
    using tq_inv_timer[OF inv, of t p] Cons by auto
  show ?thesis
  proof (cases "ts_valid t")
    case True
    have "ok_res (\<lambda>s'. tq_inv vec s' \<and> armed s' \<and> same_queue s s') (resetTimerfd now t s)"
      by (rule ok_res_mono[OF resetTimerfd_fires])
        (use inv Cons x in \<open>auto simp: armed_def same_queue_def\<close>)
    then show ?thesis using True Cons x tm by simp
  next
    case False
    then show ?thesis using Cons x tm assms by (auto simp: armed_def same_queue_def)
  qed
qed

lemma reinserted_calling [simp]:
  "reinserted (s\<lparr>tq_callingExpired := b\<rparr>) = reinserted s" "next_of rnd t (s\<lparr>tq_callingExpired := b\<rparr>) = next_of rnd t s"
  by (simp_all add: fun_eq_iff reinserted_def next_of_def)

text \<open>
  Where the expired timers \<open>E\<close> end up: periodic ones that no callback cancelled are queued
  again for one interval later, the others are destroyed.
\<close>

definition requeue_post :: "(rat \<Rightarrow> rat) \<Rightarrow> timestamp \<Rightarrow> ptr list \<Rightarrow> 'z tloop_scheme \<Rightarrow> 'z tloop_scheme \<Rightarrow> bool" where
  "requeue_post rnd now E s s' \<longleftrightarrow>
     set (tq_timers s') = set (tq_timers s) \<union> (\<lambda>p. (next_of rnd now s p, p)) ` {p \<in> set E. reinserted s p} \<and>
     (\<forall>p. tq_heap s' p = (if p \<notin> set E then tq_heap s p
        else if reinserted s p then Some ((the (tq_heap s p))\<lparr>tm_expiration := next_of rnd now s p\<rparr>)
        else None))"

lemma armed_after_reset:
  assumes arm: "armed_upto 0 s" and srt: "sorted (map fst (tq_timers s))"
    and post: "reset_post rnd now E s s'" and now: "0 < now" and rnd: "\<And>x. 0 \<le> x \<Longrightarrow> 0 \<le> rnd x"
    and inv: "tq_inv vec s" and E: "set E \<subseteq> set vec"
    and head: "tq_timers s' \<noteq> []" "\<not> ts_valid (fst (hd (tq_timers s')))"
  shows "fires_by s' (fst (hd (tq_timers s')))"
proof -
  let ?h = "hd (tq_timers s')"
  have le: "fst ?h \<le> 0" using head(2) by (simp add: ts_valid_def)
  have pos: "0 < next_of rnd now s p" if "reinserted s p" for p
  proof -
    have "0 < tm_interval (the (tq_heap s p))" using that inv by (auto simp: reinserted_def tq_inv_def)
    then have "0 \<le> rnd (tm_interval (the (tq_heap s p)) * of_int NanosecondsRatio)"
      by (intro rnd) (simp add: NanosecondsRatio_def)
    then have "0 \<le> truncq (rnd (tm_interval (the (tq_heap s p)) * of_int NanosecondsRatio))"
      by (simp add: truncq_def)
    with now show ?thesis by (simp add: next_of_def)
  qed
  have "?h \<in> set (tq_timers s) \<union> (\<lambda>p. (next_of rnd now s p, p)) ` {p \<in> set E. reinserted s p}"
    using hd_in_set[OF head(1)] post unfolding reset_post_def by simp
  moreover have "?h \<notin> (\<lambda>p. (next_of rnd now s p, p)) ` {p \<in> set E. reinserted s p}"
  proof
    assume "?h \<in> (\<lambda>p. (next_of rnd now s p, p)) ` {p \<in> set E. reinserted s p}"
    then obtain p where "?h = (next_of rnd now s p, p)" "reinserted s p" by (elim imageE) simp
    with le pos[of p] show False by simp
  qed
  ultimately have "?h \<in> set (tq_timers s)" by (elim UnE) simp_all
  then have "tq_timers s \<noteq> []" "fst (hd (tq_timers s)) \<le> fst ?h"
    using srt by (cases "tq_timers s"; auto)+
  then have "fires_by s (fst ?h)"
    using arm le by (auto simp: armed_upto_def intro: fires_by_mono)
  then show ?thesis
    using fires_by_cong[of s' s] post by (simp add: reset_post_def)
qed

lemma reset_and_delete_ok:
  assumes inv: "tq_inv (E @ vec) s" and arm: "armed_upto 0 s" and now: "0 < now"
    and rnd: "\<And>x. 0 \<le> x \<Longrightarrow> 0 \<le> rnd x"
  shows "ok_res (\<lambda>s'. tq_inv vec s' \<and> armed s' \<and> tq_callingExpired s' = tq_callingExpired s \<and>
      el_pending s' = el_pending s \<and> tq_timerfd s' = tq_timerfd s \<and>
      requeue_post rnd now E s s')
    (bindr (resetExpirationTimers rnd now' E now s) (\<lambda>(s3, left). fold_res Timer_delete left s3))" (is "ok_res ?post _")
proof -
  have inv0: "tq_inv (E @ [] @ vec) s" using inv by simp
  have srt: "sorted (map fst (tq_timers s))" using inv by (simp add: tq_inv_def)
  define after :: "'a tloop_scheme \<Rightarrow> 'a tloop_scheme result" where
    "after u = bindr (case tq_timers u of [] \<Rightarrow> Inr ts_invalid
          | (_, p) # _ \<Rightarrow> bindr (deref (tq_heap u) p) (\<lambda>tm. Inr (tm_expiration tm)))
        (\<lambda>e. if ts_valid e then resetTimerfd now' e u else Inr u)" for u
  have "ok_res ?post (bindr (fold_res (reset_one rnd now) E (s, []))
      (\<lambda>(s1, left). bindr (after s1) (fold_res Timer_delete left)))"
  proof (rule ok_res_bindr[OF reset_fold_ok[OF inv0, of rnd now]])
    fix st
    assume st0: "case st of (s', left') \<Rightarrow> reset_post rnd now E s s' \<and>
      left' = [] @ filter (\<lambda>p. \<not> reinserted s p) E \<and> tq_inv (left' @ vec) s'"
    let ?left = "filter (\<lambda>p. \<not> reinserted s p) E"
    obtain s1 where st: "st = (s1, ?left)" and post: "reset_post rnd now E s s1" and inv1: "tq_inv (?left @ vec) s1"
      using st0 by (cases st) auto
    have "tq_timers s1 \<noteq> [] \<longrightarrow> \<not> ts_valid (fst (hd (tq_timers s1))) \<longrightarrow> fires_by s1 (fst (hd (tq_timers s1)))"
      using armed_after_reset[OF arm srt post now rnd inv] by auto
    from resetTimerfd_post[OF this inv1, of now'] have
      ok: "ok_res (\<lambda>u. tq_inv (?left @ vec) u \<and> armed u \<and> same_queue s1 u) (after s1)"
      by (simp add: after_def)
    have "ok_res ?post (bindr (after s1) (fold_res Timer_delete ?left))"
    proof (rule ok_res_bindr[OF ok])
      fix u
      assume u: "tq_inv (?left @ vec) u \<and> armed u \<and> same_queue s1 u"
      then obtain v where v: "fold_res Timer_delete ?left u = Inr v" "tq_inv vec v"
        "v = u\<lparr>tq_count := tq_count u - int (length ?left), tq_heap := (\<lambda>p. if p \<in> set ?left then None else tq_heap u p)\<rparr>"
        using Timer_delete_fold by blast
      have "armed v" using u v(3) fires_by_cong[of v u] by (simp add: armed_def)
      with u v post show "ok_res ?post (fold_res Timer_delete ?left u)"
        by (auto simp: same_queue_def reset_post_def requeue_post_def)
    qed
    then show "ok_res ?post (case st of (s1, left) \<Rightarrow> bindr (after s1) (fold_res Timer_delete left))"
      by (simp add: st)
  qed
  moreover have r: "resetExpirationTimers rnd now' E now s = bindr (fold_res (reset_one rnd now) E (s, []))
      (\<lambda>(s1, left). bindr (after s1) (\<lambda>s2. Inr (s2, left)))"
    unfolding resetExpirationTimers_def after_def
    by (intro arg_cong[where f = "bindr _"] ext) (auto simp: bindr_assoc bindr_if split: prod.splits intro!: arg_cong[where f = "bindr _"])
  moreover have "bindr (resetExpirationTimers rnd now' E now s) (\<lambda>(s3, left). fold_res Timer_delete left s3) =
      bindr (fold_res (reset_one rnd now) E (s, []))
        (\<lambda>(s1, left). bindr (after s1) (fold_res Timer_delete left))"
    by (simp add: r bindr_assoc split_def)
  ultimately show ?thesis by (simp only:)
qed

text \<open>
  The contract between the queue and the functions it calls, and what the queue
  guarantees under it.
\<close>

locale timer_callbacks =
  fixes run :: "task \<Rightarrow> 'z tloop_scheme \<Rightarrow> 'z tloop_scheme result"
  assumes run_ok: "tq_inv vec s \<Longrightarrow> ok_res (\<lambda>s'. tq_inv vec s' \<and> tq_frame vec s s') (run f s)"
begin

lemma run_expired:
  assumes "tq_inv vec s" and "set E \<subseteq> set vec"
  shows "ok_res (\<lambda>s'. tq_inv vec s' \<and> tq_frame vec s s') (fold_res (Timer_run run) E s)"
proof (rule ok_res_fold)
  fix p u
  assume p: "p \<in> set E" and u: "tq_inv vec u \<and> tq_frame vec s u"
  have "\<exists>tm. tq_heap u p = Some tm" using p u assms(2) by (auto simp: tq_inv_def)
  then obtain tm where tm: "tq_heap u p = Some tm" by blast
  show "ok_res (\<lambda>s'. tq_inv vec s' \<and> tq_frame vec s s') (Timer_run run p u)"
  proof (cases "tm_callback tm")
    case None
    then show ?thesis using u tm by (simp add: Timer_run_def)
  next
    case (Some f)
    have "ok_res (\<lambda>s'. tq_inv vec s' \<and> tq_frame vec s s') (run f u)"
      by (rule ok_res_mono[OF run_ok, of vec]) (use u in \<open>auto intro: tq_frame_trans\<close>)
    then show ?thesis using Some tm by (simp add: Timer_run_def)
  qed
qed (use assms in simp)

lemma timerReadingCallback_ok:
  assumes inv: "tq_inv vec s" and now: "0 < now" and rnd: "\<And>x. 0 \<le> x \<Longrightarrow> 0 \<le> rnd x"
  shows "ok_res (\<lambda>s'. tq_inv vec s' \<and> \<not> tq_callingExpired s' \<and>
      inserts_of (el_pending s') = inserts_of (el_pending s) \<and> armed s' \<and>
      (let E = map snd (takeWhile (\<lambda>x. fst x \<le> now) (tq_timers s)) in
       \<exists>s1 s2. fold_res (Timer_run run) E s1 = Inr s2 \<and>
         tq_heap s1 = tq_heap s \<and> tq_timers s1 = dropWhile (\<lambda>x. fst x \<le> now) (tq_timers s) \<and>
         tq_callingExpired s1 \<and> tq_canceling s1 = {} \<and> tq_inv (E @ vec) s1 \<and>
         requeue_post rnd now E s2 s'))
    (timerReadingCallback rnd True now now' run s)" (is "ok_res ?post _")
proof -
  let ?s0 = "sys_call (SysTimerfdRead (tq_timerfd s)) s"
  let ?E = "map snd (takeWhile (\<lambda>x. fst x \<le> now) (tq_timers s))"
  have "tq_inv vec ?s0" using inv by simp
  then obtain s1 A where s1: "getAllExpirationTimer now ?s0 = Inr (?E, s1)" "tq_inv (?E @ vec) s1"
      "s1 = ?s0\<lparr>tq_timers := dropWhile (\<lambda>x. fst x \<le> now) (tq_timers s), tq_active := A\<rparr>"
    by (rule getAllExpirationTimer_ok[of vec ?s0 now]) auto
  let ?s1 = "s1\<lparr>tq_callingExpired := True, tq_canceling := {}\<rparr>"
  have inv1: "tq_inv (?E @ vec) ?s1" by (rule tq_inv_cong[OF s1(2)]) simp_all
  have "fst x > now" if "x \<in> set (tq_timers ?s1)" for x
    using that inv sorted_takeWhile_dropWhile(2)[of "tq_timers s" x now] s1(3) by (simp add: tq_inv_def)
  then have arm1: "armed_upto 0 ?s1"
    using now hd_in_set[of "tq_timers ?s1"] by (fastforce simp: armed_upto_def)
  have "ok_res ?post (bindr (fold_res (Timer_run run) ?E ?s1)
     (\<lambda>s2. bindr (resetExpirationTimers rnd now' ?E now (s2\<lparr>tq_callingExpired := False\<rparr>))
        (\<lambda>(s3, left). fold_res Timer_delete left s3)))"
  proof (rule ok_res_bindr[OF run_expired[OF inv1]])
    fix s2
    assume "tq_inv (?E @ vec) s2 \<and> tq_frame (?E @ vec) ?s1 s2" and run: "fold_res (Timer_run run) ?E ?s1 = Inr s2"
    then have inv2: "tq_inv (?E @ vec) s2" and frame: "tq_frame (?E @ vec) ?s1 s2" by auto
    show "ok_res ?post (bindr (resetExpirationTimers rnd now' ?E now (s2\<lparr>tq_callingExpired := False\<rparr>))
        (\<lambda>(s3, left). fold_res Timer_delete left s3))"
    proof (rule ok_res_mono[OF reset_and_delete_ok[of ?E vec _ now rnd]])
      show "tq_inv (?E @ vec) (s2\<lparr>tq_callingExpired := False\<rparr>)"
        by (rule tq_inv_cong[OF inv2]) simp_all
      show "armed_upto 0 (s2\<lparr>tq_callingExpired := False\<rparr>)"
        using frame arm1 fires_by_cong[of "s2\<lparr>tq_callingExpired := False\<rparr>" s2]
        by (simp add: tq_frame_def armed_upto_def)
    next
      fix v :: "'z tloop_scheme"
      assume v: "tq_inv vec v \<and> armed v \<and> tq_callingExpired v = tq_callingExpired (s2\<lparr>tq_callingExpired := False\<rparr>) \<and>
        el_pending v = el_pending (s2\<lparr>tq_callingExpired := False\<rparr>) \<and>
        tq_timerfd v = tq_timerfd (s2\<lparr>tq_callingExpired := False\<rparr>) \<and>
        requeue_post rnd now ?E (s2\<lparr>tq_callingExpired := False\<rparr>) v"
      have "tq_heap ?s1 = tq_heap s" "tq_callingExpired ?s1" "tq_canceling ?s1 = {}"
        "tq_timers ?s1 = dropWhile (\<lambda>x. fst x \<le> now) (tq_timers s)"
        "inserts_of (el_pending v) = inserts_of (el_pending s)"
        using s1(3) v frame by (simp_all add: tq_frame_def)
      with v run show "?post v"
        unfolding Let_def by (intro conjI exI[of _ ?s1] exI[of _ s2] inv1) (simp_all add: requeue_post_def)
    qed (use now rnd in auto)
  qed simp
  then show ?thesis
    using s1(1) by (simp add: timerReadingCallback_def assertInLoopThread_def)
qed

end

definition timer_exec :: "(task \<Rightarrow> 'z tloop_scheme \<Rightarrow> 'z tloop_scheme result) \<Rightarrow> (ptr \<Rightarrow> timestamp) \<Rightarrow>
    task \<Rightarrow> 'z tloop_scheme \<Rightarrow> 'z tloop_scheme result" where
  "timer_exec run clk f s =
     (case f of
        FnInsertTimer p \<Rightarrow> insertInLoop True (clk p) p s
      | FnCancelTimer i \<Rightarrow> cancelInLoop True i s
      | _ \<Rightarrow> run f s)"

lemma tq_frame_subset: "tq_frame vec s t \<Longrightarrow> set vec' \<subseteq> set vec \<Longrightarrow> tq_frame vec' s t"
  unfolding tq_frame_def by blast

context timer_callbacks begin

lemma exec_one:
  assumes inv: "tq_inv (insert_ptr f @ vec) s"
  shows "ok_res (\<lambda>s'. tq_inv vec s' \<and> tq_frame vec s s') (timer_exec run clk f s)"
proof -
  have r: "ok_res (\<lambda>s'. tq_inv vec s' \<and> tq_frame vec s s') (run f s)" if "insert_ptr f = []"
    using run_ok[of vec s f] inv that by simp
  have i: "ok_res (\<lambda>s'. tq_inv vec s' \<and> tq_frame vec s s') (insertInLoop True (clk p) p s)"
    if "f = FnInsertTimer p" for p
    by (rule ok_res_mono[OF insertInLoop_frame[of p vec s]]) (use inv that in auto)
  have c: "ok_res (\<lambda>s'. tq_inv vec s' \<and> tq_frame vec s s') (cancelInLoop True k s)"
    if "f = FnCancelTimer k" for k
    by (rule ok_res_mono[OF cancelInLoop_frame[of vec s]]) (use inv that in auto)
  show ?thesis using r i c by (cases f) (simp_all add: timer_exec_def)
qed

lemma exec_batch:
  assumes "tq_inv (inserts_of fs @ vec) s"
  shows "ok_res (\<lambda>s'. tq_inv vec s' \<and> tq_frame vec s s') (fold_res (timer_exec run clk) fs s)"
  using assms
proof (induction fs arbitrary: s)
  case (Cons f fs)
  have "tq_inv (insert_ptr f @ inserts_of fs @ vec) s" using Cons.prems by simp
  then have one: "ok_res (\<lambda>t. tq_inv (inserts_of fs @ vec) t \<and> tq_frame (inserts_of fs @ vec) s t)
      (timer_exec run clk f s)" by (rule exec_one)
  show ?case
    unfolding fold_res.simps
  proof (rule ok_res_bindr[OF one])
    fix t
    assume t: "tq_inv (inserts_of fs @ vec) t \<and> tq_frame (inserts_of fs @ vec) s t"
    have st: "tq_frame vec s t" by (rule tq_frame_subset) (use t in auto)
    show "ok_res (\<lambda>s'. tq_inv vec s' \<and> tq_frame vec s s') (fold_res (timer_exec run clk) fs t)"
      by (rule ok_res_mono[OF Cons.IH]) (use t st in \<open>auto intro: tq_frame_trans\<close>)
  qed
qed simp

lemma pending_ok:
  assumes "tq_inv (inserts_of (el_pending s)) s" and "armed s" and "\<not> tq_callingExpired s"
  shows "ok_res (\<lambda>s'. tq_inv (inserts_of (el_pending s')) s' \<and> armed s' \<and> \<not> tq_callingExpired s')
    (doPendingFunctions (timer_exec run clk) s)"
proof -
  let ?s = "s\<lparr>el_calling := True, el_pending := []\<rparr>"
  have "armed ?s" using assms(2) fires_by_cong[of ?s s] by (simp add: armed_def)
  then have arm: "armed_upto z ?s" for z by (simp add: armed_iff)
  have inv: "tq_inv (inserts_of (el_pending s) @ []) ?s"
    using assms(1) by (auto intro: tq_inv_cong)
  have "ok_res (\<lambda>s'. tq_inv (inserts_of (el_pending s')) s' \<and> armed s' \<and> \<not> tq_callingExpired s')
    (bindr (fold_res (timer_exec run clk) (el_pending s) ?s) (\<lambda>s3. Inr (s3\<lparr>el_calling := False\<rparr>)))"
  proof (rule ok_res_bindr[OF exec_batch[OF inv]])
    fix t
    assume t: "tq_inv [] t \<and> tq_frame [] ?s t"
    let ?t = "t\<lparr>el_calling := False\<rparr>"
    have "armed t" using t arm by (simp add: tq_frame_def armed_iff)
    then have "armed ?t" using fires_by_cong[of ?t t] by (simp add: armed_def)
    moreover have "tq_inv [] ?t" using t by (auto intro: tq_inv_cong)
    ultimately show "ok_res (\<lambda>s'. tq_inv (inserts_of (el_pending s')) s' \<and> armed s' \<and> \<not> tq_callingExpired s')
        (Inr ?t)"
      using t assms(3) by (simp add: tq_frame_def)
  qed
  then show ?thesis by (simp add: doPendingFunctions_def)
qed

end

section \<open>The queue under any use\<close>

text \<open>
  A callback of the application is modelled by the calls it makes on the timers of its
  loop, which may depend on the state it is entered in.
\<close>

definition run_user :: "(task \<Rightarrow> 'z tloop_scheme \<Rightarrow> timer_call list) \<Rightarrow> task \<Rightarrow>
    'z tloop_scheme \<Rightarrow> 'z tloop_scheme result" where
  "run_user user f s = fold_res (run_timer_call True) (user f s) s"

interpretation user_timers: timer_callbacks "run_user user"
proof
  fix vec f and s :: "'a tloop_scheme"
  assume inv: "tq_inv vec s"
  show "ok_res (\<lambda>s'. tq_inv vec s' \<and> tq_frame vec s s') (run_user user f s)"
    unfolding run_user_def
  proof (rule ok_res_fold)
    fix c u
    assume u: "tq_inv vec u \<and> tq_frame vec s u"
    show "ok_res (\<lambda>s'. tq_inv vec s' \<and> tq_frame vec s s') (run_timer_call True c u)"
      by (rule ok_res_mono[OF run_timer_call_in_loop, of vec]) (use u in \<open>auto intro: tq_frame_trans\<close>)
  qed (use inv in simp)
qed

text \<open>A cancel of an expired timer, from a callback of the round, is remembered.\<close>

lemma cancel_in_flight:
  assumes inv: "tq_inv vec u" and p: "snd i \<in> set vec" and calling: "tq_callingExpired u"
  shows "ok_res (\<lambda>s'. snd i \<in> tq_canceling s') (run_timer_call True (TcCancel i) u)"
proof -
  have "i \<notin> tq_active u"
  proof
    assume "i \<in> tq_active u"
    then obtain t where "(t, snd i) \<in> set (tq_timers u)" using tq_active_iff[OF inv] by blast
    then have "snd i \<in> snd ` set (tq_timers u)" by (metis image_eqI snd_conv)
    with p inv show False by (auto simp: tq_inv_def)
  qed
  then show ?thesis
    using cancelInLoop_ok[OF inv, of i] calling
    by (auto simp: run_timer_call_def TimerQueue_cancel_def runInLoop_def)
qed

lemma cancelled_by_callback:
  assumes inv: "tq_inv vec s" and E: "set E \<subseteq> set vec" and p: "p \<in> set E"
    and tm: "tq_heap s p = Some tm" "tm_callback tm = Some f" and calling: "tq_callingExpired s"
    and cancels: "\<And>u. TcCancel i \<in> set (user f u)" and i: "snd i = p"
  shows "ok_res (\<lambda>s'. p \<in> tq_canceling s') (fold_res (Timer_run (run_user user)) E s)"
proof -
  let ?P = "\<lambda>u. tq_inv vec u \<and> tq_frame vec s u" and ?Q = "\<lambda>u. p \<in> tq_canceling u"
  have pvec: "p \<in> set vec" using p E by blast
  have call: "ok_res ?P (run_timer_call True c u)" "?Q u \<Longrightarrow> ok_res ?Q (run_timer_call True c u)" if "?P u" for c u
    by (rule ok_res_mono[OF run_timer_call_in_loop[of vec u]],
        use that in \<open>auto simp: tq_frame_def intro: tq_frame_trans\<close>)+
  have one: "ok_res ?P (Timer_run (run_user user) q u) \<and> (?Q u \<longrightarrow> ok_res ?Q (Timer_run (run_user user) q u))"
    if u: "?P u" and q: "q \<in> set E" for q u
  proof -
    have r: "ok_res (\<lambda>s'. tq_inv vec s' \<and> tq_frame vec u s') (fold_res (Timer_run (run_user user)) [q] u)"
      using user_timers.run_expired[of vec u "[q]"] u q E by auto
    then have r: "ok_res (\<lambda>s'. tq_inv vec s' \<and> tq_frame vec u s') (Timer_run (run_user user) q u)"
      by (cases "Timer_run (run_user user) q u") auto
    have "ok_res ?P (Timer_run (run_user user) q u)"
      by (rule ok_res_mono[OF r]) (use u in \<open>auto intro: tq_frame_trans\<close>)
    moreover have "ok_res ?Q (Timer_run (run_user user) q u)" if "?Q u"
      by (rule ok_res_mono[OF r]) (use that in \<open>auto simp: tq_frame_def\<close>)
    ultimately show ?thesis by blast
  qed
  have hit: "ok_res ?Q (Timer_run (run_user user) p u)" if u: "?P u" for u
  proof -
    have "tq_heap u p = Some tm" "tq_callingExpired u"
      using u tm calling pvec by (simp_all add: tq_frame_def)
    have "ok_res (\<lambda>u. ?P u \<and> ?Q u) (fold_res (run_timer_call True) (user f u) u)"
    proof (rule ok_res_fold_hit[where x = "TcCancel i"])
      fix w
      assume "?P w"
      then show "ok_res ?Q (run_timer_call True (TcCancel i) w)"
        using cancel_in_flight[of vec w i] i pvec calling by (simp add: tq_frame_def)
    qed (use call u cancels in auto)
    then have "ok_res ?Q (fold_res (run_timer_call True) (user f u) u)" by (rule ok_res_mono) simp
    then show ?thesis using \<open>tq_heap u p = Some tm\<close> tm(2) by (simp add: Timer_run_def run_user_def)
  qed
  have "ok_res (\<lambda>u. ?P u \<and> ?Q u) (fold_res (Timer_run (run_user user)) E s)"
    by (rule ok_res_fold_hit[where x = p]) (use one inv hit p in auto)
  then show ?thesis by (rule ok_res_mono) simp
qed

datatype timer_op =
    OpCall bool timer_call
  | OpExpire timestamp timestamp
  | OpPending "ptr \<Rightarrow> timestamp"

definition run_timer_op :: "(rat \<Rightarrow> rat) \<Rightarrow> (task \<Rightarrow> 'z tloop_scheme \<Rightarrow> timer_call list) \<Rightarrow> timer_op \<Rightarrow>
    'z tloop_scheme \<Rightarrow> 'z tloop_scheme result" where
  "run_timer_op rnd user oper s =
     (case oper of
        OpCall inLoop c \<Rightarrow> run_timer_call inLoop c s
      | OpExpire now now_reset \<Rightarrow> timerReadingCallback rnd True now now_reset (run_user user) s
      | OpPending clk \<Rightarrow> doPendingFunctions (timer_exec (run_user user) clk) s)"

fun op_time_ok :: "timer_op \<Rightarrow> bool" where
  "op_time_ok (OpExpire now now_reset) = (0 < now)"
| "op_time_ok _ = True"

inductive timer_step :: "(rat \<Rightarrow> rat) \<Rightarrow> (task \<Rightarrow> tloop \<Rightarrow> timer_call list) \<Rightarrow> tloop \<Rightarrow> tloop \<Rightarrow> bool"
  for rnd user where
  "run_timer_op rnd user oper s = Inr t \<Longrightarrow> op_time_ok oper \<Longrightarrow> timer_step rnd user s t"

definition timer_start :: "tloop \<Rightarrow> bool" where
  "timer_start s \<longleftrightarrow> tq_timers s = [] \<and> tq_active s = {} \<and> tq_heap s = Map.empty \<and>
     inserts_of (el_pending s) = [] \<and> \<not> tq_callingExpired s"

definition timer_sys_inv :: "tloop \<Rightarrow> bool" where
  "timer_sys_inv s \<longleftrightarrow> tq_inv (inserts_of (el_pending s)) s \<and> armed s \<and> \<not> tq_callingExpired s"

lemma tq_inv_queueInLoop [simp]: "tq_inv vec (queueInLoop b f s) = tq_inv vec s"
  by (simp add: tq_inv_def queueInLoop_def queue_push_def wakeup_def)

lemma armed_queueInLoop [simp]:
  "armed s \<Longrightarrow> armed (queueInLoop b f s)" "tq_callingExpired (queueInLoop b f s) = tq_callingExpired s"
  by (simp_all add: armed_def queueInLoop_def queue_push_def wakeup_def fires_by_def timerfd_state_def)

lemma run_timer_call_other:
  assumes inv: "timer_sys_inv s"
  shows "ok_res timer_sys_inv (run_timer_call False c s)"
proof (cases c)
  case (TcInsert now p cb "when" interval)
  show ?thesis
  proof (cases "tq_heap s p")
    case None
    obtain s1 where s1: "Timer_new p cb when interval s = Inr ((tq_count s + 1, p), s1)"
      "tq_inv (p # inserts_of (el_pending s)) s1"
      "s1 = s\<lparr>tq_count := tq_count s + 1, tq_heap := (tq_heap s)(p \<mapsto>
        \<lparr>tm_callback = cb, tm_expiration = when, tm_interval = interval, tm_repeat = (interval > 0),
         tm_id = (tq_count s + 1, p)\<rparr>)\<rparr>"
      using Timer_new_ok[OF _ None] inv timer_sys_inv_def by blast
    have "armed s1" using inv s1(3) fires_by_cong[of s1 s] by (simp add: timer_sys_inv_def armed_def)
    moreover have "tq_inv (inserts_of (el_pending s) @ [p]) s1"
      by (rule tq_inv_perm[OF s1(2)]) simp
    moreover have "el_pending s1 = el_pending s" "\<not> tq_callingExpired s1"
      using s1(3) inv by (simp_all add: timer_sys_inv_def)
    ultimately show ?thesis
      using s1(1) TcInsert
      by (simp add: timer_sys_inv_def run_timer_call_def TimerQueue_insert_def runInLoop_def)
  next
    case (Some tm)
    then show ?thesis
      using TcInsert by (simp add: run_timer_call_def TimerQueue_insert_def Timer_new_def env_fault_def)
  qed
next
  case (TcCancel i)
  then show ?thesis
    using inv by (simp add: run_timer_call_def TimerQueue_cancel_def runInLoop_def timer_sys_inv_def)
qed

lemma run_timer_op_ok:
  assumes inv: "timer_sys_inv s" and ok: "op_time_ok oper" and rnd: "\<And>x. 0 \<le> x \<Longrightarrow> 0 \<le> rnd x"
  shows "ok_res timer_sys_inv (run_timer_op rnd user oper s)"
proof (cases oper)
  case (OpCall inLoop c)
  show ?thesis
  proof (cases inLoop)
    case True
    have "ok_res timer_sys_inv (run_timer_call True c s)"
      by (rule ok_res_mono[OF run_timer_call_in_loop[of "inserts_of (el_pending s)"]])
        (use inv in \<open>auto simp: timer_sys_inv_def tq_frame_def armed_iff\<close>)
    then show ?thesis using OpCall True by (simp add: run_timer_op_def)
  next
    case False
    then show ?thesis using OpCall run_timer_call_other[OF inv] by (simp add: run_timer_op_def)
  qed
next
  case (OpExpire now now_reset)
  have "ok_res timer_sys_inv (timerReadingCallback rnd True now now_reset (run_user user) s)"
    by (rule ok_res_mono[OF user_timers.timerReadingCallback_ok[of "inserts_of (el_pending s)"]])
      (use inv ok OpExpire rnd in \<open>auto simp: timer_sys_inv_def\<close>)
  then show ?thesis using OpExpire by (simp add: run_timer_op_def)
next
  case (OpPending clk)
  have "ok_res timer_sys_inv (doPendingFunctions (timer_exec (run_user user) clk) s)"
    by (rule ok_res_mono[OF user_timers.pending_ok]) (use inv in \<open>auto simp: timer_sys_inv_def\<close>)
  then show ?thesis using OpPending by (simp add: run_timer_op_def)
qed

lemma timer_start_inv: "timer_start s \<Longrightarrow> timer_sys_inv s"
  by (simp add: timer_start_def timer_sys_inv_def tq_inv_def armed_def)

lemma timer_reach_inv:
  assumes "reach timer_start (timer_step rnd user) s" and rnd: "\<And>x. 0 \<le> x \<Longrightarrow> 0 \<le> rnd x"
  shows "timer_sys_inv s"
  using assms(1)
proof (induction rule: reach.induct)
  case (reach_step s t)
  from reach_step(2) obtain oper where "run_timer_op rnd user oper s = Inr t" "op_time_ok oper"
    by (auto elim: timer_step.cases)
  with run_timer_op_ok[where oper = oper and rnd = rnd and user = user, OF reach_step(3) _ rnd]
  show ?case by (simp add: ok_resD)
qed (rule timer_start_inv)

section \<open>Properties\<close>

text \<open>C3. Timers never corrupt the queue: in every state that any sequence of inserts and cancels (from the
  loop or from other threads), expirations (with callbacks that insert and cancel timers
  themselves) and runs of the pending functions can reach, the next such operation passes all
  its assertions and touches no destroyed timer; it can only fail for lack of memory or for
  times beyond 64 bits.\<close>

theorem timer_operations_never_fail:
  assumes "reach timer_start (timer_step rnd user) s" and "op_time_ok oper"
    and "\<And>x. 0 \<le> x \<Longrightarrow> 0 \<le> rnd x"
  shows "case run_timer_op rnd user oper s of
      Inl e \<Rightarrow> e \<in> {BadAlloc, LengthError, SignedOverflow}
    | Inr s' \<Rightarrow> length (tq_timers s') = card (tq_active s') \<and> sorted (map fst (tq_timers s'))"
proof -
  have ok: "ok_res timer_sys_inv (run_timer_op rnd user oper s)"
    by (rule run_timer_op_ok[OF timer_reach_inv[OF assms(1,3)] assms(2,3)])
  show ?thesis
  proof (cases "run_timer_op rnd user oper s")
    case (Inl e)
    then show ?thesis using ok by (auto simp: env_fault_def)
  next
    case (Inr t)
    then have inv: "tq_inv (inserts_of (el_pending t)) t"
      using ok by (simp add: timer_sys_inv_def)
    then show ?thesis using Inr tq_inv_sizes[OF inv] by (simp add: sizes_agree_def tq_inv_def)
  qed
qed

definition fresh_loop :: tloop where
  "fresh_loop = (raw_loop Map.empty 0)\<lparr>tq_timerfd := 4, tq_chan := 2, el_wakeupFd := 5, el_wakeupChan := 3\<rparr>"

lemma fresh_loop_start: "reach timer_start (timer_step rnd user) fresh_loop"
  by (rule reach_start) (simp add: timer_start_def fresh_loop_def raw_loop_def)

theorem timer_operations_never_fail_witness:
  "\<exists>s'. run_timer_op (\<lambda>x. x) (\<lambda>_ _. []) (OpCall True (TcInsert 10 77 None 500 0)) fresh_loop = Inr s' \<and>
    length (tq_timers s') = card (tq_active s') \<and> tq_timers s' = [(500, 77)]"
proof -
  have "\<exists>s'. run_timer_op (\<lambda>x. x) (\<lambda>_ _. []) (OpCall True (TcInsert 10 77 None 500 0)) fresh_loop = Inr s' \<and>
      tq_timers s' = [(500, 77)]"
    by (simp add: run_timer_op_def run_timer_call_def TimerQueue_insert_def Timer_new_def fresh_loop_def
        raw_loop_def runInLoop_def insertInLoop_def assertInLoopThread_def tq_insert_def sizes_agree_def
        mm_emplace_def resetTimerfd_def intervalFromNow_def int64_range_def sys_call_def)
  with timer_operations_never_fail[of "\<lambda>x. x" "\<lambda>_ _. []" fresh_loop "OpCall True (TcInsert 10 77 None 500 0)",
      OF fresh_loop_start]
  show ?thesis by fastforce
qed

text \<open>C18. Whatever was done to the queue before, while a timer is queued the timer descriptor is set to
  fire no later than the first expiration (or one microsecond after it was set, when that
  expiration had already passed): no timer is ever forgotten.\<close>

theorem timerfd_armed_for_first:
  assumes "reach timer_start (timer_step rnd user) s" and "\<And>x. 0 \<le> x \<Longrightarrow> 0 \<le> rnd x"
    and "(t, p) \<in> set (tq_timers s)"
  shows "\<exists>now d. timerfd_state (tq_timerfd s) (rx_trace s) = Some (now, d) \<and> d \<le> max t (now + 1000)"
proof -
  have inv: "timer_sys_inv s" by (rule timer_reach_inv[OF assms(1,2)])
  then have srt: "sorted (map fst (tq_timers s))" by (simp add: timer_sys_inv_def tq_inv_def)
  have "tq_timers s \<noteq> []" "fst (hd (tq_timers s)) \<le> t"
    using assms(3) srt by (cases "tq_timers s"; fastforce)+
  then have "fires_by s t"
    using inv fires_by_mono[of s "fst (hd (tq_timers s))" t] by (simp add: timer_sys_inv_def armed_def)
  then show ?thesis by (simp add: fires_by_def)
qed

definition one_timer :: tloop where
  "one_timer = fresh_loop\<lparr>rx_trace := [SysTimerfdSettime 4 10 (0, 490)], tq_timers := [(500, 77)],
     tq_active := {(1, 77)}, tq_count := 1,
     tq_heap := [77 \<mapsto> \<lparr>tm_callback = None, tm_expiration = 500, tm_interval = 0, tm_repeat = False, tm_id = (1, 77)\<rparr>]\<rparr>"

lemma one_timer_reach: "reach timer_start (timer_step rnd user) one_timer"
proof (rule reach_step[OF fresh_loop_start])
  have "run_timer_op rnd user (OpCall True (TcInsert 10 77 None 500 0)) fresh_loop = Inr one_timer"
    by (simp add: run_timer_op_def run_timer_call_def TimerQueue_insert_def Timer_new_def fresh_loop_def
        raw_loop_def runInLoop_def insertInLoop_def assertInLoopThread_def tq_insert_def sizes_agree_def
        mm_emplace_def resetTimerfd_def intervalFromNow_def int64_range_def sys_call_def one_timer_def
        NanosecondsRatio_def sdiv_nonneg smod_nonneg)
  then show "timer_step rnd user fresh_loop one_timer" by (rule timer_step.intros) simp
qed

theorem timerfd_armed_for_first_witness:
  "tq_timers one_timer = [(500, 77)] \<and>
   (\<exists>now d. timerfd_state 4 (rx_trace one_timer) = Some (now, d) \<and> d \<le> max 500 (now + 1000))"
  using timerfd_armed_for_first[of "\<lambda>x. x" "\<lambda>_ _. []" one_timer 500 77, OF one_timer_reach]
  by (simp add: one_timer_def fresh_loop_def)

text \<open>C17. One round of expirations runs the callbacks of exactly the timers whose time has come, each
  once and in the order of their times, all of them out of the queue meanwhile; then every
  periodic one that no callback cancelled is queued again one interval after the round's time,
  the other expired ones are destroyed, and no other timer is touched.\<close>

theorem expiry_round:
  assumes "reach timer_start (timer_step rnd user) s" and "0 < now" and rnd: "\<And>x. 0 \<le> x \<Longrightarrow> 0 \<le> rnd x"
    and run: "timerReadingCallback rnd True now now_reset (run_user user) s = Inr s'"
  shows "\<exists>E s1 s2. set E = {p. \<exists>t \<le> now. (t, p) \<in> set (tq_timers s)} \<and> distinct E \<and>
    sorted (map (\<lambda>p. tm_expiration (the (tq_heap s p))) E) \<and>
    set (tq_timers s1) = {(t, p) \<in> set (tq_timers s). now < t} \<and> tq_heap s1 = tq_heap s \<and>
    fold_res (Timer_run (run_user user)) E s1 = Inr s2 \<and> requeue_post rnd now E s2 s'"
proof -
  let ?T = "takeWhile (\<lambda>x. fst x \<le> now) (tq_timers s)"
  let ?E = "map snd ?T"
  have inv: "tq_inv (inserts_of (el_pending s)) s"
    using timer_reach_inv[OF assms(1) rnd] by (simp add: timer_sys_inv_def)
  then have srt: "sorted (map fst (tq_timers s))" and dist: "distinct (map snd (tq_timers s))"
    by (simp_all add: tq_inv_def)
  obtain s1 s2 where r: "fold_res (Timer_run (run_user user)) ?E s1 = Inr s2" "tq_heap s1 = tq_heap s"
      "tq_timers s1 = dropWhile (\<lambda>x. fst x \<le> now) (tq_timers s)" "requeue_post rnd now ?E s2 s'"
    using ok_resD[OF user_timers.timerReadingCallback_ok[OF inv assms(2) rnd] run] by auto
  have setE: "set ?E = {p. \<exists>t \<le> now. (t, p) \<in> set (tq_timers s)}"
    using sorted_takeWhile_dropWhile(1)[OF srt, of _ now] by force
  have "map snd (tq_timers s) = ?E @ map snd (dropWhile (\<lambda>x. fst x \<le> now) (tq_timers s))"
    by (simp flip: map_append)
  then have distE: "distinct ?E" using dist by simp
  have "map (\<lambda>p. tm_expiration (the (tq_heap s p))) ?E = map fst ?T"
    using tq_inv_timer[OF inv] by (fastforce dest: set_takeWhileD)
  then have sortE: "sorted (map (\<lambda>p. tm_expiration (the (tq_heap s p))) ?E)"
    using sorted_map_take_drop[OF srt, of "\<lambda>x. fst x \<le> now"] by (simp only:)
  have "set (tq_timers s1) = {(t, p) \<in> set (tq_timers s). now < t}"
    using sorted_takeWhile_dropWhile(2)[OF srt, of _ now] r(3) by auto
  with setE distE sortE r(1,2,4) show ?thesis by blast
qed

definition one_timer_done :: tloop where
  "one_timer_done = one_timer\<lparr>rx_trace := [SysTimerfdSettime 4 10 (0, 490), SysTimerfdRead 4],
     tq_timers := [], tq_active := {}, tq_count := 0, tq_heap := Map.empty\<rparr>"

lemma one_timer_expires:
  "timerReadingCallback rnd True 600 700 (run_user user) one_timer = Inr one_timer_done"
  by (simp add: timerReadingCallback_def assertInLoopThread_def getAllExpirationTimer_def one_timer_def
      one_timer_done_def fresh_loop_def raw_loop_def sys_call_def erase_active_def sizes_agree_def
      Timer_run_def resetExpirationTimers_def reset_one_def Timer_delete_def ts_invalid_def ts_valid_def)

theorem expiry_round_witness:
  "\<exists>E s1 s2. set E = {77} \<and> distinct E \<and> tq_timers s1 = [] \<and>
    fold_res (Timer_run (run_user (\<lambda>_ _. []))) E s1 = Inr s2 \<and> requeue_post (\<lambda>x. x) 600 E s2 one_timer_done"
proof -
  have "{p. \<exists>t \<le> 600. (t, p) \<in> set (tq_timers one_timer)} = {77}"
    "{(t, p) \<in> set (tq_timers one_timer). 600 < t} = {}"
    by (auto simp: one_timer_def)
  with expiry_round[OF one_timer_reach _ _ one_timer_expires, of "\<lambda>x. x" "\<lambda>_ _. []"]
  show ?thesis by (smt (verit) set_empty2)
qed

text \<open>C22. A timer whose callback cancels it is gone when the round is over, periodic or not: it is not
  queued again and is destroyed exactly once.\<close>

theorem cancel_in_own_callback:
  assumes "reach timer_start (timer_step rnd user) s" and "0 < now" and rnd: "\<And>x. 0 \<le> x \<Longrightarrow> 0 \<le> rnd x"
    and "(t, p) \<in> set (tq_timers s)" and "t \<le> now"
    and tm: "tq_heap s p = Some tm" "tm_callback tm = Some f" and cancels: "\<And>u. TcCancel (tm_id tm) \<in> set (user f u)"
    and run: "timerReadingCallback rnd True now now_reset (run_user user) s = Inr s'"
  shows "tq_heap s' p = None \<and> p \<notin> snd ` set (tq_timers s') \<and> tm_id tm \<notin> tq_active s'"
proof -
  let ?E = "map snd (takeWhile (\<lambda>x. fst x \<le> now) (tq_timers s))"
  let ?vec = "inserts_of (el_pending s)"
  have inv: "tq_inv ?vec s"
    using timer_reach_inv[OF assms(1) rnd] by (simp add: timer_sys_inv_def)
  obtain s1 s2 where r: "fold_res (Timer_run (run_user user)) ?E s1 = Inr s2" "tq_heap s1 = tq_heap s"
      "tq_callingExpired s1" "tq_inv (?E @ ?vec) s1" "requeue_post rnd now ?E s2 s'"
    and inv': "tq_inv ?vec s'"
    using ok_resD[OF user_timers.timerReadingCallback_ok[OF inv assms(2) rnd] run] by auto
  have "(t, p) \<in> set (takeWhile (\<lambda>x. fst x \<le> now) (tq_timers s))"
    using sorted_takeWhile_dropWhile(1)[of "tq_timers s" "(t, p)" now] inv assms(4,5) by (simp add: tq_inv_def)
  then have p: "p \<in> set ?E" by force
  have id: "snd (tm_id tm) = p" using inv tm(1) by (auto simp: tq_inv_def)
  have "ok_res (\<lambda>s'. p \<in> tq_canceling s') (fold_res (Timer_run (run_user user)) ?E s1)"
    by (rule cancelled_by_callback[where i = "tm_id tm" and vec = "?E @ ?vec"]) (use r tm p id cancels in auto)
  then have "p \<in> tq_canceling s2" using r(1) by simp
  then have "tq_heap s' p = None" using r(5) p by (simp add: requeue_post_def reinserted_def)
  moreover from this have "p \<notin> snd ` set (tq_timers s')" using tq_inv_fresh[OF inv'] by blast
  moreover from this have "tm_id tm \<notin> tq_active s'" using tq_active_iff[OF inv'] id by (metis image_eqI snd_conv)
  ultimately show ?thesis by blast
qed

definition self_cancel :: "task \<Rightarrow> 'z tloop_scheme \<Rightarrow> timer_call list" where
  "self_cancel f s = (if f = FnUser 1 then [TcCancel (1, 77)] else [])"

definition periodic_timer :: timer where
  "periodic_timer = \<lparr>tm_callback = Some (FnUser 1), tm_expiration = 500, tm_interval = 1, tm_repeat = True,
     tm_id = (1, 77)\<rparr>"

definition one_periodic :: tloop where
  "one_periodic = one_timer\<lparr>tq_heap := [77 \<mapsto> periodic_timer]\<rparr>"

lemma one_periodic_reach: "reach timer_start (timer_step rnd user) one_periodic"
proof (rule reach_step[OF fresh_loop_start])
  have "run_timer_op rnd user (OpCall True (TcInsert 10 77 (Some (FnUser 1)) 500 1)) fresh_loop = Inr one_periodic"
    by (simp add: run_timer_op_def run_timer_call_def TimerQueue_insert_def Timer_new_def fresh_loop_def
        raw_loop_def runInLoop_def insertInLoop_def assertInLoopThread_def tq_insert_def sizes_agree_def
        mm_emplace_def resetTimerfd_def intervalFromNow_def int64_range_def sys_call_def one_timer_def
        NanosecondsRatio_def sdiv_nonneg smod_nonneg one_periodic_def periodic_timer_def)
  then show "timer_step rnd user fresh_loop one_periodic" by (rule timer_step.intros) simp
qed

lemma one_periodic_expires:
  "\<exists>s'. timerReadingCallback rnd True 600 700 (run_user self_cancel) one_periodic = Inr s'"
  by (simp add: timerReadingCallback_def assertInLoopThread_def getAllExpirationTimer_def one_timer_def
      one_periodic_def periodic_timer_def self_cancel_def run_user_def run_timer_call_def TimerQueue_cancel_def
      runInLoop_def cancelInLoop_def fresh_loop_def raw_loop_def sys_call_def erase_active_def sizes_agree_def
      Timer_run_def resetExpirationTimers_def reset_one_def Timer_delete_def ts_invalid_def ts_valid_def)

theorem cancel_in_own_callback_witness:
  "\<exists>s'. timerReadingCallback (\<lambda>x. x) True 600 700 (run_user self_cancel) one_periodic = Inr s' \<and>
    tq_heap s' 77 = None \<and> (1, 77) \<notin> tq_active s'"
proof -
  obtain s' where s': "timerReadingCallback (\<lambda>x. x) True 600 700 (run_user self_cancel) one_periodic = Inr s'"
    using one_periodic_expires by blast
  have "(500, 77) \<in> set (tq_timers one_periodic)" "tq_heap one_periodic 77 = Some periodic_timer"
    by (simp_all add: one_periodic_def one_timer_def)
  then show ?thesis
    using cancel_in_own_callback[of "\<lambda>x. x" self_cancel one_periodic 600 500 77 periodic_timer "FnUser 1",
        OF one_periodic_reach _ _ _ _ _ _ _ s'] s'
    by (auto simp: self_cancel_def periodic_timer_def)
qed

text \<open>C37. A \<open>TimerId\<close> does not stay unique: \<open>~Timer\<close> gives the number back, so a timer allocated where a
  destroyed one was gets the very same id, and a cancel with the old id removes the new timer.\<close>

theorem stale_timer_id_cancels_new_timer:
  assumes "tq_inv vec s" and "Timer_new p cb1 when1 i1 s = Inr (old, s1)" and "Timer_delete p s1 = Inr s2"
    and "Timer_new p cb2 when2 i2 s2 = Inr (new, s3)" and "insertInLoop True now p s3 = Inr s4"
  shows "new = old \<and> (when2, p) \<in> set (tq_timers s4) \<and>
    (\<exists>s5. cancelInLoop True old s4 = Inr s5 \<and> p \<notin> snd ` set (tq_timers s5))"
proof -
  have none: "tq_heap s p = None" using assms(2) by (cases "tq_heap s p") (simp_all add: Timer_new_def)
  obtain u where u: "Timer_new p cb1 when1 i1 s = Inr ((tq_count s + 1, p), u)" "tq_inv (p # vec) u"
    "tq_count u = tq_count s + 1"
    using Timer_new_ok[OF assms(1) none, of cb1 when1 i1] by auto
  then have s1: "s1 = u" "old = (tq_count s + 1, p)" using assms(2) by auto
  have s2': "tq_inv vec s2" "tq_count s2 = tq_count s" "tq_heap s2 p = None"
    using Timer_delete_ok[OF u(2)] assms(3) s1 u(3) by auto
  obtain w where w: "Timer_new p cb2 when2 i2 s2 = Inr ((tq_count s2 + 1, p), w)" "tq_inv (p # vec) w"
      "\<exists>tm. tq_heap w p = Some tm \<and> tm_expiration tm = when2 \<and> tm_id tm = (tq_count s2 + 1, p)"
    using Timer_new_ok[OF s2'(1,3), of cb2 when2 i2] by auto
  then have s3: "s3 = w" "new = old" using assms(4) s1 s2' by auto
  have s4: "tq_inv vec s4" "(when2, p) \<in> set (tq_timers s4)" "tq_heap s4 = tq_heap w"
    using ok_resD[OF insertInLoop_frame[OF w(2)] assms(5)[unfolded s3(1)]] w(3) by force+
  obtain s5 where s5: "cancelInLoop True old s4 = Inr s5"
    "set (tq_timers s5) = {(t, q) \<in> set (tq_timers s4). old \<noteq> tm_id (the (tq_heap s4 q))}"
    using cancelInLoop_ok[OF s4(1), of old] by blast
  obtain tm where tm: "tq_heap w p = Some tm" "tm_id tm = (tq_count s2 + 1, p)" using w(3) by blast
  have "tm_id (the (tq_heap s4 p)) = old" using tm s4(3) s2'(2) s1(2) by simp
  then have "p \<notin> snd ` set (tq_timers s5)" unfolding s5(2) by auto
  with s3(2) s4(2) s5(1) show ?thesis by blast
qed

theorem stale_timer_id_cancels_new_timer_witness:
  "\<exists>s1 s2 s3. Timer_new 77 None 500 0 fresh_loop = Inr ((1, 77), s1) \<and> Timer_delete 77 s1 = Inr s2 \<and>
    Timer_new 77 (Some (FnUser 2)) 900 5 s2 = Inr ((1, 77), s3) \<and>
    (\<exists>s4 s5. insertInLoop True 10 77 s3 = Inr s4 \<and> cancelInLoop True (1, 77) s4 = Inr s5 \<and>
      77 \<notin> snd ` set (tq_timers s5))"
proof -
  have inv: "tq_inv [] fresh_loop" by (simp add: tq_inv_def fresh_loop_def raw_loop_def)
  obtain s1 s2 s3 s4 where c: "Timer_new 77 None 500 0 fresh_loop = Inr ((1, 77), s1)"
    "Timer_delete 77 s1 = Inr s2" "Timer_new 77 (Some (FnUser 2)) 900 5 s2 = Inr ((1, 77), s3)"
    "insertInLoop True 10 77 s3 = Inr s4"
    by (simp add: Timer_new_def fresh_loop_def raw_loop_def Timer_delete_def insertInLoop_def
        assertInLoopThread_def tq_insert_def sizes_agree_def mm_emplace_def resetTimerfd_def
        intervalFromNow_def int64_range_def)
  from stale_timer_id_cancels_new_timer[OF inv c] c show ?thesis by blast
qed

lemma delete_all:
  assumes "distinct E" and "\<forall>p \<in> set E. tq_heap s p \<noteq> None"
  shows "fold_res Timer_delete E s = Inr (s\<lparr>tq_count := tq_count s - int (length E),
    tq_heap := tq_heap s |` (- set E)\<rparr>)"
  using assms
proof (induction E arbitrary: s)
  case Nil
  then show ?case by (simp add: restrict_map_def)
next
  case (Cons p E)
  let ?s = "s\<lparr>tq_count := tq_count s - 1, tq_heap := (tq_heap s)(p := None)\<rparr>"
  have d: "Timer_delete p s = Inr ?s" using Cons.prems by (auto simp: Timer_delete_def)
  have h: "(tq_heap s)(p := None) |` (- set E) = tq_heap s |` (- set (p # E))"
    by (auto simp: restrict_map_def fun_eq_iff)
  have c: "tq_count s - 1 - int (length E) = tq_count s - int (length (p # E))" by simp
  have ih: "fold_res Timer_delete E ?s = Inr (?s\<lparr>tq_count := tq_count ?s - int (length E),
    tq_heap := tq_heap ?s |` (- set E)\<rparr>)"
    by (rule Cons.IH) (use Cons.prems in auto)
  show ?case unfolding h[symmetric] c[symmetric] fold_res.simps d bindr_simps ih by simp
qed

definition built_loop :: "int \<Rightarrow> ptr \<Rightarrow> int \<Rightarrow> ptr \<Rightarrow> int \<Rightarrow> tloop" where
  "built_loop timerfd tchan wakeupfd wchan n = (raw_loop Map.empty n)\<lparr>
     rx_chans := [tchan \<mapsto> (Channel_make timerfd)\<lparr>ch_readCb := Some CbTimerRead, ch_requested := kReadEvent, ch_state := ADDED\<rparr>,
       wchan \<mapsto> (Channel_make wakeupfd)\<lparr>ch_readCb := Some CbWakeupRead, ch_requested := kReadEvent, ch_state := ADDED\<rparr>],
     rx_channelMap := [timerfd \<mapsto> tchan, wakeupfd \<mapsto> wchan],
     rx_trace := [SysEpollCtl CtlAdd timerfd kReadEvent tchan, SysEpollCtl CtlAdd wakeupfd kReadEvent wchan],
     el_wakeupFd := wakeupfd, el_wakeupChan := wchan, tq_timerfd := timerfd, tq_chan := tchan\<rparr>"

lemma EventLoop_new_eq:
  assumes "timerfd \<noteq> wakeupfd" and "tchan \<noteq> wchan"
  shows "EventLoop_new False timerfd tchan wakeupfd wchan (raw_loop Map.empty n) =
    Inr (built_loop timerfd tchan wakeupfd wchan n)"
  using assms
  by (simp add: EventLoop_new_def TimerQueue_init_def raw_loop_def built_loop_def enableRead_def
      Channel_request_def Channel_update_def Epoll_updateChannel_def Epoll_update_def Channel_put_def
      Channel_make_def sys_call_def)

text \<open>The loop's registrations: nothing the timer queue does in operation touches them.\<close>

definition loop_part :: "'z tloop_scheme \<Rightarrow> (ptr \<Rightarrow> channel option) \<times> (int \<Rightarrow> ptr option) \<times> watch \<times> bool \<times> ptr \<times> int \<times> ptr \<times> int" where
  "loop_part s = (rx_chans s, rx_channelMap s, interest (rx_trace s), ctl_legal (rx_trace s),
     tq_chan s, tq_timerfd s, el_wakeupChan s, el_wakeupFd s)"

lemma loop_part_updates [simp]:
  "loop_part (s\<lparr>tq_heap := h\<rparr>) = loop_part s" "loop_part (s\<lparr>tq_timers := ts\<rparr>) = loop_part s"
  "loop_part (s\<lparr>tq_active := a\<rparr>) = loop_part s" "loop_part (s\<lparr>tq_canceling := c\<rparr>) = loop_part s"
  "loop_part (s\<lparr>tq_callingExpired := b\<rparr>) = loop_part s" "loop_part (s\<lparr>tq_count := n\<rparr>) = loop_part s"
  "loop_part (s\<lparr>el_calling := b\<rparr>) = loop_part s" "loop_part (s\<lparr>el_pending := fs\<rparr>) = loop_part s"
  "loop_part (sys_call (SysTimerfdSettime fd now v) s) = loop_part s"
  "loop_part (sys_call (SysTimerfdRead fd) s) = loop_part s"
  "loop_part (queueInLoop inLoop f s) = loop_part s"
  by (simp_all add: loop_part_def sys_call_def queueInLoop_def queue_push_def wakeup_def)

lemma fold_part:
  assumes "\<And>x s t. f x s = Inr t \<Longrightarrow> loop_part t = loop_part s" and "fold_res f xs s = Inr t"
  shows "loop_part t = loop_part s"
  by (rule fold_res_inv[where P = "\<lambda>t. loop_part t = loop_part s", OF _ refl assms(2)]) (simp add: assms(1))

lemma timer_parts:
  "Timer_new p cb when interval s = Inr (i, t) \<Longrightarrow> loop_part t = loop_part s"
  "Timer_delete p s = Inr t \<Longrightarrow> loop_part t = loop_part s"
  "Timer_restart rnd when p s = Inr t \<Longrightarrow> loop_part t = loop_part s"
  "resetTimerfd now when s = Inr t \<Longrightarrow> loop_part t = loop_part s"
  "tq_insert inLoop p s = Inr (b, t) \<Longrightarrow> loop_part t = loop_part s"
  "erase_active p s = Inr t \<Longrightarrow> loop_part t = loop_part s"
  by (auto simp: Timer_new_def Timer_delete_def Timer_restart_def resetTimerfd_def tq_insert_def erase_active_def
      check_def assertInLoopThread_def bindr_eq_Inr Let_def split: if_splits)

lemma fold_parts:
  "fold_res erase_active ps s = Inr t \<Longrightarrow> loop_part t = loop_part s"
  "fold_res Timer_delete ps s = Inr t \<Longrightarrow> loop_part t = loop_part s"
  by (erule fold_part[rotated], erule timer_parts)+

lemma insertInLoop_part: "insertInLoop inLoop now p s = Inr t \<Longrightarrow> loop_part t = loop_part s"
  by (auto simp: insertInLoop_def check_def assertInLoopThread_def bindr_eq_Inr Let_def dest!: timer_parts split: if_splits)

lemma cancelInLoop_part: "cancelInLoop inLoop i s = Inr t \<Longrightarrow> loop_part t = loop_part s"
  by (auto simp: cancelInLoop_def check_def assertInLoopThread_def bindr_eq_Inr Let_def dest!: timer_parts split: if_splits)

lemma call_part: "run_timer_call inLoop c s = Inr t \<Longrightarrow> loop_part t = loop_part s"
  by (cases c) (auto simp: run_timer_call_def TimerQueue_insert_def TimerQueue_cancel_def runInLoop_def bindr_eq_Inr
      dest!: timer_parts insertInLoop_part cancelInLoop_part split: if_splits)

lemma user_part: "run_user user f s = Inr t \<Longrightarrow> loop_part t = loop_part s"
  unfolding run_user_def by (erule fold_part[rotated], erule call_part)

lemma Timer_run_part: "Timer_run (run_user user) p s = Inr t \<Longrightarrow> loop_part t = loop_part s"
  by (auto simp: Timer_run_def bindr_eq_Inr dest: user_part split: option.splits)

lemma run_parts: "fold_res (Timer_run (run_user user)) ps s = Inr t \<Longrightarrow> loop_part t = loop_part s"
  by (erule fold_part[rotated], erule Timer_run_part)

lemma expired_part: "getAllExpirationTimer now s = Inr (e, t) \<Longrightarrow> loop_part t = loop_part s"
  by (auto simp: getAllExpirationTimer_def check_def bindr_eq_Inr Let_def dest!: fold_parts split: if_splits)

lemma reset_part:
  assumes "resetExpirationTimers rnd now E when s = Inr (t, left)"
  shows "loop_part t = loop_part s"
proof -
  obtain s1 l e where f: "fold_res (reset_one rnd when) E (s, []) = Inr (s1, l)"
    and r: "loop_part t = loop_part s1"
    using assms by (auto simp: resetExpirationTimers_def bindr_eq_Inr dest!: timer_parts split: if_splits)
  have "loop_part (fst (s1, l)) = loop_part s"
    by (rule fold_res_inv[where P = "\<lambda>x. loop_part (fst x) = loop_part s", OF _ _ f])
      (auto simp: reset_one_def bindr_eq_Inr dest!: timer_parts split: if_splits)
  with r show ?thesis by simp
qed

lemma expire_part: "timerReadingCallback rnd inLoop now now_reset (run_user user) s = Inr t \<Longrightarrow> loop_part t = loop_part s"
  by (auto simp: timerReadingCallback_def check_def assertInLoopThread_def bindr_eq_Inr
      dest!: expired_part reset_part fold_parts run_parts split: if_splits)

lemma exec_part: "timer_exec (run_user user) clk f s = Inr t \<Longrightarrow> loop_part t = loop_part s"
  by (cases f) (auto simp: timer_exec_def dest: insertInLoop_part cancelInLoop_part user_part)

lemma execs_part: "fold_res (timer_exec (run_user user) clk) fs s = Inr t \<Longrightarrow> loop_part t = loop_part s"
  by (erule fold_part[rotated], erule exec_part)

lemma pending_part: "doPendingFunctions (timer_exec (run_user user) clk) s = Inr t \<Longrightarrow> loop_part t = loop_part s"
  by (auto simp: doPendingFunctions_def bindr_eq_Inr Let_def dest!: execs_part)

lemma op_part: "run_timer_op rnd user oper s = Inr t \<Longrightarrow> loop_part t = loop_part s"
  by (cases oper) (auto simp: run_timer_op_def dest: call_part expire_part pending_part)


lemma trace_append:
  "interest (tr @ cs) = foldl ctl_step (interest tr) cs" "ctl_legal (tr @ cs) \<longleftrightarrow> ctl_legal tr \<and> ctl_legal_from (interest tr) cs"
proof -
  show "interest (tr @ cs) = foldl ctl_step (interest tr) cs" by (simp add: interest_def)
  have "ctl_legal_from w (tr @ cs) \<longleftrightarrow> ctl_legal_from w tr \<and> ctl_legal_from (foldl ctl_step w tr) cs" for w
    by (induction tr arbitrary: w) auto
  then show "ctl_legal (tr @ cs) \<longleftrightarrow> ctl_legal tr \<and> ctl_legal_from (interest tr) cs"
    by (simp add: ctl_legal_def interest_def)
qed

text \<open>C23. A loop that is built, used for timers in any way and destroyed unregisters what it registered: the
  constructor registers exactly its timer and wakeup descriptors; after any sequence of inserts
  and cancels (from the loop or other threads), expirations and runs of the pending functions,
  the destructor removes both before it closes them, so that the kernel watches nothing any more
  and every \<open>epoll_ctl\<close> was legal. It destroys exactly the timers in the queue: one whose
  insertion is still a pending function is not destroyed, and is leaked.\<close>

theorem loop_lifecycle:
  assumes "timerfd \<noteq> wakeupfd" and "tchan \<noteq> wchan" and "\<And>x. 0 \<le> x \<Longrightarrow> 0 \<le> rnd x"
    and "reach (\<lambda>s. EventLoop_new False timerfd tchan wakeupfd wchan (raw_loop Map.empty n) = Inr s) (timer_step rnd user) s"
  shows "interest (rx_trace s) = [timerfd \<mapsto> (kReadEvent, tchan), wakeupfd \<mapsto> (kReadEvent, wchan)] \<and>
    (\<exists>s'. EventLoop_destroy s = Inr s' \<and> ctl_legal (rx_trace s') \<and> interest (rx_trace s') = Map.empty \<and>
      rx_channelMap s' = Map.empty \<and> rx_chans s' = Map.empty \<and>
      tq_heap s' = tq_heap s |` (- snd ` set (tq_timers s)) \<and>
      (\<forall>p. FnInsertTimer p \<in> set (el_pending s) \<longrightarrow> tq_heap s' p \<noteq> None))"
proof -
  let ?l = "built_loop timerfd tchan wakeupfd wchan n"
  have part: "loop_part s = loop_part ?l"
    using assms(4)
  proof (induction rule: reach.induct)
    case (reach_start s)
    then show ?case using EventLoop_new_eq[OF assms(1,2)] by simp
  next
    case (reach_step s t)
    then show ?case by (auto elim!: timer_step.cases dest: op_part)
  qed
  then have f: "rx_chans s = rx_chans ?l" "rx_channelMap s = rx_channelMap ?l"
    "interest (rx_trace s) = [timerfd \<mapsto> (kReadEvent, tchan), wakeupfd \<mapsto> (kReadEvent, wchan)]" "ctl_legal (rx_trace s)" "tq_chan s = tchan" "tq_timerfd s = timerfd"
    "el_wakeupChan s = wchan" "el_wakeupFd s = wakeupfd"
    using assms(1) by (simp_all add: loop_part_def built_loop_def ctl_legal_def interest_def)
  have start: "timer_start u" if "EventLoop_new False timerfd tchan wakeupfd wchan (raw_loop Map.empty n) = Inr u" for u
    using that EventLoop_new_eq[OF assms(1,2), of n] by (simp add: timer_start_def built_loop_def raw_loop_def)
  have "reach timer_start (timer_step rnd user) s"
    using assms(4)
  proof (induction rule: reach.induct)
    case (reach_start s)
    show ?case by (rule reach.reach_start) (rule start[OF reach_start])
  next
    case (reach_step s t)
    from reach_step(3,2) show ?case by (rule reach.reach_step)
  qed
  from timer_reach_inv[OF this assms(3)] have inv: "tq_inv (inserts_of (el_pending s)) s"
    by (simp add: timer_sys_inv_def)
  then have d: "distinct (map snd (tq_timers s))" "\<forall>p \<in> set (map snd (tq_timers s)). tq_heap s p \<noteq> None"
    "\<forall>p \<in> set (inserts_of (el_pending s)). p \<notin> snd ` set (tq_timers s) \<and> tq_heap s p \<noteq> None"
    by (auto simp: tq_inv_def)
  have pending: "p \<in> set (inserts_of (el_pending s))" if "FnInsertTimer p \<in> set (el_pending s)" for p
    using that by (auto simp: inserts_of_def intro!: bexI[of _ "FnInsertTimer p"])
  have "\<exists>s'. EventLoop_destroy s = Inr s' \<and> ctl_legal (rx_trace s') \<and> interest (rx_trace s') = Map.empty \<and>
      rx_channelMap s' = Map.empty \<and> rx_chans s' = Map.empty \<and> tq_heap s' = tq_heap s |` (- snd ` set (tq_timers s))"
    using assms(1,2) f d(1,2)
    by (auto simp: EventLoop_destroy_def TimerQueue_destroy_def built_loop_def raw_loop_def disableAll_def
        Channel_request_def Channel_update_def Epoll_updateChannel_def Epoll_update_def Channel_put_def
        Channel_make_def sys_call_def isNoEvent_def kNoneEvent_def Channel_remove_def Epoll_removeChannel_def
        Channel_destroy_def delete_all trace_append)
  then show ?thesis using f(3) d(3) pending by (auto simp: built_loop_def restrict_map_def)
qed

theorem loop_lifecycle_witness:
  "\<exists>s s'. reach (\<lambda>s. EventLoop_new False 4 2 5 3 (raw_loop Map.empty 0) = Inr s) (timer_step (\<lambda>x. x) (\<lambda>_ _. [])) s \<and>
    el_pending s = [FnInsertTimer 77] \<and> EventLoop_destroy s = Inr s' \<and> interest (rx_trace s') = Map.empty \<and>
    tq_heap s' 77 \<noteq> None"
proof -
  let ?l = "built_loop 4 2 5 3 0"
  have new: "EventLoop_new False 4 2 5 3 (raw_loop Map.empty 0) = Inr ?l" by (simp add: EventLoop_new_eq)
  obtain s where s: "run_timer_op (\<lambda>x. x) (\<lambda>_ _. []) (OpCall False (TcInsert 10 77 None 500 0)) ?l = Inr s"
    "el_pending s = [FnInsertTimer 77]"
    by (simp add: run_timer_op_def run_timer_call_def TimerQueue_insert_def Timer_new_def built_loop_def raw_loop_def runInLoop_def)
  have r: "reach (\<lambda>s. EventLoop_new False 4 2 5 3 (raw_loop Map.empty 0) = Inr s) (timer_step (\<lambda>x. x) (\<lambda>_ _. [])) s"
    by (rule reach_step, rule reach_start[of _ ?l], rule new, rule timer_step.intros[OF s(1)]) simp
  have "(4 :: int) \<noteq> 5" "(2 :: ptr) \<noteq> 3" by simp_all
  from loop_lifecycle[OF this _ r] obtain s' where "EventLoop_destroy s = Inr s'" "interest (rx_trace s') = Map.empty"
    "\<forall>p. FnInsertTimer p \<in> set (el_pending s) \<longrightarrow> tq_heap s' p \<noteq> None" by blast
  with r s(2) show ?thesis by (intro exI[of _ s] exI[of _ s']) simp
qed

end
