(* ===== verification/TcpConns.thy ===== *)
theory TcpConns
  imports Timers Buffers
begin

text \<open>
  \<open>src/stnl/TcpConnection.h\<close> and \<open>TcpConnection.cpp\<close>. The connections of one event
  loop live on a heap; the \<open>Channel\<close> a connection owns is named by the connection's own
  address. What the application does in a callback is the list of calls it makes; the
  close callback, the completion callback and the results of direct \<open>write\<close>s are
  arguments (\<open>conn_env\<close>). The two socket addresses, which only reach the log, are left
  out.
\<close>

section \<open>State\<close>

datatype sock_state = DISCONNECTED | CONNECTING | CONNECTED | DISCONNECTING

text \<open>
  A close callback is the \<open>removeConnection\<close> of the \<open>TcpServer\<close> or \<open>TcpClient\<close> that owns the
  connection, or the free function \<open>stnl::removeConnection\<close> that \<open>~TcpClient\<close> installs.
\<close>

datatype closecb = CloseOwner | CloseDetached

record conn =
  cn_fd :: int
  cn_name :: string
  cn_state :: sock_state
  cn_input :: netbuffer
  cn_output :: netbuffer
  cn_connectionCb :: bool
  cn_messageCb :: bool
  cn_closeCb :: "closecb option"
  cn_writeCompleteCb :: bool

text \<open>
  \<open>cx_refs\<close>: the connections the owner (a \<open>TcpServer\<close>'s map, a \<open>TcpClient\<close>) holds a
  shared pointer to. \<open>cx_log\<close>: the callbacks of the application that were entered, each
  with the state its connection had then.
\<close>

datatype app_event =
    AppConnection ptr
  | AppMessage ptr timestamp
  | AppWriteComplete ptr

record wloop = tloop +
  cx_conns :: "ptr \<Rightarrow> conn option"
  cx_refs :: "ptr set"
  cx_log :: "(app_event \<times> sock_state) list"

datatype conn_call =
    CcSend ptr "byte list"
  | CcSendInput ptr ptr
  | CcShutdown ptr
  | CcForceClose ptr
  | CcRetrieve ptr nat
  | CcRetrieveAll ptr
  | CcSetTcpNoDelay ptr bool

record 'w conn_env =
  ce_write :: "ptr \<Rightarrow> 'w \<Rightarrow> int"
  ce_complete :: "ptr \<Rightarrow> 'w \<Rightarrow> 'w result"
  ce_app :: "app_event \<Rightarrow> 'w \<Rightarrow> conn_call list"
  ce_close :: "closecb \<Rightarrow> ptr \<Rightarrow> 'w \<Rightarrow> 'w result"

section \<open>Construction and destruction\<close>

definition put_conn :: "ptr \<Rightarrow> conn \<Rightarrow> 'z wloop_scheme \<Rightarrow> 'z wloop_scheme" where
  "put_conn p c s = s\<lparr>cx_conns := (cx_conns s)(p \<mapsto> c)\<rparr>"

definition conn_channel :: "ptr \<Rightarrow> int \<Rightarrow> channel" where
  "conn_channel p fd = (Channel_make fd)\<lparr>ch_readCb := Some (CbTcpRead p), ch_closeCb := Some (CbTcpClose p),
     ch_writeCb := Some (CbTcpWrite p), ch_errorCb := Some (CbTcpError p)\<rparr>"

definition TcpConnection_new :: "ptr \<Rightarrow> string \<Rightarrow> int \<Rightarrow> 'z wloop_scheme \<Rightarrow> 'z wloop_scheme result" where
  "TcpConnection_new p name sockfd s =
     check BadAlloc (cx_conns s p = None \<and> rx_chans s p = None)
      (bindr (NetBuffer_new InitialBufferSize) (\<lambda>input. bindr (NetBuffer_new InitialBufferSize) (\<lambda>output.
         let c = \<lparr>cn_fd = sockfd, cn_name = name, cn_state = CONNECTING, cn_input = input, cn_output = output,
                  cn_connectionCb = False, cn_messageCb = False, cn_closeCb = None, cn_writeCompleteCb = False\<rparr>
         in Inr (sys_call (SysSetKeepAlive sockfd True)
                  (put_conn p c (Channel_put p (conn_channel p sockfd) s))))))"

text \<open>Members are destroyed last to first: the channel, then the socket, which closes it.\<close>

definition TcpConnection_delete :: "ptr \<Rightarrow> 'z wloop_scheme \<Rightarrow> 'z wloop_scheme result" where
  "TcpConnection_delete p s =
     bindr (deref (cx_conns s) p)
      (\<lambda>c. let s1 = sys_call (SysClose (cn_fd c)) (Channel_destroy p s)
           in Inr (s1\<lparr>cx_conns := (cx_conns s1)(p := None)\<rparr>))"

definition set_callbacks :: "ptr \<Rightarrow> bool \<Rightarrow> bool \<Rightarrow> bool \<Rightarrow> closecb \<Rightarrow> 'z wloop_scheme \<Rightarrow> 'z wloop_scheme result" where
  "set_callbacks p ccb mcb wcb close s =
     bindr (deref (cx_conns s) p)
      (\<lambda>c. Inr (put_conn p (c\<lparr>cn_connectionCb := ccb, cn_messageCb := mcb, cn_writeCompleteCb := wcb,
                              cn_closeCb := Some close\<rparr>) s))"

definition setCloseCallback :: "ptr \<Rightarrow> closecb \<Rightarrow> 'z wloop_scheme \<Rightarrow> 'z wloop_scheme result" where
  "setCloseCallback p cb s =
     bindr (deref (cx_conns s) p) (\<lambda>c. Inr (put_conn p (c\<lparr>cn_closeCb := Some cb\<rparr>) s))"

definition setSocketState :: "ptr \<Rightarrow> sock_state \<Rightarrow> 'z wloop_scheme \<Rightarrow> 'z wloop_scheme result" where
  "setSocketState p st s =
     bindr (deref (cx_conns s) p) (\<lambda>c. Inr (put_conn p (c\<lparr>cn_state := st\<rparr>) s))"

section \<open>Sending and shutting down\<close>

text \<open>
  In \<open>sendInLoop\<close>, \<open>written\<close> is a \<open>size_t\<close>: the test \<open>written >= 0\<close> holds for an error
  too, which is then the value \<open>2 ^ 64 - 1\<close>.
\<close>

definition TcpConnection_sendInLoop :: "('z wloop_scheme) conn_env \<Rightarrow> bool \<Rightarrow> ptr \<Rightarrow> byte list \<Rightarrow>
    'z wloop_scheme \<Rightarrow> 'z wloop_scheme result" where
  "TcpConnection_sendInLoop E inLoop p message s =
     assert_c inLoop
      (bindr (deref (cx_conns s) p) (\<lambda>c.
       if cn_state c = DISCONNECTED then Inr s
       else bindr (deref (rx_chans s) p) (\<lambda>ch.
        bindr
         (if ch_writeable ch \<and> nb_readableBytes (cn_output c) = 0
          then let n = ce_write E p s;
                   written = sz_of_int n;
                   remaining = sz_sub (length message) written;
                   s1 = (if 0 \<le> n then sys_call (SysWrite (cn_fd c) (take (nat n) message)) s else s)
               in if remaining = 0 \<and> cn_writeCompleteCb c
                  then bindr (ce_complete E p s1) (\<lambda>s2. Inr (written, remaining, s2))
                  else Inr (written, remaining, s1)
          else Inr (0, length message, s))
         (\<lambda>(written, remaining, s1).
            if remaining > 0
            then bindr (read_range message written remaining) (\<lambda>data.
                  bindr (deref (cx_conns s1) p) (\<lambda>c1.
                   bindr (nb_append data (cn_output c1)) (\<lambda>b.
                    let s2 = put_conn p (c1\<lparr>cn_output := b\<rparr>) s1 in
                    bindr (deref (rx_chans s2) p) (\<lambda>ch1.
                      if \<not> ch_writeable ch1 then enableWrite p s2 else Inr s2))))
            else Inr s1))))"

text \<open>
  The calls other threads may make have no lock: they test the state, write it and queue a
  function, and the loop can run between any two of these. Each is a definition of its own.
\<close>

definition is_connected :: "ptr \<Rightarrow> 'z wloop_scheme \<Rightarrow> bool result" where
  "is_connected p s = bindr (deref (cx_conns s) p) (\<lambda>c. Inr (cn_state c = CONNECTED))"

definition is_closable :: "ptr \<Rightarrow> 'z wloop_scheme \<Rightarrow> bool result" where
  "is_closable p s = bindr (deref (cx_conns s) p) (\<lambda>c. Inr (cn_state c = CONNECTED \<or> cn_state c = DISCONNECTING))"

definition send_post :: "('z wloop_scheme) conn_env \<Rightarrow> bool \<Rightarrow> ptr \<Rightarrow> byte list \<Rightarrow>
    'z wloop_scheme \<Rightarrow> 'z wloop_scheme result" where
  "send_post E inLoop p message s =
     (if inLoop then TcpConnection_sendInLoop E inLoop p message s
      else runInLoop (\<lambda>_. TcpConnection_sendInLoop E inLoop p message) inLoop (Some (FnSend p message)) s)"

definition TcpConnection_send :: "('z wloop_scheme) conn_env \<Rightarrow> bool \<Rightarrow> ptr \<Rightarrow> byte list \<Rightarrow>
    'z wloop_scheme \<Rightarrow> 'z wloop_scheme result" where
  "TcpConnection_send E inLoop p message s =
     bindr (is_connected p s) (\<lambda>up. if up then send_post E inLoop p message s else Inr s)"

text \<open>\<open>send(NetBuffer*)\<close>: the buffer is an argument and part of the result.\<close>

definition TcpConnection_sendBuffer :: "('z wloop_scheme) conn_env \<Rightarrow> bool \<Rightarrow> ptr \<Rightarrow> netbuffer \<Rightarrow>
    'z wloop_scheme \<Rightarrow> (netbuffer \<times> 'z wloop_scheme) result" where
  "TcpConnection_sendBuffer E inLoop p buf s =
     bindr (deref (cx_conns s) p)
      (\<lambda>c. if cn_state c = CONNECTED
           then if inLoop
                then bindr (read_range (nb_buffer buf) (nb_readIndex buf) (nb_readableBytes buf))
                      (\<lambda>data. bindr (TcpConnection_sendInLoop E inLoop p data s)
                        (\<lambda>s1. Inr (nb_retrieveAll buf, s1)))
                else bindr (nb_retrieveAllAsString buf)
                      (\<lambda>(data, buf1).
                         bindr (runInLoop (\<lambda>_. TcpConnection_sendInLoop E inLoop p data) inLoop (Some (FnSend p data)) s)
                          (\<lambda>s1. Inr (buf1, s1)))
           else Inr (buf, s))"

definition shutdownInLoop :: "bool \<Rightarrow> ptr \<Rightarrow> 'z wloop_scheme \<Rightarrow> 'z wloop_scheme result" where
  "shutdownInLoop inLoop p s =
     assert_c inLoop
      (bindr (deref (cx_conns s) p) (\<lambda>c. bindr (deref (rx_chans s) p)
        (\<lambda>ch. if \<not> ch_writeable ch then Inr (sys_call (SysShutdownWrite (cn_fd c)) s) else Inr s)))"

definition shutdown_post :: "bool \<Rightarrow> ptr \<Rightarrow> 'z wloop_scheme \<Rightarrow> 'z wloop_scheme result" where
  "shutdown_post inLoop p s = runInLoop (\<lambda>_. shutdownInLoop inLoop p) inLoop (Some (FnShutdown p)) s"

definition TcpConnection_shutdown :: "bool \<Rightarrow> ptr \<Rightarrow> 'z wloop_scheme \<Rightarrow> 'z wloop_scheme result" where
  "TcpConnection_shutdown inLoop p s =
     bindr (is_connected p s)
      (\<lambda>up. if up then bindr (setSocketState p DISCONNECTING s) (shutdown_post inLoop p) else Inr s)"

definition forceClose_post :: "bool \<Rightarrow> ptr \<Rightarrow> 'z wloop_scheme \<Rightarrow> 'z wloop_scheme result" where
  "forceClose_post inLoop p s = Inr (queueInLoop inLoop (FnForceClose p) s)"

definition TcpConnection_forceClose :: "bool \<Rightarrow> ptr \<Rightarrow> 'z wloop_scheme \<Rightarrow> 'z wloop_scheme result" where
  "TcpConnection_forceClose inLoop p s =
     bindr (is_closable p s)
      (\<lambda>up. if up then bindr (setSocketState p DISCONNECTING s) (forceClose_post inLoop p) else Inr s)"

text \<open>The calls in one piece.\<close>

lemma TcpConnection_send_eq:
  "TcpConnection_send E inLoop p message s =
     bindr (deref (cx_conns s) p)
      (\<lambda>c. if cn_state c = CONNECTED
           then if inLoop then TcpConnection_sendInLoop E inLoop p message s
                else runInLoop (\<lambda>_. TcpConnection_sendInLoop E inLoop p message) inLoop (Some (FnSend p message)) s
           else Inr s)"
  by (cases "deref (cx_conns s) p") (simp_all add: TcpConnection_send_def is_connected_def send_post_def)

lemma TcpConnection_shutdown_eq:
  "TcpConnection_shutdown inLoop p s =
     bindr (deref (cx_conns s) p)
      (\<lambda>c. if cn_state c = CONNECTED
           then runInLoop (\<lambda>_. shutdownInLoop inLoop p) inLoop (Some (FnShutdown p))
                  (put_conn p (c\<lparr>cn_state := DISCONNECTING\<rparr>) s)
           else Inr s)"
  by (cases "deref (cx_conns s) p") (simp_all add: TcpConnection_shutdown_def is_connected_def shutdown_post_def setSocketState_def)

lemma TcpConnection_forceClose_eq:
  "TcpConnection_forceClose inLoop p s =
     bindr (deref (cx_conns s) p)
      (\<lambda>c. if cn_state c = CONNECTED \<or> cn_state c = DISCONNECTING
           then bindr (setSocketState p DISCONNECTING s)
                 (\<lambda>s1. Inr (queueInLoop inLoop (FnForceClose p) s1))
           else Inr s)"
  by (cases "deref (cx_conns s) p") (simp_all add: TcpConnection_forceClose_def is_closable_def forceClose_post_def setSocketState_def)

definition TcpConnection_setTcpNoDelay :: "ptr \<Rightarrow> bool \<Rightarrow> 'z wloop_scheme \<Rightarrow> 'z wloop_scheme result" where
  "TcpConnection_setTcpNoDelay p b s =
     bindr (deref (cx_conns s) p) (\<lambda>c. Inr (sys_call (SysSetTcpNoDelay (cn_fd c) b) s))"

section \<open>Calls of the application\<close>

text \<open>
  An application retrieves from the input buffer what it has seen to be readable there.
  \<open>CcSendInput q p\<close> is \<open>send(&inputBuffer)\<close>: the input of \<open>q\<close> is sent over \<open>p\<close>.
\<close>

definition with_input :: "ptr \<Rightarrow> (netbuffer \<Rightarrow> netbuffer result) \<Rightarrow> 'z wloop_scheme \<Rightarrow> 'z wloop_scheme result" where
  "with_input p f s =
     bindr (deref (cx_conns s) p)
      (\<lambda>c. bindr (f (cn_input c)) (\<lambda>b. Inr (put_conn p (c\<lparr>cn_input := b\<rparr>) s)))"

definition run_conn_call :: "('z wloop_scheme) conn_env \<Rightarrow> bool \<Rightarrow> conn_call \<Rightarrow>
    'z wloop_scheme \<Rightarrow> 'z wloop_scheme result" where
  "run_conn_call E inLoop cc s =
     (case cc of
        CcSend p data \<Rightarrow> TcpConnection_send E inLoop p data s
      | CcSendInput q p \<Rightarrow>
          bindr (deref (cx_conns s) q) (\<lambda>c. bindr (TcpConnection_sendBuffer E inLoop p (cn_input c) s)
            (\<lambda>(b, s1). with_input q (\<lambda>_. Inr b) s1))
      | CcShutdown p \<Rightarrow> TcpConnection_shutdown inLoop p s
      | CcForceClose p \<Rightarrow> TcpConnection_forceClose inLoop p s
      | CcRetrieve p n \<Rightarrow> with_input p (\<lambda>b. if n \<le> nb_readableBytes b then nb_retrieve n b else Inr b) s
      | CcRetrieveAll p \<Rightarrow> with_input p (\<lambda>b. Inr (nb_retrieveAll b)) s
      | CcSetTcpNoDelay p b \<Rightarrow> TcpConnection_setTcpNoDelay p b s)"

definition notify :: "('z wloop_scheme) conn_env \<Rightarrow> app_event \<Rightarrow> ptr \<Rightarrow> 'z wloop_scheme \<Rightarrow> 'z wloop_scheme result" where
  "notify E ev p s =
     bindr (deref (cx_conns s) p)
      (\<lambda>c. let s1 = s\<lparr>cx_log := cx_log s @ [(ev, cn_state c)]\<rparr>
           in fold_res (run_conn_call E True) (ce_app E ev s1) s1)"

definition connectionCallback :: "('z wloop_scheme) conn_env \<Rightarrow> ptr \<Rightarrow> 'z wloop_scheme \<Rightarrow> 'z wloop_scheme result" where
  "connectionCallback E p s =
     bindr (deref (cx_conns s) p)
      (\<lambda>c. if cn_connectionCb c then notify E (AppConnection p) p s else Inr s)"

section \<open>Events\<close>

definition connectionEstablish :: "('z wloop_scheme) conn_env \<Rightarrow> ptr \<Rightarrow> 'z wloop_scheme \<Rightarrow> 'z wloop_scheme result" where
  "connectionEstablish E p s =
     bindr (deref (cx_conns s) p)
      (\<lambda>c. assert_c (cn_state c = CONNECTING)
        (bindr (enableRead p (put_conn p (c\<lparr>cn_state := CONNECTED\<rparr>) s)) (connectionCallback E p)))"

definition connectionDestory :: "('z wloop_scheme) conn_env \<Rightarrow> ptr \<Rightarrow> 'z wloop_scheme \<Rightarrow> 'z wloop_scheme result" where
  "connectionDestory E p s =
     bindr (deref (cx_conns s) p)
      (\<lambda>c. bindr
         (if cn_state c = CONNECTED
          then bindr (setSocketState p DISCONNECTED s)
                (\<lambda>s1. bindr (disableAll p s1) (connectionCallback E p))
          else Inr s)
         (Channel_remove p))"

definition conn_handleClose :: "('z wloop_scheme) conn_env \<Rightarrow> ptr \<Rightarrow> 'z wloop_scheme \<Rightarrow> 'z wloop_scheme result" where
  "conn_handleClose E p s =
     bindr (deref (cx_conns s) p)
      (\<lambda>c. assert_c (cn_state c = CONNECTED \<or> cn_state c = DISCONNECTING)
        (bindr (setSocketState p DISCONNECTED s)
          (\<lambda>s1. bindr (disableAll p s1)
            (\<lambda>s2. bindr (connectionCallback E p s2)
              (\<lambda>s3. bindr (deref (cx_conns s3) p)
                (\<lambda>c3. case cn_closeCb c3 of
                        None \<Rightarrow> Inl NullFunction
                      | Some cb \<Rightarrow> ce_close E cb p s3))))))"

text \<open>\<open>handleError\<close> reads \<open>SO_ERROR\<close> and logs it.\<close>

definition conn_handleError :: "ptr \<Rightarrow> 'z wloop_scheme \<Rightarrow> 'z wloop_scheme result" where
  "conn_handleError p s = bindr (deref (cx_conns s) p) (\<lambda>_. Inr s)"

definition conn_handleRead :: "('z wloop_scheme) conn_env \<Rightarrow> readv_outcome \<Rightarrow> timestamp \<Rightarrow> ptr \<Rightarrow>
    'z wloop_scheme \<Rightarrow> 'z wloop_scheme result" where
  "conn_handleRead E rd receiveTime p s =
     bindr (deref (cx_conns s) p)
      (\<lambda>c. bindr (nb_readFD rd (cn_input c))
        (\<lambda>(n, savedErrno, b).
           let s1 = put_conn p (c\<lparr>cn_input := b\<rparr>) s in
           if n > 0 then if cn_messageCb c then notify E (AppMessage p receiveTime) p s1 else Inr s1
           else if n = 0 then conn_handleClose E p s1
           else conn_handleError p s1))"

definition conn_handleWrite :: "int \<Rightarrow> ptr \<Rightarrow> 'z wloop_scheme \<Rightarrow> 'z wloop_scheme result" where
  "conn_handleWrite n p s =
     bindr (deref (cx_conns s) p) (\<lambda>c. bindr (deref (rx_chans s) p) (\<lambda>ch.
       if ch_writeable ch
       then if n > 0
            then bindr (read_range (nb_buffer (cn_output c)) (nb_readIndex (cn_output c)) (nat n))
                  (\<lambda>data. bindr (nb_retrieve (nat n) (cn_output c))
                    (\<lambda>b. let s1 = put_conn p (c\<lparr>cn_output := b\<rparr>) (sys_call (SysWrite (cn_fd c) data) s) in
                      bindr (if nb_readableBytes b = 0 then disableWrite p s1 else Inr s1)
                        (\<lambda>s2. if cn_state c = DISCONNECTING then shutdownInLoop True p s2 else Inr s2)))
            else Inr s
       else Inr s))"

definition forceCloseInLoop :: "('z wloop_scheme) conn_env \<Rightarrow> ptr \<Rightarrow> 'z wloop_scheme \<Rightarrow> 'z wloop_scheme result" where
  "forceCloseInLoop E p s =
     bindr (deref (cx_conns s) p)
      (\<lambda>c. if cn_state c = CONNECTED \<or> cn_state c = DISCONNECTING then conn_handleClose E p s else Inr s)"

text \<open>The callbacks a connection registers with its channel, and the functions it queues.\<close>

definition conn_callback :: "('z wloop_scheme) conn_env \<Rightarrow> (ptr \<Rightarrow> 'z wloop_scheme \<Rightarrow> readv_outcome) \<Rightarrow>
    (ptr \<Rightarrow> 'z wloop_scheme \<Rightarrow> int) \<Rightarrow> timestamp \<Rightarrow> callback \<Rightarrow> 'z wloop_scheme \<Rightarrow> 'z wloop_scheme result" where
  "conn_callback E rd wr receiveTime cb s =
     (case cb of
        CbTcpRead p \<Rightarrow> conn_handleRead E (rd p s) receiveTime p s
      | CbTcpWrite p \<Rightarrow> conn_handleWrite (wr p s) p s
      | CbTcpClose p \<Rightarrow> conn_handleClose E p s
      | CbTcpError p \<Rightarrow> conn_handleError p s
      | _ \<Rightarrow> Inr s)"

definition conn_exec :: "('z wloop_scheme) conn_env \<Rightarrow> (task \<Rightarrow> 'z wloop_scheme \<Rightarrow> conn_call list) \<Rightarrow>
    task \<Rightarrow> 'z wloop_scheme \<Rightarrow> 'z wloop_scheme result" where
  "conn_exec E user f s =
     (case f of
        FnEstablish p \<Rightarrow> connectionEstablish E p s
      | FnDestroy p \<Rightarrow> connectionDestory E p s
      | FnSend p data \<Rightarrow> TcpConnection_sendInLoop E True p data s
      | FnShutdown p \<Rightarrow> shutdownInLoop True p s
      | FnForceClose p \<Rightarrow> forceCloseInLoop E p s
      | FnSetCloseCallback p \<Rightarrow> setCloseCallback p CloseDetached s
      | _ \<Rightarrow> fold_res (run_conn_call E True) (user f s) s)"

section \<open>Invariants\<close>

text \<open>
  \<open>conn_ok\<close> relates a connection to its channel: the descriptor and the four callbacks,
  and the events requested in each state. While a connection is up, it asks for write
  events exactly as long as bytes are pending in its output buffer.
\<close>

definition interest_ok :: "conn \<Rightarrow> channel \<Rightarrow> bool" where
  "interest_ok c ch \<longleftrightarrow>
     (case cn_state c of
        CONNECTING \<Rightarrow> ch_state ch = NEW \<and> ch_requested ch = 0 \<and> nb_content (cn_output c) = []
      | DISCONNECTED \<Rightarrow> ch_requested ch = 0 \<and> ch_state ch \<noteq> ADDED
      | _ \<Rightarrow> ch_state ch = ADDED \<and>
          ch_requested ch = (if nb_content (cn_output c) = [] then kReadEvent else kReadEvent OR kWriteEvent))"

definition conn_ok :: "ptr \<Rightarrow> conn \<Rightarrow> channel \<Rightarrow> bool" where
  "conn_ok p c ch \<longleftrightarrow> ch_fd ch = cn_fd c \<and> ch_readCb ch = Some (CbTcpRead p) \<and>
     ch_writeCb ch = Some (CbTcpWrite p) \<and> ch_errorCb ch = Some (CbTcpError p) \<and>
     ch_closeCb ch = Some (CbTcpClose p) \<and> interest_ok c ch \<and> nb_inv (cn_input c) \<and>
     nb_inv (cn_output c) \<and> cn_closeCb c \<noteq> None"

definition conns_inv :: "'z wloop_scheme \<Rightarrow> bool" where
  "conns_inv s \<longleftrightarrow> rx_inv s \<and>
     (\<forall>p c. cx_conns s p = Some c \<longrightarrow> (\<exists>ch. rx_chans s p = Some ch \<and> conn_ok p c ch))"

text \<open>The names of the connections, and what a channel is constructed with: descriptor and callbacks.\<close>

definition conn_names :: "'z wloop_scheme \<Rightarrow> ptr \<Rightarrow> string option" where
  "conn_names s p = map_option cn_name (cx_conns s p)"

definition chan_key :: "channel \<Rightarrow> int \<times> callback option \<times> callback option \<times> callback option \<times> callback option" where
  "chan_key ch = (ch_fd ch, ch_readCb ch, ch_writeCb ch, ch_errorCb ch, ch_closeCb ch)"

definition chan_keys :: "'z wloop_scheme \<Rightarrow> ptr \<Rightarrow>
    (int \<times> callback option \<times> callback option \<times> callback option \<times> callback option) option" where
  "chan_keys s p = map_option chan_key (rx_chans s p)"

lemma wloop_updates [simp]:
  "cx_conns (sys_call k s) = cx_conns s" "cx_refs (sys_call k s) = cx_refs s"
  "cx_log (sys_call k s) = cx_log s" "wloop.more (sys_call k s) = wloop.more s"
  by (simp_all add: sys_call_def)

lemma put_conn_simps [simp]:
  "cx_conns (put_conn p c s) = (cx_conns s)(p \<mapsto> c)" "cx_refs (put_conn p c s) = cx_refs s"
  "rx_chans (put_conn p c s) = rx_chans s" "rx_trace (put_conn p c s) = rx_trace s"
  "rx_channelMap (put_conn p c s) = rx_channelMap s" "el_pending (put_conn p c s) = el_pending s"
  "cx_log (put_conn p c s) = cx_log s" "el_calling (put_conn p c s) = el_calling s"
  "wloop.more (put_conn p c s) = wloop.more s"
  by (simp_all add: put_conn_def)

lemma rx_inv_put_conn [simp]: "rx_inv s \<Longrightarrow> rx_inv (put_conn p c s)"
  by (rule rx_inv_cong) simp_all

lemma request_result_frame [simp]:
  "cx_conns (request_result p ch e s) = cx_conns s" "cx_refs (request_result p ch e s) = cx_refs s"
  "cx_log (request_result p ch e s) = cx_log s" "el_pending (request_result p ch e s) = el_pending s"
  "wloop.more (request_result p ch e s) = wloop.more s"
  "rx_chans (request_result p ch e s) = (rx_chans s)(p \<mapsto> requested_with e ch)"
  by (simp_all add: request_result_def)

lemma queueInLoop_frame [simp]:
  "cx_conns (queueInLoop b f s) = cx_conns s" "cx_refs (queueInLoop b f s) = cx_refs s"
  "cx_log (queueInLoop b f s) = cx_log s" "wloop.more (queueInLoop b f s) = wloop.more s"
  by (simp_all add: queueInLoop_def queue_push_def wakeup_def)

lemma conn_names_cong: "cx_conns t = cx_conns s \<Longrightarrow> conn_names t = conn_names s"
  by (simp add: conn_names_def fun_eq_iff)

lemma conn_names_frames [simp]:
  "conn_names (sys_call k s) = conn_names s" "conn_names (queueInLoop b f s) = conn_names s"
  "conn_names (request_result p ch e s) = conn_names s" "conn_names (s\<lparr>cx_log := l\<rparr>) = conn_names s"
  by (rule conn_names_cong; simp)+

lemma chan_keys_cong: "rx_chans t = rx_chans s \<Longrightarrow> chan_keys t = chan_keys s"
  by (simp add: chan_keys_def fun_eq_iff)

lemma chan_keys_frames [simp]:
  "chan_keys (sys_call k s) = chan_keys s" "chan_keys (queueInLoop b f s) = chan_keys s"
  "chan_keys (put_conn p c s) = chan_keys s" "chan_keys (s\<lparr>cx_log := l\<rparr>) = chan_keys s"
  by (rule chan_keys_cong; simp)+

lemma chan_keys_upd:
  "rx_chans s p = Some ch \<Longrightarrow> rx_chans t = (rx_chans s)(p \<mapsto> ch') \<Longrightarrow> chan_key ch' = chan_key ch \<Longrightarrow> chan_keys t = chan_keys s"
  by (simp add: chan_keys_def fun_eq_iff)

lemma chan_keys_request [simp]: "rx_chans s p = Some ch \<Longrightarrow> chan_keys (request_result p ch e s) = chan_keys s"
  by (rule chan_keys_upd[where ch' = "requested_with e ch"]) (simp_all add: chan_key_def)

lemma conn_names_put [simp]:
  "cx_conns s p = Some c \<Longrightarrow> cn_name d = cn_name c \<Longrightarrow> conn_names (put_conn p d s) = conn_names s"
  by (simp add: conn_names_def fun_eq_iff)

lemma conns_inv_rx [simp]: "conns_inv s \<Longrightarrow> rx_inv s"
  by (simp add: conns_inv_def)

lemma conns_invD:
  assumes "conns_inv s" and "cx_conns s p = Some c"
  obtains ch where "rx_chans s p = Some ch" and "conn_ok p c ch"
  using assms by (auto simp: conns_inv_def)

lemma conns_inv_upd:
  assumes "conns_inv s" and "rx_inv s'" and "cx_conns s' = (cx_conns s)(p \<mapsto> c')"
    and "rx_chans s' = (rx_chans s)(p \<mapsto> ch')" and "conn_ok p c' ch'"
  shows "conns_inv s'"
  using assms unfolding conns_inv_def by (metis fun_upd_apply option.inject)

lemma conns_inv_put:
  assumes "conns_inv s" and "rx_chans s p = Some ch" and "conn_ok p c' ch"
  shows "conns_inv (put_conn p c' s)"
  using assms by (intro conns_inv_upd[OF assms(1), where ch' = ch and p = p and c' = c']) auto

lemma conns_inv_cong:
  assumes "conns_inv s" and "rx_inv s'" and "cx_conns s' = cx_conns s" and "rx_chans s' = rx_chans s"
  shows "conns_inv s'"
  using assms by (simp add: conns_inv_def)

lemma conns_inv_call [simp]:
  assumes "\<And>w. ctl_step w k = w" and "\<And>w. ctl_ok w k" and "conns_inv s"
  shows "conns_inv (sys_call k s)"
  by (rule conns_inv_cong[OF assms(3) rx_inv_sys_call[OF conns_inv_rx[OF assms(3)] assms(1,2)]]) simp_all

lemma conns_inv_queueInLoop [simp]: "conns_inv s \<Longrightarrow> conns_inv (queueInLoop b f s)"
  by (rule conns_inv_cong) simp_all

lemma conns_inv_log [simp]: "conns_inv s \<Longrightarrow> conns_inv (s\<lparr>cx_log := l\<rparr>)"
  by (rule conns_inv_cong[OF _ rx_inv_cong]) simp_all

text \<open>
  Who keeps a connection alive. The view of a connection is its state and whether its
  channel is known to the selector. A queued function bound to a raw \<open>this\<close> is safe
  because the owner still holds the connection, or because a function that holds it
  (\<open>connectionDestory\<close>) stands behind it in the queue.
\<close>

definition conn_view :: "'z wloop_scheme \<Rightarrow> ptr \<Rightarrow> (sock_state \<times> bool) option" where
  "conn_view s p = map_option (\<lambda>c. (cn_state c, \<exists>ch. rx_chans s p = Some ch \<and> ch_state ch \<noteq> NEW)) (cx_conns s p)"

fun raw_ptr :: "task \<Rightarrow> ptr option" where
  "raw_ptr (FnSend p data) = Some p"
| "raw_ptr (FnShutdown p) = Some p"
| "raw_ptr _ = None"

fun raw_ok :: "ptr set \<Rightarrow> task list \<Rightarrow> bool" where
  "raw_ok refs [] = True"
| "raw_ok refs (f # fs) \<longleftrightarrow> (\<forall>p. raw_ptr f = Some p \<longrightarrow> p \<in> refs \<or> FnDestroy p \<in> set fs) \<and> raw_ok refs fs"

fun establish_ptr :: "task \<Rightarrow> ptr list" where
  "establish_ptr (FnEstablish p) = [p]"
| "establish_ptr _ = []"

fun task_ok :: "(ptr \<Rightarrow> (sock_state \<times> bool) option) \<Rightarrow> task \<Rightarrow> bool" where
  "task_ok V (FnDestroy p) = (\<exists>b. V p = Some (DISCONNECTED, b))"
| "task_ok V (FnForceClose p) = (V p \<noteq> None)"
| "task_ok V (FnSetCloseCallback p) = (V p \<noteq> None)"
| "task_ok V (FnEstablish p) = (\<exists>b. V p = Some (CONNECTING, b))"
| "task_ok V (FnSend p data) = (length data \<le> vec_max \<and> (\<exists>st b. V p = Some (st, b) \<and> st \<noteq> CONNECTING))"
| "task_ok V (FnShutdown p) = (\<exists>st b. V p = Some (st, b) \<and> st \<noteq> CONNECTING)"
| "task_ok V _ = True"

definition life :: "task list \<Rightarrow> ptr set \<Rightarrow> (ptr \<Rightarrow> (sock_state \<times> bool) option) \<Rightarrow> bool" where
  "life qs refs V \<longleftrightarrow>
     (\<forall>p \<in> refs. V p \<noteq> None) \<and>
     (\<forall>p st b. V p = Some (st, b) \<longrightarrow> st \<noteq> DISCONNECTED \<longrightarrow> p \<in> refs) \<and>
     (\<forall>p. V p = Some (DISCONNECTED, True) \<longrightarrow> p \<in> refs \<or> FnDestroy p \<in> set qs) \<and>
     (\<forall>f \<in> set qs. task_ok V f) \<and> distinct (concat (map establish_ptr qs)) \<and> raw_ok refs qs"

definition sys_inv :: "task list \<Rightarrow> 'z wloop_scheme \<Rightarrow> bool" where
  "sys_inv rest s \<longleftrightarrow> conns_inv s \<and> life (rest @ el_pending s) (cx_refs s) (conn_view s)"

section \<open>Bookkeeping of lifetimes\<close>

lemma raw_ok_append:
  "raw_ok refs (qs @ [f]) \<longleftrightarrow> raw_ok refs qs \<and> (\<forall>p. raw_ptr f = Some p \<longrightarrow> p \<in> refs)"
  if "\<And>p. f \<noteq> FnDestroy p"
  using that by (induction qs) auto

lemma raw_ok_drop: "raw_ok refs qs \<Longrightarrow> raw_ok (refs - {p}) (qs @ [FnDestroy p])"
  by (induction qs) auto

lemma raw_ok_mono: "raw_ok refs qs \<Longrightarrow> refs \<subseteq> refs' \<Longrightarrow> raw_ok refs' qs"
  by (induction qs) auto

lemma raw_ok_in: "raw_ok refs qs \<Longrightarrow> f \<in> set qs \<Longrightarrow> raw_ptr f = Some p \<Longrightarrow> p \<in> refs \<or> FnDestroy p \<in> set qs"
  by (induction qs) auto

lemma establish_ptr_in: "p \<in> set (establish_ptr f) \<Longrightarrow> (f = FnEstablish p \<Longrightarrow> R) \<Longrightarrow> R"
  by (cases f) auto

lemma task_ok_upd:
  assumes "task_ok V f" and "V p = Some (st, b)" and "st = DISCONNECTED \<longrightarrow> st' = DISCONNECTED"
    and "st \<noteq> CONNECTING \<longrightarrow> st' \<noteq> CONNECTING" and "f \<noteq> FnEstablish p \<or> st' = CONNECTING"
  shows "task_ok (V(p \<mapsto> (st', b'))) f"
  using assms by (cases f) auto

lemma life_upd:
  assumes l: "life qs refs V" and V: "V p = Some (st, b)"
    and r: "st' \<noteq> DISCONNECTED \<longrightarrow> p \<in> refs"
      "st' = DISCONNECTED \<longrightarrow> b' \<longrightarrow> p \<in> refs \<or> FnDestroy p \<in> set qs"
    and t: "st = DISCONNECTED \<longrightarrow> st' = DISCONNECTED" "st \<noteq> CONNECTING \<longrightarrow> st' \<noteq> CONNECTING"
      "FnEstablish p \<notin> set qs \<or> st' = CONNECTING"
  shows "life qs refs (V(p \<mapsto> (st', b')))"
proof -
  have "\<forall>f \<in> set qs. task_ok (V(p \<mapsto> (st', b'))) f"
  proof
    fix f
    assume f: "f \<in> set qs"
    show "task_ok (V(p \<mapsto> (st', b'))) f"
      by (rule task_ok_upd[where V = V and p = p]) (use l f t V in \<open>auto simp: life_def\<close>)
  qed
  then show ?thesis using l r unfolding life_def by auto
qed

lemma life_refs: "life qs refs V \<Longrightarrow> V p = Some (st, b) \<Longrightarrow> st \<noteq> DISCONNECTED \<Longrightarrow> p \<in> refs"
  by (simp add: life_def)

lemma life_not_establish:
  "life qs refs V \<Longrightarrow> V p = Some (st, b) \<Longrightarrow> st \<noteq> CONNECTING \<Longrightarrow> FnEstablish p \<notin> set qs"
  unfolding life_def by (metis Pair_inject option.inject task_ok.simps(4))

lemma life_push:
  assumes "life qs refs V" and "task_ok V f" and "\<And>p. f \<noteq> FnDestroy p" and "\<And>p. f \<noteq> FnEstablish p"
    and "\<And>p. raw_ptr f = Some p \<Longrightarrow> p \<in> refs"
  shows "life (qs @ [f]) refs V"
proof -
  have "establish_ptr f = []" using assms(4) by (cases f) auto
  then show ?thesis using assms assms(3)[THEN not_sym] raw_ok_append[OF assms(3)] by (auto simp: life_def)
qed

lemma life_drop:
  assumes "life qs refs V" and "V p = Some (DISCONNECTED, b)"
  shows "life (qs @ [FnDestroy p]) (refs - {p}) V"
proof -
  have "st \<noteq> DISCONNECTED \<longrightarrow> q \<in> refs - {p}" if "V q = Some (st, b')" for q st b'
    using assms that life_refs[OF assms(1) that] by (cases "q = p") auto
  then show ?thesis
    using assms raw_ok_drop[of refs qs p] unfolding life_def by auto
qed

lemma life_pop:
  assumes "life (f # qs) refs V" and "\<And>p. f \<noteq> FnDestroy p"
  shows "life qs refs V"
  using assms(1) assms(2)[THEN not_sym] unfolding life_def by auto

lemma life_destroy:
  assumes l: "life (FnDestroy p # qs) refs V"
  shows "life qs refs (V(p \<mapsto> (DISCONNECTED, False)))"
proof -
  obtain b where V: "V p = Some (DISCONNECTED, b)" using l by (auto simp: life_def)
  have ne: "FnEstablish p \<notin> set qs"
    using life_not_establish[OF l V] by simp
  have "\<forall>f \<in> set qs. task_ok (V(p \<mapsto> (DISCONNECTED, False))) f"
  proof
    fix f
    assume f: "f \<in> set qs"
    show "task_ok (V(p \<mapsto> (DISCONNECTED, False))) f"
      by (rule task_ok_upd[where V = V and p = p]) (use l f ne V in \<open>auto simp: life_def\<close>)
  qed
  then show ?thesis using l unfolding life_def by auto
qed

section \<open>The calls of the application\<close>

definition view_up :: "(sock_state \<times> bool) option \<Rightarrow> bool" where
  "view_up v \<longleftrightarrow> v = Some (CONNECTED, True) \<or> v = Some (DISCONNECTING, True)"

definition returned :: "'z reactor_scheme \<Rightarrow> ptr \<Rightarrow> events option" where
  "returned s p = map_option ch_returned (rx_chans s p)"

text \<open>The functions that only a server queues.\<close>

fun server_task :: "task \<Rightarrow> bool" where
  "server_task (FnRemoveConnection p) = True"
| "server_task FnListen = True"
| "server_task _ = False"

definition posts :: "'z wloop_scheme \<Rightarrow> 'z wloop_scheme \<Rightarrow> bool" where
  "posts s t \<longleftrightarrow> (\<forall>f \<in> set (el_pending t). f \<in> set (el_pending s) \<or> \<not> server_task f)"

lemma posts_same [simp]: "el_pending t = el_pending s \<Longrightarrow> posts s t"
  by (simp add: posts_def)

lemma posts_queue [simp]: "\<not> server_task f \<Longrightarrow> posts s (queueInLoop b f s)"
  by (simp add: posts_def)

lemma posts_trans: "posts s t \<Longrightarrow> posts t u \<Longrightarrow> posts s u"
  by (auto simp: posts_def)

definition conn_frame :: "'z wloop_scheme \<Rightarrow> 'z wloop_scheme \<Rightarrow> bool" where
  "conn_frame s s' \<longleftrightarrow> cx_refs s' = cx_refs s \<and> (\<forall>q. cx_conns s q \<noteq> None \<longrightarrow> cx_conns s' q \<noteq> None) \<and>
     (\<forall>q. view_up (conn_view s q) \<longrightarrow> view_up (conn_view s' q)) \<and> returned s' = returned s \<and>
     conn_names s' = conn_names s \<and> chan_keys s' = chan_keys s \<and> wloop.more s' = wloop.more s \<and> posts s s' \<and>
     (\<forall>q b. conn_view s q = Some (DISCONNECTED, b) \<longrightarrow> conn_view s' q = Some (DISCONNECTED, b))"

lemma conn_frame_refl [simp]: "conn_frame s s"
  by (simp add: conn_frame_def)

lemma conn_frame_refs: "conn_frame s t \<Longrightarrow> cx_refs t = cx_refs s"
  by (simp add: conn_frame_def)

lemma conn_frame_down:
  "conn_frame s t \<Longrightarrow> conn_view s p = Some (DISCONNECTED, b) \<Longrightarrow> conn_view t p = Some (DISCONNECTED, b)"
  by (simp add: conn_frame_def)

lemma conn_frame_up: "conn_frame s t \<Longrightarrow> view_up (conn_view s p) \<Longrightarrow> view_up (conn_view t p)"
  by (simp add: conn_frame_def)

lemma returned_cong: "rx_chans t = rx_chans s \<Longrightarrow> returned t = returned s"
  by (simp add: returned_def fun_eq_iff)

lemma returned_simps [simp]:
  "returned (sys_call k s) = returned s" "returned (queueInLoop b f s) = returned s"
  "returned (put_conn p c s) = returned s" "returned (s\<lparr>cx_log := l\<rparr>) = returned s"
  by (rule returned_cong; simp)+

lemma returned_request [simp]: "rx_chans s p = Some ch \<Longrightarrow> returned (request_result p ch e s) = returned s"
  by (simp add: returned_def request_result_def fun_eq_iff)

lemma conn_frame_trans: "conn_frame s t \<Longrightarrow> conn_frame t u \<Longrightarrow> conn_frame s u"
  by (simp add: conn_frame_def) (use posts_trans in blast)

text \<open>
  What an owner may rely on while it does nothing itself: its pointers, the names of the
  connections and its own state stay, and a connection that is down stays down.
\<close>

definition conn_down :: "'z wloop_scheme \<Rightarrow> ptr \<Rightarrow> bool" where
  "conn_down s p \<longleftrightarrow> (\<exists>b. conn_view s p = Some (DISCONNECTED, b))"

definition events_ext :: "'z wloop_scheme \<Rightarrow> 'z wloop_scheme \<Rightarrow> bool" where
  "events_ext s t \<longleftrightarrow> returned t = returned s \<and> (\<forall>p. view_up (conn_view s p) \<longrightarrow> view_up (conn_view t p))"

lemma events_ext_trans: "events_ext s t \<Longrightarrow> events_ext t u \<Longrightarrow> events_ext s u"
  by (simp add: events_ext_def)

lemma conn_frame_events: "conn_frame s t \<Longrightarrow> events_ext s t"
  by (simp add: conn_frame_def events_ext_def)

definition conn_ext :: "'z wloop_scheme \<Rightarrow> 'z wloop_scheme \<Rightarrow> bool" where
  "conn_ext s t \<longleftrightarrow> cx_refs t = cx_refs s \<and> conn_names t = conn_names s \<and> chan_keys t = chan_keys s \<and>
     wloop.more t = wloop.more s \<and> posts s t \<and> (\<forall>p. conn_down s p \<longrightarrow> conn_down t p)"

lemma conn_ext_refl [simp]: "conn_ext s s"
  by (simp add: conn_ext_def)

lemma conn_ext_trans: "conn_ext s t \<Longrightarrow> conn_ext t u \<Longrightarrow> conn_ext s u"
  by (simp add: conn_ext_def) (use posts_trans in blast)

lemma conn_frame_ext: "conn_frame s t \<Longrightarrow> conn_ext s t"
  by (auto simp: conn_frame_def conn_ext_def conn_down_def)

lemma conn_ext_view:
  assumes "conn_view t = (conn_view s)(p \<mapsto> (st, b))" and "conn_down s p \<longrightarrow> st = DISCONNECTED"
    and "cx_refs t = cx_refs s" and "conn_names t = conn_names s" and "chan_keys t = chan_keys s"
    and "wloop.more t = wloop.more s" and "posts s t"
  shows "conn_ext s t"
  using assms by (auto simp: conn_ext_def conn_down_def)

lemma conn_ext_same:
  "conn_view t = conn_view s \<Longrightarrow> cx_refs t = cx_refs s \<Longrightarrow> conn_names t = conn_names s \<Longrightarrow>
   chan_keys t = chan_keys s \<Longrightarrow> wloop.more t = wloop.more s \<Longrightarrow> posts s t \<Longrightarrow> conn_ext s t"
  by (simp add: conn_ext_def conn_down_def)

lemma conn_view_put [simp]:
  "conn_view (put_conn p c s) = (conn_view s)(p \<mapsto> (cn_state c, \<exists>ch. rx_chans s p = Some ch \<and> ch_state ch \<noteq> NEW))"
  by (auto simp: conn_view_def fun_eq_iff)

lemma conn_view_request [simp]:
  "cx_conns s p = Some c \<Longrightarrow> conn_view (request_result p ch e s) = (conn_view s)(p \<mapsto> (cn_state c, True))"
  by (auto simp: conn_view_def fun_eq_iff)

lemma conn_view_cong: "cx_conns t = cx_conns s \<Longrightarrow> rx_chans t = rx_chans s \<Longrightarrow> conn_view t = conn_view s"
  by (simp add: conn_view_def fun_eq_iff)

lemma conn_view_frames [simp]:
  "conn_view (sys_call k s) = conn_view s" "conn_view (queueInLoop b f s) = conn_view s"
  "conn_view (s\<lparr>cx_log := l\<rparr>) = conn_view s"
  by (rule conn_view_cong; simp)+

lemma view_at: "cx_conns s p = Some c \<Longrightarrow>
  conn_view s p = Some (cn_state c, \<exists>ch. rx_chans s p = Some ch \<and> ch_state ch \<noteq> NEW)"
  by (simp add: conn_view_def)

lemma view_None [simp]: "conn_view s p = None \<longleftrightarrow> cx_conns s p = None"
  by (simp add: conn_view_def)

lemma kevents [simp]:
  "kReadEvent OR kWriteEvent \<noteq> kReadEvent" "kReadEvent AND kWriteEvent = 0"
  "(kReadEvent OR kWriteEvent) AND kWriteEvent \<noteq> 0" "(kReadEvent OR kWriteEvent) AND NOT kWriteEvent = kReadEvent"
  "kWriteEvent \<noteq> 0" "kReadEvent \<noteq> 0" "kReadEvent OR kWriteEvent \<noteq> 0" "0 OR kReadEvent = kReadEvent"
  by (simp_all add: kReadEvent_def kWriteEvent_def event_consts)

definition conn_up :: "conn \<Rightarrow> bool" where
  "conn_up c \<longleftrightarrow> cn_state c = CONNECTED \<or> cn_state c = DISCONNECTING"

lemma conn_ok_up:
  assumes "conn_ok p c ch" and "conn_up c"
  shows "ch_state ch = ADDED"
    and "ch_requested ch = (if nb_content (cn_output c) = [] then kReadEvent else kReadEvent OR kWriteEvent)"
    and "ch_writeable ch \<longleftrightarrow> nb_content (cn_output c) \<noteq> []"
  using assms by (auto simp: conn_ok_def interest_ok_def conn_up_def ch_writeable_def split: sock_state.splits)

lemma readable_zero: "nb_inv b \<Longrightarrow> nb_readableBytes b = 0 \<longleftrightarrow> nb_content b = []"
  using nb_content_length[of b] by (metis length_0_conv nb_inv_wf)

section \<open>What sending and shutting down do\<close>

text \<open>The bytes written to a descriptor, and the writable side of the socket.\<close>

fun written_by :: "int \<Rightarrow> syscall \<Rightarrow> byte list" where
  "written_by fd (SysWrite g data) = (if g = fd then data else [])"
| "written_by fd _ = []"

definition written_to :: "int \<Rightarrow> syscall list \<Rightarrow> byte list" where
  "written_to fd tr = concat (map (written_by fd) tr)"

lemma written_to_simps [simp]:
  "written_to fd (tr @ [k]) = written_to fd tr @ written_by fd k"
  "written_to fd (rx_trace (request_result p ch e s)) = written_to fd (rx_trace s)"
  "written_to fd (rx_trace (queueInLoop b f s)) = written_to fd (rx_trace s)"
  by (simp_all add: written_to_def request_result_def)

lemma sendInLoop_up_eq:
  assumes inv: "conns_inv s" and c: "cx_conns s p = Some c" and up: "conn_up c"
  shows "TcpConnection_sendInLoop E True p message s =
    (if message = [] then Inr s
     else bindr (nb_append message (cn_output c)) (\<lambda>b.
       if nb_content (cn_output c) = [] then enableWrite p (put_conn p (c\<lparr>cn_output := b\<rparr>) s)
       else Inr (put_conn p (c\<lparr>cn_output := b\<rparr>) s)))"
proof -
  obtain ch where ch: "rx_chans s p = Some ch" "conn_ok p c ch" using conns_invD[OF inv c] by blast
  then have "ch_writeable ch \<longleftrightarrow> nb_readableBytes (cn_output c) \<noteq> 0"
    using conn_ok_up(3)[OF ch(2) up] readable_zero by (simp add: conn_ok_def)
  moreover have "ch_writeable ch \<longleftrightarrow> nb_content (cn_output c) \<noteq> []" by (rule conn_ok_up(3)[OF ch(2) up])
  ultimately show ?thesis
    using c ch(1) up by (auto simp: TcpConnection_sendInLoop_def conn_up_def)
qed

lemma conn_ok_append:
  assumes "conn_ok p c ch" and "conn_up c" and "nb_inv b" and "nb_content b \<noteq> []"
  shows "conn_ok p (c\<lparr>cn_output := b\<rparr>) (requested_with (kReadEvent OR kWriteEvent) ch)"
  using assms by (auto simp: conn_ok_def interest_ok_def conn_up_def split: sock_state.splits)

lemma sendInLoop_up:
  assumes inv: "conns_inv s" and c: "cx_conns s p = Some c" and up: "conn_up c" and len: "length message \<le> vec_max"
  shows "ok_res (\<lambda>s'. conns_inv s' \<and> conn_view s' = conn_view s \<and> cx_refs s' = cx_refs s \<and>
      el_pending s' = el_pending s \<and> cx_log s' = cx_log s \<and> returned s' = returned s \<and>
      conn_names s' = conn_names s \<and> chan_keys s' = chan_keys s \<and> wloop.more s' = wloop.more s \<and>
      (\<forall>fd. written_to fd (rx_trace s') = written_to fd (rx_trace s)) \<and>
      (\<exists>b. cx_conns s' = (cx_conns s)(p \<mapsto> c\<lparr>cn_output := b\<rparr>) \<and>
        nb_content b = nb_content (cn_output c) @ message))
    (TcpConnection_sendInLoop E True p message s)"
proof (cases "message = []")
  case True
  have "(cx_conns s)(p \<mapsto> c\<lparr>cn_output := cn_output c\<rparr>) = cx_conns s" using c by auto
  then show ?thesis
    using True inv by (auto simp: sendInLoop_up_eq[OF inv c up] intro!: exI[of _ "cn_output c"])
next
  case False
  obtain ch where ch: "rx_chans s p = Some ch" "conn_ok p c ch" using conns_invD[OF inv c] by blast
  note up' = conn_ok_up[OF ch(2) up]
  have out: "nb_inv (cn_output c)" using ch(2) by (simp add: conn_ok_def)
  have view: "(conn_view s)(p \<mapsto> (cn_state c, True)) = conn_view s"
    using view_at[OF c] ch(1) up'(1) by auto
  show ?thesis
    unfolding sendInLoop_up_eq[OF inv c up] if_not_P[OF False]
  proof (rule ok_res_bindr[OF nb_append_total[OF out len]])
    fix b
    assume b: "nb_inv b \<and> nb_content b = nb_content (cn_output c) @ message"
    let ?c = "c\<lparr>cn_output := b\<rparr>" and ?s = "put_conn p (c\<lparr>cn_output := b\<rparr>) s"
    have ok: "conn_ok p ?c (requested_with (kReadEvent OR kWriteEvent) ch)"
      by (rule conn_ok_append[OF ch(2) up]) (use b False in auto)
    show "ok_res (\<lambda>s'. conns_inv s' \<and> conn_view s' = conn_view s \<and> cx_refs s' = cx_refs s \<and>
        el_pending s' = el_pending s \<and> cx_log s' = cx_log s \<and> returned s' = returned s \<and>
        conn_names s' = conn_names s \<and> chan_keys s' = chan_keys s \<and> wloop.more s' = wloop.more s \<and>
        (\<forall>fd. written_to fd (rx_trace s') = written_to fd (rx_trace s)) \<and>
        (\<exists>b. cx_conns s' = (cx_conns s)(p \<mapsto> c\<lparr>cn_output := b\<rparr>) \<and>
          nb_content b = nb_content (cn_output c) @ message))
      (if nb_content (cn_output c) = [] then enableWrite p ?s else Inr ?s)"
    proof (cases "nb_content (cn_output c) = []")
      case True
      let ?t = "request_result p ch (kReadEvent OR kWriteEvent) ?s"
      have "rx_inv ?s" "rx_chans ?s p = Some ch" using inv ch(1) by simp_all
      from rx_request_law[OF this] have t: "enableWrite p ?s = Inr ?t" "rx_inv ?t"
        using up'(2) True by (simp_all add: enableWrite_def)
      moreover have "conns_inv ?t"
        by (rule conns_inv_upd[OF inv t(2) _ _ ok]) simp_all
      moreover have "conn_view ?t = conn_view s" "returned ?t = returned s" using view ch(1) up'(1) by simp_all
      moreover have "conn_names ?t = conn_names s" "chan_keys ?t = chan_keys s" using c ch(1) by simp_all
      ultimately show ?thesis using True b by auto
    next
      case nonempty: False
      have "requested_with (kReadEvent OR kWriteEvent) ch = ch"
        using up' nonempty by (simp add: requested_with_def)
      then have "conns_inv ?s" using conns_inv_put[OF inv ch(1)] ok by simp
      moreover have "conn_view ?s = conn_view s" using view ch(1) up'(1) by simp
      moreover have "conn_names ?s = conn_names s" using c by simp
      ultimately show ?thesis using nonempty b by auto
    qed
  qed
qed

lemma shutdownInLoop_ok:
  assumes inv: "conns_inv s" and c: "cx_conns s p = Some c" and up: "conn_up c"
  shows "shutdownInLoop True p s =
      Inr (if nb_content (cn_output c) = [] then sys_call (SysShutdownWrite (cn_fd c)) s else s)"
proof -
  obtain ch where ch: "rx_chans s p = Some ch" "conn_ok p c ch" using conns_invD[OF inv c] by blast
  with conn_ok_up(3)[OF ch(2) up] c show ?thesis by (simp add: shutdownInLoop_def)
qed

section \<open>Calls keep the invariants\<close>

fun call_ok :: "'z wloop_scheme \<Rightarrow> conn_call \<Rightarrow> bool" where
  "call_ok s (CcSend p data) = (cx_conns s p \<noteq> None \<and> length data \<le> vec_max)"
| "call_ok s (CcSendInput q p) = (cx_conns s q \<noteq> None \<and> cx_conns s p \<noteq> None)"
| "call_ok s (CcShutdown p) = (cx_conns s p \<noteq> None)"
| "call_ok s (CcForceClose p) = (cx_conns s p \<noteq> None)"
| "call_ok s (CcRetrieve p n) = (cx_conns s p \<noteq> None)"
| "call_ok s (CcRetrieveAll p) = (cx_conns s p \<noteq> None)"
| "call_ok s (CcSetTcpNoDelay p b) = (cx_conns s p \<noteq> None)"

text \<open>The calls other threads may make on a connection.\<close>

fun thread_call :: "conn_call \<Rightarrow> bool" where
  "thread_call (CcSend p data) = True"
| "thread_call (CcShutdown p) = True"
| "thread_call (CcForceClose p) = True"
| "thread_call _ = False"

lemma call_ok_frame: "call_ok s cc \<Longrightarrow> conn_frame s s' \<Longrightarrow> call_ok s' cc"
  unfolding conn_frame_def by (cases cc) auto

lemma sys_inv_same:
  assumes "sys_inv rest s" and "conns_inv s'" and "conn_view s' = conn_view s" and "cx_refs s' = cx_refs s"
    and "el_pending s' = el_pending s" and "returned s' = returned s" and "conn_names s' = conn_names s"
    and "chan_keys s' = chan_keys s" and "wloop.more s' = wloop.more s"
  shows "sys_inv rest s' \<and> conn_frame s s'"
proof -
  have "cx_conns s' q \<noteq> None \<longleftrightarrow> cx_conns s q \<noteq> None" for q
    using arg_cong[OF assms(3), of "\<lambda>V. V q \<noteq> None"] by simp
  then show ?thesis using assms by (simp add: sys_inv_def conn_frame_def)
qed

lemma conn_up_cases: "conn_up c \<longleftrightarrow> cn_state c = CONNECTED \<or> cn_state c = DISCONNECTING"
  by (simp add: conn_up_def)

lemma sys_inv_conns [simp]: "sys_inv rest s \<Longrightarrow> conns_inv s"
  by (simp add: sys_inv_def)

lemma up_owned:
  assumes "sys_inv rest s" and "cx_conns s p = Some c" and "cn_state c \<noteq> DISCONNECTED"
  shows "p \<in> cx_refs s"
  using assms life_refs[of _ _ _ p] view_at[of s p c] unfolding sys_inv_def by blast

lemma put_same:
  assumes inv: "sys_inv rest s" and c: "cx_conns s p = Some c" and ch: "rx_chans s p = Some ch"
    and ok: "conn_ok p c' ch" and st: "cn_state c' = cn_state c" "cn_name c' = cn_name c"
  shows "sys_inv rest (put_conn p c' s) \<and> conn_frame s (put_conn p c' s)"
  using view_at[OF c] st c
  by (intro sys_inv_same[OF inv] conns_inv_put[OF _ ch ok]) (use inv in auto)

lemma with_input_ok:
  assumes inv: "sys_inv rest s" and c: "cx_conns s p = Some c"
    and f: "f (cn_input c) = Inr b" "nb_inv b"
  shows "with_input p f s = Inr (put_conn p (c\<lparr>cn_input := b\<rparr>) s)"
    and "sys_inv rest (put_conn p (c\<lparr>cn_input := b\<rparr>) s) \<and> conn_frame s (put_conn p (c\<lparr>cn_input := b\<rparr>) s)"
proof -
  show "with_input p f s = Inr (put_conn p (c\<lparr>cn_input := b\<rparr>) s)"
    using c f by (simp add: with_input_def)
  obtain ch where ch: "rx_chans s p = Some ch" "conn_ok p c ch"
    using conns_invD[OF sys_inv_conns[OF inv] c] by blast
  then have "conn_ok p (c\<lparr>cn_input := b\<rparr>) ch" using f(2) by (auto simp: conn_ok_def interest_ok_def split: sock_state.splits)
  then show "sys_inv rest (put_conn p (c\<lparr>cn_input := b\<rparr>) s) \<and> conn_frame s (put_conn p (c\<lparr>cn_input := b\<rparr>) s)"
    by (intro put_same[OF inv c ch(1)]) simp_all
qed

lemma up_state:
  assumes inv: "sys_inv rest s" and c: "cx_conns s p = Some c" and up: "conn_up c"
    and st: "st = CONNECTED \<or> st = DISCONNECTING"
  shows "sys_inv rest (put_conn p (c\<lparr>cn_state := st\<rparr>) s) \<and> conn_frame s (put_conn p (c\<lparr>cn_state := st\<rparr>) s)"
proof -
  obtain ch where ch: "rx_chans s p = Some ch" "conn_ok p c ch"
    using conns_invD[OF sys_inv_conns[OF inv] c] by blast
  let ?s = "put_conn p (c\<lparr>cn_state := st\<rparr>) s"
  have V: "conn_view s p = Some (cn_state c, True)"
    using view_at[OF c] ch(1) conn_ok_up(1)[OF ch(2) up] by simp
  have ok: "conn_ok p (c\<lparr>cn_state := st\<rparr>) ch"
    using ch(2) up st by (auto simp: conn_ok_def interest_ok_def conn_up_def)
  have l: "life (rest @ el_pending s) (cx_refs s) (conn_view s)" using inv by (simp add: sys_inv_def)
  have "life (rest @ el_pending s) (cx_refs s) ((conn_view s)(p \<mapsto> (st, True)))"
    by (rule life_upd[OF l V])
      (use up st up_owned[OF inv c] life_not_establish[OF l V] in \<open>auto simp: conn_up_def\<close>)
  moreover have "conns_inv ?s" using conns_inv_put[OF _ ch(1) ok] inv by simp
  moreover have "ch_state ch \<noteq> NEW" using conn_ok_up(1)[OF ch(2) up] by simp
  moreover have "conn_frame s ?s"
    using V up st conn_ok_up(1)[OF ch(2) up] ch(1) c by (auto simp: conn_frame_def conn_up_def view_up_def)
  ultimately show ?thesis using ch(1) by (simp add: sys_inv_def)
qed

lemma push_task:
  assumes inv: "sys_inv rest s" and "task_ok (conn_view s) f" and "\<And>p. f \<noteq> FnDestroy p" and "\<And>p. f \<noteq> FnEstablish p"
    and "\<And>p. raw_ptr f = Some p \<Longrightarrow> p \<in> cx_refs s" and "\<not> server_task f"
  shows "sys_inv rest (queueInLoop b f s) \<and> conn_frame s (queueInLoop b f s)"
  using life_push[of "rest @ el_pending s" "cx_refs s" "conn_view s" f] assms
  by (simp add: sys_inv_def conn_frame_def)

lemma send_ok:
  assumes inv: "sys_inv rest s" and c: "cx_conns s p = Some c" and len: "length data \<le> vec_max"
  shows "ok_res (\<lambda>s'. sys_inv rest s' \<and> conn_frame s s') (TcpConnection_send E inLoop p data s)"
proof (cases "cn_state c = CONNECTED")
  case True
  then have up: "conn_up c" by (simp add: conn_up_def)
  have loop: "ok_res (\<lambda>s'. sys_inv rest s' \<and> conn_frame s s') (TcpConnection_sendInLoop E True p data s)"
    by (rule ok_res_mono[OF sendInLoop_up[OF sys_inv_conns[OF inv] c up len]])
      (use inv in \<open>auto intro: sys_inv_same[THEN conjunct1] sys_inv_same[THEN conjunct2]\<close>)
  have "sys_inv rest (queueInLoop False (FnSend p data) s) \<and> conn_frame s (queueInLoop False (FnSend p data) s)"
    by (rule push_task[OF inv]) (use view_at[OF c] True up_owned[OF inv c] len in auto)
  with loop show ?thesis using c True by (cases inLoop) (simp_all add: TcpConnection_send_eq runInLoop_def)
next
  case False
  then show ?thesis using c inv by (simp add: TcpConnection_send_eq)
qed

lemma shutdown_ok:
  assumes inv: "sys_inv rest s" and c: "cx_conns s p = Some c"
  shows "ok_res (\<lambda>s'. sys_inv rest s' \<and> conn_frame s s') (TcpConnection_shutdown inLoop p s)"
proof (cases "cn_state c = CONNECTED")
  case True
  then have up: "conn_up c" by (simp add: conn_up_def)
  let ?c = "c\<lparr>cn_state := DISCONNECTING\<rparr>" and ?s = "put_conn p (c\<lparr>cn_state := DISCONNECTING\<rparr>) s"
  have s1: "sys_inv rest ?s" "conn_frame s ?s" using up_state[OF inv c up, of DISCONNECTING] by auto
  have c1: "cx_conns ?s p = Some ?c" "conn_up ?c" by (simp_all add: conn_up_def)
  have loop: "ok_res (\<lambda>s'. sys_inv rest s' \<and> conn_frame s s') (shutdownInLoop True p ?s)"
    using shutdownInLoop_ok[OF sys_inv_conns[OF s1(1)] c1] s1
      sys_inv_same[OF s1(1), of "sys_call (SysShutdownWrite (cn_fd ?c)) ?s"]
    by (auto intro: conn_frame_trans)
  have "sys_inv rest (queueInLoop False (FnShutdown p) ?s) \<and> conn_frame ?s (queueInLoop False (FnShutdown p) ?s)"
    by (rule push_task[OF s1(1)]) (use view_at[OF c1(1)] up_owned[OF s1(1) c1(1)] in auto)
  then have "sys_inv rest (queueInLoop False (FnShutdown p) ?s) \<and> conn_frame s (queueInLoop False (FnShutdown p) ?s)"
    using conn_frame_trans[OF s1(2)] by blast
  with loop show ?thesis using c True by (cases inLoop) (simp_all add: TcpConnection_shutdown_eq runInLoop_def)
next
  case False
  then show ?thesis using c inv by (simp add: TcpConnection_shutdown_eq)
qed

lemma forceClose_ok:
  assumes inv: "sys_inv rest s" and c: "cx_conns s p = Some c"
  shows "ok_res (\<lambda>s'. sys_inv rest s' \<and> conn_frame s s') (TcpConnection_forceClose inLoop p s)"
proof (cases "conn_up c")
  case True
  let ?s = "put_conn p (c\<lparr>cn_state := DISCONNECTING\<rparr>) s"
  have s1: "sys_inv rest ?s" "conn_frame s ?s" using up_state[OF inv c True, of DISCONNECTING] by auto
  have "sys_inv rest (queueInLoop inLoop (FnForceClose p) ?s) \<and> conn_frame ?s (queueInLoop inLoop (FnForceClose p) ?s)"
    by (rule push_task[OF s1(1)]) auto
  then have "sys_inv rest (queueInLoop inLoop (FnForceClose p) ?s) \<and> conn_frame s (queueInLoop inLoop (FnForceClose p) ?s)"
    using conn_frame_trans[OF s1(2)] by blast
  then show ?thesis
    using c True by (auto simp: TcpConnection_forceClose_eq setSocketState_def conn_up_def)
next
  case False
  then show ?thesis using c inv by (auto simp: TcpConnection_forceClose_eq conn_up_def)
qed

text \<open>The second halves of the calls of other threads, on a connection that is up.\<close>

lemma mark_ok:
  assumes inv: "sys_inv rest s" and c: "cx_conns s p = Some c" and up: "conn_up c"
  shows "ok_res (\<lambda>s'. sys_inv rest s' \<and> conn_frame s s') (setSocketState p DISCONNECTING s)"
  using up_state[OF inv c up, of DISCONNECTING] c by (simp add: setSocketState_def)

fun post_ok :: "'z wloop_scheme \<Rightarrow> task \<Rightarrow> bool" where
  "post_ok s (FnSend p data) \<longleftrightarrow> (\<exists>c. cx_conns s p = Some c \<and> conn_up c) \<and> length data \<le> vec_max"
| "post_ok s (FnShutdown p) \<longleftrightarrow> (\<exists>c. cx_conns s p = Some c \<and> conn_up c)"
| "post_ok s (FnForceClose p) \<longleftrightarrow> (\<exists>c. cx_conns s p = Some c \<and> conn_up c)"
| "post_ok s _ \<longleftrightarrow> False"

lemma post_task_ok:
  assumes inv: "sys_inv rest s" and ok: "post_ok s f"
  shows "sys_inv rest (queueInLoop False f s) \<and> conn_frame s (queueInLoop False f s)"
proof -
  obtain p c where c: "cx_conns s p = Some c" "conn_up c" and f: "f = FnShutdown p \<or> f = FnForceClose p \<or>
      (\<exists>data. f = FnSend p data \<and> length data \<le> vec_max)"
    using ok by (cases f) auto
  then have "cn_state c \<noteq> DISCONNECTED" "cn_state c \<noteq> CONNECTING" by (auto simp: conn_up_def)
  then show ?thesis
    using f up_owned[OF inv c(1)] view_at[OF c(1)] by (intro push_task[OF inv]) auto
qed

lemma sendInput_ok:
  assumes inv: "sys_inv rest s" and q: "cx_conns s q = Some d" and c: "cx_conns s p = Some c"
  shows "ok_res (\<lambda>s'. sys_inv rest s' \<and> conn_frame s s') (run_conn_call E True (CcSendInput q p) s)"
proof (cases "cn_state c = CONNECTED")
  case True
  let ?buf = "cn_input d"
  obtain ch where "conn_ok q d ch" using conns_invD[OF sys_inv_conns[OF inv] q] by blast
  then have buf: "nb_inv ?buf" by (simp add: conn_ok_def)
  then have wf: "nb_readIndex ?buf \<le> nb_writeIndex ?buf" "nb_writeIndex ?buf \<le> length (nb_buffer ?buf)"
    "length (nb_buffer ?buf) \<le> vec_max" by (simp_all add: nb_inv_def nb_wf_def)
  have rd: "read_range (nb_buffer ?buf) (nb_readIndex ?buf) (nb_readableBytes ?buf) = Inr (nb_content ?buf)"
    using wf buf by (simp add: nb_sizes nb_content_def)
  have len: "length (nb_content ?buf) \<le> vec_max" using wf by (simp add: nb_content_def)
  have up: "conn_up c" using True by (simp add: conn_up_def)
  have "ok_res (\<lambda>s'. sys_inv rest s' \<and> conn_frame s s')
      (bindr (TcpConnection_sendInLoop E True p (nb_content ?buf) s)
        (\<lambda>s1. with_input q (\<lambda>_. Inr (nb_retrieveAll ?buf)) s1))"
  proof (rule ok_res_bindr[OF sendInLoop_up[OF sys_inv_conns[OF inv] c up len]])
    fix t :: "'a wloop_scheme"
    assume t: "conns_inv t \<and> conn_view t = conn_view s \<and> cx_refs t = cx_refs s \<and>
      el_pending t = el_pending s \<and> cx_log t = cx_log s \<and> returned t = returned s \<and>
      conn_names t = conn_names s \<and> chan_keys t = chan_keys s \<and> wloop.more t = wloop.more s \<and>
      (\<forall>fd. written_to fd (rx_trace t) = written_to fd (rx_trace s)) \<and>
      (\<exists>b. cx_conns t = (cx_conns s)(p \<mapsto> c\<lparr>cn_output := b\<rparr>) \<and> nb_content b = nb_content (cn_output c) @ nb_content ?buf)"
    then have t1: "sys_inv rest t" "conn_frame s t" using sys_inv_same[OF inv, of t] by auto
    then obtain d' where d': "cx_conns t q = Some d'" using q by (auto simp: conn_frame_def)
    have "with_input q (\<lambda>_. Inr (nb_retrieveAll ?buf)) t = Inr (put_conn q (d'\<lparr>cn_input := nb_retrieveAll ?buf\<rparr>) t)"
      "sys_inv rest (put_conn q (d'\<lparr>cn_input := nb_retrieveAll ?buf\<rparr>) t)"
      "conn_frame t (put_conn q (d'\<lparr>cn_input := nb_retrieveAll ?buf\<rparr>) t)"
      using with_input_ok[OF t1(1) d', of "\<lambda>_. Inr (nb_retrieveAll ?buf)" "nb_retrieveAll ?buf"]
        nb_retrieveAll_ok[OF buf] by auto
    then show "ok_res (\<lambda>s'. sys_inv rest s' \<and> conn_frame s s') (with_input q (\<lambda>_. Inr (nb_retrieveAll ?buf)) t)"
      using conn_frame_trans[OF t1(2)] by auto
  qed
  then show ?thesis
    using q c True rd by (simp add: run_conn_call_def TcpConnection_sendBuffer_def bindr_assoc)
next
  case False
  obtain ch where ch: "conn_ok q d ch" using conns_invD[OF sys_inv_conns[OF inv] q] by blast
  then have "nb_inv (cn_input d)" by (simp add: conn_ok_def)
  then show ?thesis
    using q c False with_input_ok[OF inv q, of "\<lambda>_. Inr (cn_input d)" "cn_input d"]
    by (simp add: run_conn_call_def TcpConnection_sendBuffer_def)
qed

lemma run_conn_call_ok:
  assumes inv: "sys_inv rest s" and ok: "call_ok s cc" and who: "inLoop \<or> thread_call cc"
  shows "ok_res (\<lambda>s'. sys_inv rest s' \<and> conn_frame s s') (run_conn_call E inLoop cc s)"
proof (cases cc)
  case (CcSendInput q p)
  then show ?thesis using ok who sendInput_ok[OF inv, of q _ p] by auto
next
  case (CcRetrieve p n)
  then obtain c where c: "cx_conns s p = Some c" using ok by auto
  obtain ch where "conn_ok p c ch" using conns_invD[OF sys_inv_conns[OF inv] c] by blast
  then have buf: "nb_inv (cn_input c)" by (simp add: conn_ok_def)
  then have "\<exists>b. (if n \<le> nb_readableBytes (cn_input c) then nb_retrieve n (cn_input c) else Inr (cn_input c)) = Inr b \<and> nb_inv b"
    using nb_retrieve_ok[of "cn_input c" n] nb_content_length[of "cn_input c"] by auto
  then obtain b where "(if n \<le> nb_readableBytes (cn_input c) then nb_retrieve n (cn_input c) else Inr (cn_input c)) = Inr b"
    "nb_inv b" by blast
  from with_input_ok[OF inv c, of "\<lambda>b. if n \<le> nb_readableBytes b then nb_retrieve n b else Inr b", OF this]
  show ?thesis using CcRetrieve by (simp add: run_conn_call_def)
next
  case (CcRetrieveAll p)
  then obtain c where c: "cx_conns s p = Some c" using ok by auto
  obtain ch where "conn_ok p c ch" using conns_invD[OF sys_inv_conns[OF inv] c] by blast
  then have "nb_inv (nb_retrieveAll (cn_input c))" using nb_retrieveAll_ok by (simp add: conn_ok_def)
  from with_input_ok[OF inv c, of "\<lambda>b. Inr (nb_retrieveAll b)", OF refl this]
  show ?thesis using CcRetrieveAll by (simp add: run_conn_call_def)
next
  case (CcSetTcpNoDelay p b)
  then obtain c where c: "cx_conns s p = Some c" using ok by auto
  show ?thesis
    using CcSetTcpNoDelay c sys_inv_same[OF inv, of "sys_call (SysSetTcpNoDelay (cn_fd c) b) s"] inv
    by (simp add: run_conn_call_def TcpConnection_setTcpNoDelay_def)
qed (use ok send_ok[OF inv] shutdown_ok[OF inv] forceClose_ok[OF inv] in \<open>auto simp: run_conn_call_def\<close>)

definition app_ok :: "('z wloop_scheme) conn_env \<Rightarrow> bool" where
  "app_ok E \<longleftrightarrow> (\<forall>ev s. \<forall>cc \<in> set (ce_app E ev s). call_ok s cc)"

lemma notify_ok:
  assumes inv: "sys_inv rest s" and c: "cx_conns s p = Some c" and app: "app_ok E"
  shows "ok_res (\<lambda>s'. sys_inv rest s' \<and> conn_frame s s') (notify E ev p s)"
proof -
  let ?s = "s\<lparr>cx_log := cx_log s @ [(ev, cn_state c)]\<rparr>"
  have s1: "sys_inv rest ?s" "conn_frame s ?s" using sys_inv_same[OF inv, of ?s] inv by auto
  have "ok_res (\<lambda>u. sys_inv rest u \<and> conn_frame ?s u) (fold_res (run_conn_call E True) (ce_app E ev ?s) ?s)"
  proof (rule ok_res_fold)
    fix cc u
    assume cc: "cc \<in> set (ce_app E ev ?s)" and u: "sys_inv rest u \<and> conn_frame ?s u"
    have "call_ok u cc" using app cc u call_ok_frame unfolding app_ok_def by blast
    then show "ok_res (\<lambda>u. sys_inv rest u \<and> conn_frame ?s u) (run_conn_call E True cc u)"
      by (intro ok_res_mono[OF run_conn_call_ok[of rest u]]) (use u in \<open>auto intro: conn_frame_trans\<close>)
  qed (use s1 in simp)
  then have "ok_res (\<lambda>s'. sys_inv rest s' \<and> conn_frame s s') (fold_res (run_conn_call E True) (ce_app E ev ?s) ?s)"
    by (rule ok_res_mono) (use s1(2) in \<open>auto intro: conn_frame_trans\<close>)
  then show ?thesis using c by (simp add: notify_def)
qed

lemma connectionCallback_ok:
  assumes inv: "sys_inv rest s" and c: "cx_conns s p = Some c" and app: "app_ok E"
  shows "ok_res (\<lambda>s'. sys_inv rest s' \<and> conn_frame s s') (connectionCallback E p s)"
  using assms notify_ok[OF assms] by (simp add: connectionCallback_def)

section \<open>Events keep the invariants\<close>

lemma raw_ok_snoc: "raw_ok refs qs \<Longrightarrow> raw_ok refs (qs @ [FnDestroy p])"
  by (induction qs) auto

lemma life_push_destroy:
  assumes "life qs refs V" and "V p = Some (DISCONNECTED, b)"
  shows "life (qs @ [FnDestroy p]) refs V"
  using assms raw_ok_snoc[of refs qs p] unfolding life_def by auto

text \<open>Setting the state to disconnected and disabling the channel, on a connection that is up.\<close>

lemma go_down:
  assumes inv: "sys_inv rest s" and c: "cx_conns s p = Some c" and up: "conn_up c"
  obtains u where "disableAll p (put_conn p (c\<lparr>cn_state := DISCONNECTED\<rparr>) s) = Inr u"
    and "sys_inv rest u" and "cx_refs u = cx_refs s" and "cx_conns u = (cx_conns s)(p \<mapsto> c\<lparr>cn_state := DISCONNECTED\<rparr>)"
    and "conn_view u = (conn_view s)(p \<mapsto> (DISCONNECTED, True))" and "p \<in> cx_refs s"
    and "returned u = returned s" and "conn_ext s u"
    and "\<And>fd. written_to fd (rx_trace u) = written_to fd (rx_trace s)"
proof -
  obtain ch where ch: "rx_chans s p = Some ch" "conn_ok p c ch"
    using conns_invD[OF sys_inv_conns[OF inv] c] by blast
  let ?c = "c\<lparr>cn_state := DISCONNECTED\<rparr>" and ?s = "put_conn p (c\<lparr>cn_state := DISCONNECTED\<rparr>) s"
  let ?u = "request_result p ch 0 ?s"
  have refs: "p \<in> cx_refs s" using up_owned[OF inv c] up by (auto simp: conn_up_def)
  have V: "conn_view s p = Some (cn_state c, True)"
    using view_at[OF c] ch(1) conn_ok_up(1)[OF ch(2) up] by simp
  have rx: "rx_inv ?s" "rx_chans ?s p = Some ch" using inv ch(1) by simp_all
  have eq: "disableAll p ?s = Inr ?u" and rxu: "rx_inv ?u"
    using rx_request_law[OF rx] by (simp_all add: disableAll_def kNoneEvent_def)
  have "next_state (ch_state ch) 0 \<noteq> ADDED"
    using conn_ok_up(1)[OF ch(2) up] by simp
  then have ok: "conn_ok p ?c (requested_with 0 ch)"
    using ch(2) by (auto simp: conn_ok_def interest_ok_def split: sock_state.splits)
  have cinv: "conns_inv ?u"
    by (rule conns_inv_upd[OF sys_inv_conns[OF inv] rxu _ _ ok]) simp_all
  have view: "conn_view ?u = (conn_view s)(p \<mapsto> (DISCONNECTED, True))"
    using ch(1) by simp
  have l: "life (rest @ el_pending s) (cx_refs s) (conn_view s)" using inv by (simp add: sys_inv_def)
  have "life (rest @ el_pending s) (cx_refs s) ((conn_view s)(p \<mapsto> (DISCONNECTED, True)))"
    by (rule life_upd[OF l V])
      (use refs up life_not_establish[OF l V] in \<open>auto simp: conn_up_def\<close>)
  then have iu: "sys_inv rest ?u" using cinv view by (simp add: sys_inv_def)
  have "conn_ext s ?u" by (rule conn_ext_view[OF view]) (use c ch(1) in simp_all)
  with iu show ?thesis by (intro that[OF eq _ _ _ view refs]) (simp_all add: ch(1))
qed

lemma view_downD: "conn_view s p = Some (st, b) \<Longrightarrow> \<exists>c. cx_conns s p = Some c \<and> cn_state c = st"
  by (auto simp: conn_view_def)

lemma close_set: "sys_inv rest s \<Longrightarrow> cx_conns s p = Some c \<Longrightarrow> \<exists>cb. cn_closeCb c = Some cb"
  using conns_invD[of s p c] by (fastforce simp: conn_ok_def)

lemma sys_inv_head:
  assumes "sys_inv (f # rest) s" and "\<And>p. f \<noteq> FnDestroy p"
  shows "sys_inv rest s"
  using assms life_pop by (fastforce simp: sys_inv_def)

text \<open>
  \<open>stream\<close>: everything the connection's descriptor was given, followed by what still waits in
  the output buffer.
\<close>

definition stream :: "ptr \<Rightarrow> 'z wloop_scheme \<Rightarrow> byte list option" where
  "stream p s = map_option (\<lambda>c. written_to (cn_fd c) (rx_trace s) @ nb_content (cn_output c)) (cx_conns s p)"

lemma written_frames [simp]:
  "written_to fd (rx_trace (put_conn p c s)) = written_to fd (rx_trace s)"
  "written_to fd (rx_trace (sys_call k s)) = written_to fd (rx_trace s) @ written_by fd k"
  by simp_all

lemma conn_ok_output:
  assumes "conn_ok p c ch" and "conn_up c" and "nb_inv b"
    and "ch_requested ch' = (if nb_content b = [] then kReadEvent else kReadEvent OR kWriteEvent)"
    and "ch' = requested_with (ch_requested ch') ch \<or> ch' = ch"
  shows "conn_ok p (c\<lparr>cn_output := b\<rparr>) ch'"
proof -
  have "ch_state ch' = ADDED"
    using assms(4,5) conn_ok_up(1)[OF assms(1,2)] by (auto simp del: kevents(1) split: if_splits)
  moreover have "ch_fd ch' = ch_fd ch" "ch_readCb ch' = ch_readCb ch" "ch_writeCb ch' = ch_writeCb ch"
    "ch_errorCb ch' = ch_errorCb ch" "ch_closeCb ch' = ch_closeCb ch"
    using assms(5) by (metis requested_with_simps)+
  ultimately show ?thesis
    using assms(1-4) by (simp add: conn_ok_def interest_ok_def conn_up_def split: sock_state.splits)
qed

text \<open>\<open>handleWrite\<close> on a connection that waits to write: \<open>n\<close> is the result of \<open>write\<close>.\<close>

lemma handleWrite_up:
  assumes inv: "sys_inv rest s" and c: "cx_conns s p = Some c" and up: "conn_up c"
    and n: "0 < n" "nat n \<le> length (nb_content (cn_output c))"
  obtains s' b where "conn_handleWrite n p s = Inr s'" and "sys_inv rest s'" and "conn_frame s s'"
    and "cx_conns s' = (cx_conns s)(p \<mapsto> c\<lparr>cn_output := b\<rparr>)"
    and "nb_content b = drop (nat n) (nb_content (cn_output c))"
    and "rx_trace s' = rx_trace s @ [SysWrite (cn_fd c) (take (nat n) (nb_content (cn_output c)))] @
      (if nb_content b = [] then SysEpollCtl CtlMod (cn_fd c) kReadEvent p #
          (if cn_state c = DISCONNECTING then [SysShutdownWrite (cn_fd c)] else []) else [])"
    and "el_pending s' = el_pending s"
proof -
  obtain ch where ch: "rx_chans s p = Some ch" "conn_ok p c ch"
    using conns_invD[OF sys_inv_conns[OF inv] c] by blast
  have buf: "nb_inv (cn_output c)" and fd: "ch_fd ch = cn_fd c" using ch(2) by (simp_all add: conn_ok_def)
  have ne: "nb_content (cn_output c) \<noteq> []" using n by auto
  then have wr: "ch_writeable ch" and req: "ch_requested ch = kReadEvent OR kWriteEvent"
    and st: "ch_state ch = ADDED" using conn_ok_up[OF ch(2) up] by simp_all
  obtain b where b: "nb_retrieve (nat n) (cn_output c) = Inr b"
    "nb_content b = drop (nat n) (nb_content (cn_output c))" "nb_inv b"
    using nb_retrieve_ok[OF nb_inv_wf[OF buf] n(2)] buf by blast
  have rd: "read_range (nb_buffer (cn_output c)) (nb_readIndex (cn_output c)) (nat n) =
      Inr (take (nat n) (nb_content (cn_output c)))"
  proof -
    have wf: "nb_readIndex (cn_output c) \<le> nb_writeIndex (cn_output c)"
      "nb_writeIndex (cn_output c) \<le> length (nb_buffer (cn_output c))"
      using buf by (simp_all add: nb_inv_def nb_wf_def)
    then have "nat n \<le> nb_writeIndex (cn_output c) - nb_readIndex (cn_output c)"
      using n(2) by (simp add: nb_content_def)
    with wf show ?thesis by (simp add: nb_content_def min_absorb1)
  qed
  let ?c = "c\<lparr>cn_output := b\<rparr>"
  let ?w = "sys_call (SysWrite (cn_fd c) (take (nat n) (nb_content (cn_output c)))) s"
  let ?s1 = "put_conn p ?c ?w"
  have up': "conn_up ?c" and V: "conn_view s p = Some (cn_state c, True)" using up view_at[OF c] ch(1) st
    by (simp_all add: conn_up_def)
  have V': "(conn_view s)(p \<mapsto> (cn_state c, True)) = conn_view s" using V by auto
  have b0: "nb_readableBytes b = 0 \<longleftrightarrow> nb_content b = []" by (rule readable_zero[OF b(3)])
  have cw: "conns_inv ?w" using inv by simp
  have eq: "conn_handleWrite n p s = bindr (if nb_content b = [] then disableWrite p ?s1 else Inr ?s1)
      (\<lambda>s2. if cn_state c = DISCONNECTING then shutdownInLoop True p s2 else Inr s2)"
    using c ch(1) wr n(1) rd b(1) b0 by (simp add: conn_handleWrite_def)
  show ?thesis
  proof (cases "nb_content b = []")
    case False
    have ok: "conn_ok p ?c ch"
      by (rule conn_ok_output[OF ch(2) up b(3)]) (use req False in auto)
    have i1: "conns_inv ?s1" using conns_inv_put[OF cw _ ok] ch(1) by simp
    have i: "sys_inv rest ?s1 \<and> conn_frame s ?s1"
      by (rule sys_inv_same[OF inv i1]) (use c ch(1) st V' in simp_all)
    have c1: "cx_conns ?s1 p = Some ?c" by simp
    have "conn_handleWrite n p s = Inr ?s1"
      using eq False shutdownInLoop_ok[OF i1 c1 up'] by simp
    then show ?thesis
      by (rule that[of ?s1 b]) (use i b(2) False in \<open>auto simp: sys_call_def\<close>)
  next
    case True
    let ?s2 = "request_result p ch kReadEvent ?s1"
    have rx: "rx_inv ?s1" "rx_chans ?s1 p = Some ch" using cw ch(1) by simp_all
    from rx_request_law[OF rx] have dis: "disableWrite p ?s1 = Inr ?s2" "rx_inv ?s2"
      using req by (simp_all add: disableWrite_def)
    have ok: "conn_ok p ?c (requested_with kReadEvent ch)"
      by (rule conn_ok_output[OF ch(2) up b(3)]) (use True in auto)
    have i2: "conns_inv ?s2" by (rule conns_inv_upd[OF cw dis(2) _ _ ok]) simp_all
    have i: "sys_inv rest ?s2 \<and> conn_frame s ?s2"
      by (rule sys_inv_same[OF inv i2]) (use c ch(1) V' st in simp_all)
    have c2: "cx_conns ?s2 p = Some ?c" by simp
    let ?s3 = "if cn_state c = DISCONNECTING then sys_call (SysShutdownWrite (cn_fd c)) ?s2 else ?s2"
    have i3: "sys_inv rest ?s3 \<and> conn_frame ?s2 ?s3"
      using sys_inv_same[of rest ?s2 "sys_call (SysShutdownWrite (cn_fd c)) ?s2"] i by auto
    have "conn_handleWrite n p s = Inr ?s3"
      using eq True dis shutdownInLoop_ok[OF i2 c2 up'] by simp
    then show ?thesis
      by (rule that[of ?s3 b])
        (use i i3 b(2) True fd st conn_frame_trans[of s ?s2 ?s3] in \<open>auto simp: sys_call_def request_result_def\<close>)
  qed
qed

lemma handleWrite_down:
  assumes inv: "sys_inv rest s" and c: "cx_conns s p = Some c" and "\<not> conn_up c \<or> n \<le> 0 \<or> nb_content (cn_output c) = []"
  shows "conn_handleWrite n p s = Inr s"
proof -
  obtain ch where ch: "rx_chans s p = Some ch" "conn_ok p c ch"
    using conns_invD[OF sys_inv_conns[OF inv] c] by blast
  have "\<not> ch_writeable ch \<or> n \<le> 0"
    using assms(3) ch(2) conn_ok_up(3)[OF ch(2)]
    by (cases "conn_up c") (auto simp: conn_ok_def interest_ok_def conn_up_def ch_writeable_def split: sock_state.splits)
  then show ?thesis using c ch(1) by (auto simp: conn_handleWrite_def)
qed

lemma handleWrite_ok:
  assumes inv: "sys_inv rest s" and c: "cx_conns s p = Some c" and n: "nat n \<le> length (nb_content (cn_output c))"
  shows "\<exists>s'. conn_handleWrite n p s = Inr s' \<and> sys_inv rest s' \<and> conn_frame s s' \<and> el_pending s' = el_pending s"
proof (cases "conn_up c \<and> 0 < n")
  case True
  then have "conn_up c" "0 < n" by simp_all
  from handleWrite_up[OF inv c this n] show ?thesis by metis
next
  case False
  then show ?thesis using handleWrite_down[OF inv c] inv by (auto simp: not_less)
qed

text \<open>Entering and leaving the selector.\<close>

lemma life_establish_head:
  assumes "life (FnEstablish p # qs) refs V"
  shows "FnEstablish p \<notin> set qs" and "\<exists>b. V p = Some (CONNECTING, b)"
proof -
  have "distinct (p # concat (map establish_ptr qs))" using assms by (simp add: life_def)
  moreover have "p \<in> set (concat (map establish_ptr qs))" if "FnEstablish p \<in> set qs"
    using that by force
  ultimately show "FnEstablish p \<notin> set qs" by auto
  show "\<exists>b. V p = Some (CONNECTING, b)" using assms by (simp add: life_def)
qed

lemma establish_ok:
  assumes inv: "sys_inv rest s" and c: "cx_conns s p = Some c" and st: "cn_state c = CONNECTING"
    and once: "FnEstablish p \<notin> set (rest @ el_pending s)" and app: "app_ok E"
  shows "ok_res (\<lambda>s'. sys_inv rest s' \<and> conn_ext s s' \<and> events_ext s s') (connectionEstablish E p s)"
proof -
  obtain ch where ch: "rx_chans s p = Some ch" "conn_ok p c ch"
    using conns_invD[OF sys_inv_conns[OF inv] c] by blast
  let ?c = "c\<lparr>cn_state := CONNECTED\<rparr>" and ?s = "put_conn p (c\<lparr>cn_state := CONNECTED\<rparr>) s"
  let ?u = "request_result p ch kReadEvent ?s"
  have new: "ch_state ch = NEW" "ch_requested ch = 0" "nb_content (cn_output c) = []"
    using ch(2) st by (simp_all add: conn_ok_def interest_ok_def)
  have rx: "rx_inv ?s" "rx_chans ?s p = Some ch" using inv ch(1) by simp_all
  have en: "enableRead p ?s = Inr ?u" and rxu: "rx_inv ?u"
    using rx_request_law[OF rx] new by (simp_all add: enableRead_def)
  have ok: "conn_ok p ?c (requested_with kReadEvent ch)"
    using ch(2) new by (simp add: conn_ok_def interest_ok_def)
  have ci: "conns_inv ?u" by (rule conns_inv_upd[OF sys_inv_conns[OF inv] rxu _ _ ok]) simp_all
  have l: "life (rest @ el_pending s) (cx_refs s) (conn_view s)" using inv by (simp add: sys_inv_def)
  have V: "conn_view s p = Some (CONNECTING, False)" using view_at[OF c] st ch(1) new(1) by simp
  have "life (rest @ el_pending s) (cx_refs s) ((conn_view s)(p \<mapsto> (CONNECTED, True)))"
    by (rule life_upd[OF l V]) (use life_refs[OF l V] once in auto)
  then have iu: "sys_inv rest ?u" using ci ch(1) by (simp add: sys_inv_def)
  have cu: "cx_conns ?u p = Some ?c" by simp
  have view: "conn_view ?u = (conn_view s)(p \<mapsto> (CONNECTED, True))" using ch(1) by simp
  then have vu: "events_ext s ?u" using ch(1) V by (simp add: events_ext_def view_up_def)
  from view have eu: "conn_ext s ?u" by (rule conn_ext_view) (use V c ch(1) in \<open>simp_all add: conn_down_def\<close>)
  have "ok_res (\<lambda>s'. sys_inv rest s' \<and> conn_ext s s' \<and> events_ext s s') (connectionCallback E p ?u)"
    by (rule ok_res_mono[OF connectionCallback_ok[OF iu cu app]])
      (use conn_ext_trans[OF eu conn_frame_ext] events_ext_trans[OF vu conn_frame_events] in blast)
  then show ?thesis using c st en by (simp add: connectionEstablish_def)
qed

lemma establish_task_ok:
  assumes inv: "sys_inv (FnEstablish p # rest) s" and app: "app_ok E"
  shows "ok_res (\<lambda>s'. sys_inv rest s' \<and> conn_ext s s' \<and> events_ext s s') (connectionEstablish E p s)"
proof -
  have l: "life (FnEstablish p # (rest @ el_pending s)) (cx_refs s) (conn_view s)"
    using inv by (simp add: sys_inv_def)
  from life_establish_head[OF l] obtain b where V: "conn_view s p = Some (CONNECTING, b)"
    and once: "FnEstablish p \<notin> set (rest @ el_pending s)" by blast
  from view_downD[OF V] obtain c where c: "cx_conns s p = Some c" "cn_state c = CONNECTING" by blast
  have "sys_inv rest s" by (rule sys_inv_head[OF inv]) simp
  from establish_ok[OF this c once app] show ?thesis .
qed

lemma destroy_ok:
  assumes inv: "sys_inv (FnDestroy p # rest) s"
  shows "\<exists>s'. connectionDestory E p s = Inr s' \<and> sys_inv rest s' \<and> conn_ext s s'"
proof -
  have l: "life (FnDestroy p # (rest @ el_pending s)) (cx_refs s) (conn_view s)"
    using inv by (simp add: sys_inv_def)
  then obtain b where "conn_view s p = Some (DISCONNECTED, b)" by (auto simp: life_def)
  from view_downD[OF this] obtain c where c: "cx_conns s p = Some c" "cn_state c = DISCONNECTED" by blast
  obtain ch where ch: "rx_chans s p = Some ch" "conn_ok p c ch"
    using conns_invD[OF sys_inv_conns[OF inv] c(1)] by blast
  let ?s = "s\<lparr>rx_chans := (rx_chans s)(p \<mapsto> ch\<lparr>ch_state := NEW\<rparr>),
      rx_channelMap := (rx_channelMap s)(ch_fd ch := None),
      rx_trace := rx_trace s @ (if ch_state ch = ADDED then [SysEpollCtl CtlDel (ch_fd ch) (ch_requested ch) p] else [])\<rparr>"
  have rem: "Channel_remove p s = Inr ?s" by (rule Channel_remove_eq[OF ch(1)])
  have rx: "rx_inv ?s" using epl.remove_law[OF conns_inv_rx[OF sys_inv_conns[OF inv]] ch(1)] rem by auto
  have ok: "conn_ok p c (ch\<lparr>ch_state := NEW\<rparr>)"
    using ch(2) c(2) by (simp add: conn_ok_def interest_ok_def)
  have conns: "cx_conns ?s = (cx_conns s)(p \<mapsto> c)" using c(1) by auto
  have ci: "conns_inv ?s" by (rule conns_inv_upd[OF sys_inv_conns[OF inv] rx conns _ ok]) simp
  have view: "conn_view ?s = (conn_view s)(p \<mapsto> (DISCONNECTED, False))"
    using c by (auto simp: conn_view_def fun_eq_iff)
  then have "sys_inv rest ?s" using ci life_destroy[OF l] by (simp add: sys_inv_def)
  moreover have "chan_keys ?s = chan_keys s" by (rule chan_keys_upd[OF ch(1), where ch' = "ch\<lparr>ch_state := NEW\<rparr>"]) (simp_all add: chan_key_def)
  then have "conn_ext s ?s" by (intro conn_ext_view[OF view]) (simp_all add: conn_names_def fun_eq_iff)
  ultimately show ?thesis using rem c by (simp add: connectionDestory_def)
qed

definition io_ok :: "(ptr \<Rightarrow> 'z wloop_scheme \<Rightarrow> readv_outcome) \<Rightarrow> (ptr \<Rightarrow> 'z wloop_scheme \<Rightarrow> int) \<Rightarrow> bool" where
  "io_ok rd wr \<longleftrightarrow> (\<forall>p s c. cx_conns s p = Some c \<longrightarrow> nat (wr p s) \<le> length (nb_content (cn_output c)) \<and>
     (\<forall>data. rd p s = ReadvData data \<longrightarrow> length data \<le> readv_capacity (cn_input c)))"

lemma sys_inv_queue:
  assumes "sys_inv rest s" and "rest @ el_pending s = rest' @ q" and "set q \<subseteq> set (el_pending s)"
  shows "sys_inv rest' (s\<lparr>el_calling := b, el_pending := q\<rparr>) \<and> conn_ext s (s\<lparr>el_calling := b, el_pending := q\<rparr>)"
proof -
  let ?s = "s\<lparr>el_calling := b, el_pending := q\<rparr>"
  have c: "conns_inv s" by (rule sys_inv_conns[OF assms(1)])
  have "rx_inv ?s" by (rule rx_inv_cong[OF conns_inv_rx[OF c]]) simp_all
  then have "conns_inv ?s" by (rule conns_inv_cong[OF c]) simp_all
  moreover have view: "conn_view ?s = conn_view s" by (rule conn_view_cong) simp_all
  moreover have "life (rest' @ q) (cx_refs s) (conn_view s)" using assms by (simp add: sys_inv_def)
  moreover have "conn_ext s ?s" by (rule conn_ext_same[OF view]) (use assms(3) in \<open>auto simp: conn_names_def chan_keys_def posts_def fun_eq_iff\<close>)
  ultimately show ?thesis by (simp add: sys_inv_def)
qed

text \<open>Selecting only records the events in the channels.\<close>

lemma select_ok:
  assumes inv: "sys_inv [] s" and del: "deliverable s evs"
  obtains t where "Epoll_select (Some evs) s = Inr (t, map fst evs)" and "sys_inv [] t"
    and "cx_conns t = cx_conns s" and "cx_refs t = cx_refs s" and "el_pending t = el_pending s"
    and "cx_log t = cx_log s" and "rx_trace t = rx_trace s" and "conn_view t = conn_view s" and "conn_ext s t"
    and "\<forall>(p, e) \<in> set evs. returned t p = Some e"
proof -
  obtain t where t: "Epoll_select (Some evs) s = Inr (t, map fst evs)" "rx_inv t" "reactor.more t = reactor.more s"
      "rx_trace t = rx_trace s"
      "\<forall>p. p \<notin> fst ` set evs \<longrightarrow> rx_chans t p = rx_chans s p"
      "\<forall>(p, e) \<in> set evs. \<exists>c. rx_chans s p = Some c \<and> rx_chans t p = Some (c\<lparr>ch_returned := e\<rparr>)"
    using Epoll_select_ok[OF conns_inv_rx[OF sys_inv_conns[OF inv]] del] by auto
  have fields: "cx_conns t = cx_conns s" "cx_refs t = cx_refs s" "el_pending t = el_pending s" "cx_log t = cx_log s"
      "wloop.more t = wloop.more s"
    using t(3) by (cases s; cases t; simp)+
  have chans: "\<exists>d. rx_chans t q = Some d \<and> ch_state d = ch_state c \<and> (\<exists>e. d = c\<lparr>ch_returned := e\<rparr>)"
    if c: "rx_chans s q = Some c" for q c
  proof (cases "q \<in> fst ` set evs")
    case True
    then obtain e where "(q, e) \<in> set evs" by auto
    with t(6) c show ?thesis by fastforce
  next
    case False
    with t(5) c have "rx_chans t q = Some c" by simp
    moreover have "c = c\<lparr>ch_returned := ch_returned c\<rparr>" by simp
    ultimately show ?thesis by blast
  qed
  have view: "conn_view t = conn_view s"
  proof
    fix q
    show "conn_view t q = conn_view s q"
    proof (cases "cx_conns s q")
      case (Some c)
      obtain ch where ch: "rx_chans s q = Some ch" using conns_invD[OF sys_inv_conns[OF inv] Some] by blast
      from chans[OF ch] Some ch fields(1) show ?thesis by (auto simp: conn_view_def)
    qed (simp add: conn_view_def fields)
  qed
  have "\<exists>ch. rx_chans t q = Some ch \<and> conn_ok q c ch" if c: "cx_conns s q = Some c" for q c
  proof -
    obtain ch where ch: "rx_chans s q = Some ch" "conn_ok q c ch"
      using conns_invD[OF sys_inv_conns[OF inv] c] by blast
    from chans[OF ch(1)] obtain e where "rx_chans t q = Some (ch\<lparr>ch_returned := e\<rparr>)" by blast
    moreover have "conn_ok q c (ch\<lparr>ch_returned := e\<rparr>)"
      using ch(2) by (simp add: conn_ok_def interest_ok_def split: sock_state.splits)
    ultimately show ?thesis by blast
  qed
  then have "conns_inv t" using t(2) fields(1) by (simp add: conns_inv_def)
  then have it: "sys_inv [] t" using inv fields view by (simp add: sys_inv_def)
  have "\<forall>(p, e) \<in> set evs. returned t p = Some e" using t(6) by (fastforce simp: returned_def)
  moreover have "chan_keys t q = chan_keys s q" for q
  proof (cases "q \<in> fst ` set evs")
    case True
    then obtain e where "(q, e) \<in> set evs" by auto
    with t(6) obtain c where "rx_chans s q = Some c" "rx_chans t q = Some (c\<lparr>ch_returned := e\<rparr>)" by fastforce
    then show ?thesis by (simp add: chan_keys_def chan_key_def)
  qed (simp add: t(5) chan_keys_def)
  then have "conn_ext s t"
    by (intro conn_ext_same[OF view]) (simp_all add: fields conn_names_cong[OF fields(1)] fun_eq_iff)
  ultimately show ?thesis using t(1,4) it fields view by (intro that[of t])
qed

end
