(* ===== verification/ConnOwners.thy ===== *)
theory ConnOwners
  imports TcpConns
begin

text \<open>
  What a connection relies on from its owner, a \<open>TcpServer\<close> or \<open>TcpClient\<close>, and what it
  promises in return: the events, pending functions and rounds of a loop keep the lifetimes in
  order, whoever the owner is.
\<close>

text \<open>What an event on one connection leaves alone on the others.\<close>

definition event_frame :: "ptr \<Rightarrow> 'z wloop_scheme \<Rightarrow> 'z wloop_scheme \<Rightarrow> bool" where
  "event_frame p s s' \<longleftrightarrow> returned s' = returned s \<and> dom (cx_conns s') = dom (cx_conns s) \<and>
     (\<forall>q. q \<noteq> p \<longrightarrow> view_up (conn_view s q) \<longrightarrow> view_up (conn_view s' q))"

lemma view_dom: "dom (conn_view s) = dom (cx_conns s)"
  by (auto simp: dom_def conn_view_def)

lemma names_dom: "dom (conn_names s) = dom (cx_conns s)"
  by (auto simp: dom_def conn_names_def)

lemma event_frame_refl [simp]: "event_frame p s s"
  by (simp add: event_frame_def)

lemma event_frame_trans: "event_frame p s t \<Longrightarrow> event_frame p t u \<Longrightarrow> event_frame p s u"
  by (simp add: event_frame_def)

lemma conn_event_frame: "conn_frame s t \<Longrightarrow> event_frame p s t"
  using names_dom[of s] names_dom[of t] by (simp add: event_frame_def conn_frame_def)

lemma event_frame_view:
  assumes "event_frame p s t" and "conn_view u = conn_view t" and "returned u = returned t"
  shows "event_frame p s u"
proof -
  have "dom (cx_conns u) = dom (cx_conns t)" using view_dom[of t] view_dom[of u] assms(2) by simp
  then show ?thesis using assms by (simp add: event_frame_def)
qed

lemma conn_frame_alive: "conn_frame s t \<Longrightarrow> cx_conns s p = Some c \<Longrightarrow> \<exists>d. cx_conns t p = Some d"
  by (auto simp: conn_frame_def)

text \<open>
  The contract between a connection and its owner. \<open>good\<close> is what the owner keeps of its own
  state; it depends on nothing a connection changes (\<open>conn_ext\<close>). The close callback is called
  for a connection that is down, has gone down just now and is still held; it leaves all
  connections as they are, the lifetimes in order and the owner's state good.
\<close>

locale conn_owner =
  fixes E :: "('z wloop_scheme) conn_env" and good :: "'z wloop_scheme \<Rightarrow> bool"
  assumes app: "app_ok E"
    and good_ext: "good s \<Longrightarrow> conn_ext s t \<Longrightarrow> good t"
    and close_law: "sys_inv rest s \<Longrightarrow> cx_conns s p = Some c \<Longrightarrow> cn_state c = DISCONNECTED \<Longrightarrow>
      cn_closeCb c = Some cb \<Longrightarrow> p \<in> cx_refs s \<Longrightarrow> good s0 \<Longrightarrow> \<not> conn_down s0 p \<Longrightarrow> conn_ext s0 s \<Longrightarrow>
      ok_res (\<lambda>s'. sys_inv rest s' \<and> conn_view s' = conn_view s \<and> returned s' = returned s \<and> good s') (ce_close E cb p s)"
begin

lemma good_frame: "good s \<Longrightarrow> conn_frame s t \<Longrightarrow> good t"
  by (rule good_ext[OF _ conn_frame_ext])

lemma handleClose_ok:
  assumes inv: "sys_inv rest s" and g: "good s" and c: "cx_conns s p = Some c" and up: "conn_up c"
  shows "ok_res (\<lambda>s'. sys_inv rest s' \<and> good s' \<and> event_frame p s s' \<and> (\<exists>b. conn_view s' p = Some (DISCONNECTED, b)))
    (conn_handleClose E p s)" (is "ok_res ?post _")
proof -
  have ndown: "\<not> conn_down s p" using c up view_at[OF c] by (auto simp: conn_down_def conn_up_def)
  obtain u where u: "disableAll p (put_conn p (c\<lparr>cn_state := DISCONNECTED\<rparr>) s) = Inr u" "sys_inv rest u"
    "cx_refs u = cx_refs s" "cx_conns u = (cx_conns s)(p \<mapsto> c\<lparr>cn_state := DISCONNECTED\<rparr>)"
    "conn_view u = (conn_view s)(p \<mapsto> (DISCONNECTED, True))" "p \<in> cx_refs s" "returned u = returned s" "conn_ext s u"
    by (rule go_down[OF inv c up]) (rule that, assumption+)
  have cu: "cx_conns u p = Some (c\<lparr>cn_state := DISCONNECTED\<rparr>)" using u(4) by simp
  have fr: "event_frame p s u" using u(4,5,7) c by (simp add: event_frame_def insert_absorb domI)
  let ?close = "\<lambda>s3. bindr (deref (cx_conns s3) p) (\<lambda>c3. case cn_closeCb c3 of
      None \<Rightarrow> Inl NullFunction | Some cb \<Rightarrow> ce_close E cb p s3)"
  have "ok_res ?post (bindr (connectionCallback E p u) ?close)"
  proof (rule ok_res_bindr[OF connectionCallback_ok[OF u(2) cu app]])
    fix t
    assume t0: "sys_inv rest t \<and> conn_frame u t"
    have "conn_view u p = Some (DISCONNECTED, True)" using u(5) by simp
    from conn_frame_down[OF conjunct2[OF t0] this] have down: "conn_view t p = Some (DISCONNECTED, True)" .
    have t: "sys_inv rest t" "p \<in> cx_refs t"
      using t0 conn_frame_refs[of u t] u(3,6) by simp_all
    have ft: "event_frame p s t" by (rule event_frame_trans[OF fr conn_event_frame[OF conjunct2[OF t0]]])
    have ext: "conn_ext s t" by (rule conn_ext_trans[OF u(8) conn_frame_ext[OF conjunct2[OF t0]]])
    from view_downD[OF down] obtain c3 where c3: "cx_conns t p = Some c3" "cn_state c3 = DISCONNECTED" by blast
    from close_set[OF t(1) c3(1)] obtain cb where cb: "cn_closeCb c3 = Some cb" by blast
    have "ok_res ?post (ce_close E cb p t)"
      by (rule ok_res_mono[OF close_law[OF t(1) c3 cb t(2) g ndown ext]]) (use down event_frame_view[OF ft] in auto)
    then show "ok_res ?post (?close t)"
      using c3 cb by simp
  qed
  then show ?thesis
    using c up u(1) by (auto simp: conn_handleClose_def setSocketState_def conn_up_def)
qed

lemma handleRead_ok:
  assumes inv: "sys_inv rest s" and g: "good s" and c: "cx_conns s p = Some c" and up: "conn_up c"
    and rd: "\<And>data. rd = ReadvData data \<Longrightarrow> length data \<le> readv_capacity (cn_input c)"
  shows "ok_res (\<lambda>s'. sys_inv rest s' \<and> good s' \<and> event_frame p s s' \<and> cx_conns s' p \<noteq> None) (conn_handleRead E rd now p s)"
    (is "ok_res ?post _")
proof -
  obtain ch where ch: "rx_chans s p = Some ch" "conn_ok p c ch"
    using conns_invD[OF sys_inv_conns[OF inv] c] by blast
  then have buf: "nb_inv (cn_input c)" by (simp add: conn_ok_def)
  let ?k = "\<lambda>(n :: int, savedErrno :: int option, b).
           let s1 = put_conn p (c\<lparr>cn_input := b\<rparr>) s in
           if n > 0 then if cn_messageCb c then notify E (AppMessage p now) p s1 else Inr s1
           else if n = 0 then conn_handleClose E p s1
           else conn_handleError p s1"
  have "ok_res (\<lambda>(n, e, b). nb_inv b) (nb_readFD rd (cn_input c))"
  proof (cases rd)
    case (ReadvData data)
    show ?thesis
      unfolding ReadvData by (rule ok_res_mono[OF nb_readFD_total[OF buf rd[OF ReadvData]]]) auto
  qed (simp add: nb_readFD_def buf)
  moreover have "ok_res ?post (bindr (nb_readFD rd (cn_input c)) ?k)"
    if "ok_res (\<lambda>(n, e, b). nb_inv b) (nb_readFD rd (cn_input c))"
    using that
  proof (rule ok_res_bindr)
    fix r :: "int \<times> int option \<times> netbuffer" assume "case r of (n, e, b) \<Rightarrow> nb_inv b"
    then obtain n e b where r: "r = (n, e, b)" and b: "nb_inv b" by (cases r) auto
    let ?c = "c\<lparr>cn_input := b\<rparr>" and ?s = "put_conn p (c\<lparr>cn_input := b\<rparr>) s"
    have s1: "sys_inv rest ?s" and f1: "conn_frame s ?s" using with_input_ok(2)[OF inv c, of "\<lambda>_. Inr b"] b by simp_all
    have c1: "cx_conns ?s p = Some ?c" "conn_up ?c" using up by (simp_all add: conn_up_def)
    note e1 = conn_event_frame[OF f1] and g1 = good_frame[OF g f1]
    have "ok_res ?post (notify E (AppMessage p now) p ?s)"
      by (rule ok_res_mono[OF notify_ok[OF s1 c1(1) app]])
        (use event_frame_trans[OF e1 conn_event_frame] conn_frame_alive[OF _ c1(1)] good_frame[OF g1] in auto)
    moreover have "ok_res ?post (conn_handleClose E p ?s)"
      by (rule ok_res_mono[OF handleClose_ok[OF s1 g1 c1]]) (use event_frame_trans[OF e1] view_downD in fastforce)
    moreover have "?post ?s" using s1 e1 g1 by simp
    ultimately show "ok_res ?post (?k r)"
      using r by (simp add: conn_handleError_def)
  qed
  ultimately show ?thesis using c by (simp add: conn_handleRead_def)
qed

text \<open>
  An event the kernel reports for a connection: \<open>POLLHUP\<close> without \<open>POLLIN\<close> never comes with
  \<open>POLLPRI\<close> or \<open>POLLRDHUP\<close>, \<open>readv\<close> fills at most the room it is given and \<open>write\<close> takes
  at most the bytes it is given (\<open>io_ok\<close>).
\<close>

lemma dispatch_event_ok:
  assumes inv: "sys_inv rest s" and g: "good s" and V: "view_up (conn_view s p)" and ev: "returned s p = Some e"
    and hup: "\<not> (wants_read e \<and> wants_close e)" and io: "io_ok rd wr"
    and run: "\<And>u. run (CbTcpRead p) u = conn_handleRead E (rd p u) now p u"
      "\<And>u. run (CbTcpWrite p) u = conn_handleWrite (wr p u) p u"
      "\<And>u. run (CbTcpClose p) u = conn_handleClose E p u" "\<And>u. run (CbTcpError p) u = conn_handleError p u"
  shows "ok_res (\<lambda>s'. sys_inv rest s' \<and> good s' \<and> event_frame p s s') (Channel_handleEvents run p s)"
proof -
  have chan: "\<exists>c ch. cx_conns u p = Some c \<and> rx_chans u p = Some ch \<and> conn_ok p c ch \<and> ch_returned ch = e"
    if u: "sys_inv rest u" "cx_conns u p \<noteq> None" "returned u = returned s" for u
  proof -
    from u(2) obtain c where c: "cx_conns u p = Some c" by blast
    obtain ch where ch: "rx_chans u p = Some ch" "conn_ok p c ch"
      using conns_invD[OF sys_inv_conns[OF u(1)] c] by blast
    have "returned u p = Some e" using u(3) ev by simp
    then have "ch_returned ch = e" using ch(1) by (simp add: returned_def)
    with c ch show ?thesis by blast
  qed
  from V obtain c where c: "cx_conns s p = Some c" and up: "conn_up c"
    by (auto simp: view_up_def conn_view_def conn_up_def)
  let ?W = "\<lambda>u. sys_inv rest u \<and> conn_frame s u"
  let ?R = "\<lambda>u. sys_inv rest u \<and> good u \<and> event_frame p s u \<and> cx_conns u p \<noteq> None"
  let ?Q = "\<lambda>s'. sys_inv rest s' \<and> good s' \<and> event_frame p s s'"
  obtain ch where ch: "rx_chans s p = Some ch" "conn_ok p c ch" "ch_returned ch = e"
    using chan[OF inv _ refl] c by auto
  have w: "ok_res ?W (handle_if wants_write ch_writeCb run p s)"
  proof -
    have "nat (wr p s) \<le> length (nb_content (cn_output c))" using io c by (simp add: io_ok_def)
    from handleWrite_ok[OF inv c this] ch inv show ?thesis
      by (auto simp: handle_if_def conn_ok_def run)
  qed
  have er: "ok_res ?W (handle_if wants_error ch_errorCb run p u)" if u: "?W u" for u
  proof -
    have fr: "conn_frame s u" using u by simp
    have "returned u = returned s" "cx_conns u p \<noteq> None"
      using conn_frame_alive[OF fr c] fr by (auto simp: conn_frame_def)
    from chan[OF conjunct1[OF u] this(2,1)] u show ?thesis
      by (auto simp: handle_if_def conn_ok_def run conn_handleError_def)
  qed
  have rdc: "ok_res ?Q (bindr (handle_if wants_read ch_readCb run p u) (handle_if wants_close ch_closeCb run p))"
    if u: "?W u" for u
  proof -
    have ui: "sys_inv rest u" and uf: "conn_frame s u" using u by simp_all
    have ret: "returned u = returned s" using uf by (simp add: conn_frame_def)
    from conn_frame_alive[OF uf c] obtain d where d: "cx_conns u p = Some d" by blast
    obtain dh where dh: "rx_chans u p = Some dh" "conn_ok p d dh" "ch_returned dh = e"
      using chan[OF ui _ ret] d by auto
    have dup: "conn_up d"
      using conn_frame_up[OF uf V] d by (auto simp: view_up_def conn_view_def conn_up_def)
    note ef = conn_event_frame[OF uf] and ug = good_frame[OF g uf]
    have r: "ok_res ?R (conn_handleRead E (rd p u) now p u)"
      by (rule ok_res_mono[OF handleRead_ok[OF ui ug d dup]])
        (use io d event_frame_trans[OF ef] in \<open>auto simp: io_ok_def\<close>)
    have k: "ok_res ?Q (conn_handleClose E p u)"
      by (rule ok_res_mono[OF handleClose_ok[OF ui ug d dup]]) (use event_frame_trans[OF ef] in auto)
    show ?thesis
    proof (cases "wants_read e")
      case True
      have "handle_if wants_read ch_readCb run p u = conn_handleRead E (rd p u) now p u"
        using True dh by (simp add: handle_if_def conn_ok_def run)
      then have "ok_res ?R (handle_if wants_read ch_readCb run p u)" using r by simp
      then show ?thesis
      proof (rule ok_res_bindr)
        fix v assume v: "?R v"
        then have "returned v = returned s" by (simp add: event_frame_def)
        from chan[OF conjunct1[OF v] _ this] v obtain vh where "rx_chans v p = Some vh" "ch_returned vh = e" by auto
        then have "handle_if wants_close ch_closeCb run p v = Inr v"
          using hup True by (simp add: handle_if_def)
        then show "ok_res ?Q (handle_if wants_close ch_closeCb run p v)"
          using v by simp
      qed
    next
      case False
      then have "handle_if wants_read ch_readCb run p u = Inr u" using dh by (simp add: handle_if_def)
      moreover have "ok_res ?Q (handle_if wants_close ch_closeCb run p u)"
        using k dh ui ug ef by (simp add: handle_if_def conn_ok_def run)
      ultimately show ?thesis by simp
    qed
  qed
  show ?thesis
    unfolding Channel_handleEvents_def
  proof (rule ok_res_bindr[OF w])
    fix u assume "?W u"
    then have "ok_res ?W (handle_if wants_error ch_errorCb run p u)" by (rule er)
    then show "ok_res ?Q (bindr (handle_if wants_error ch_errorCb run p u)
        (\<lambda>s2. bindr (handle_if wants_read ch_readCb run p s2) (handle_if wants_close ch_closeCb run p)))"
      by (rule ok_res_bindr) (rule rdc)
  qed
qed

lemma dispatch_all_ok:
  assumes "sys_inv rest s" and "good s" and "distinct ps" and "\<And>p. p \<in> set ps \<Longrightarrow> view_up (conn_view s p)"
    and "\<And>p. p \<in> set ps \<Longrightarrow> \<exists>e. returned s p = Some e \<and> \<not> (wants_read e \<and> wants_close e)" and io: "io_ok rd wr"
  shows "ok_res (\<lambda>s'. sys_inv rest s' \<and> good s') (fold_res (Channel_handleEvents (conn_callback E rd wr now)) ps s)"
  using assms(1-5)
proof (induction ps arbitrary: s)
  case (Cons p ps)
  obtain e where e: "returned s p = Some e" "\<not> (wants_read e \<and> wants_close e)" using Cons.prems(5)[of p] by auto
  have V: "view_up (conn_view s p)" using Cons.prems(4)[of p] by simp
  show ?case
    unfolding fold_res.simps
  proof (rule ok_res_bindr[OF dispatch_event_ok[OF Cons.prems(1,2) V e io, where run = "conn_callback E rd wr now" and now = now]])
    show "conn_callback E rd wr now (CbTcpRead p) u = conn_handleRead E (rd p u) now p u"
      "conn_callback E rd wr now (CbTcpWrite p) u = conn_handleWrite (wr p u) p u"
      "conn_callback E rd wr now (CbTcpClose p) u = conn_handleClose E p u"
      "conn_callback E rd wr now (CbTcpError p) u = conn_handleError p u" for u
      by (simp_all add: conn_callback_def)
    fix t
    assume t: "sys_inv rest t \<and> good t \<and> event_frame p s t"
    have p: "p \<notin> set ps" using Cons.prems(3) by simp
    show "ok_res (\<lambda>s'. sys_inv rest s' \<and> good s') (fold_res (Channel_handleEvents (conn_callback E rd wr now)) ps t)"
    proof (rule Cons.IH)
      show "sys_inv rest t" "good t" "distinct ps" using t Cons.prems(3) by simp_all
      fix q assume q: "q \<in> set ps"
      then have "q \<noteq> p" "view_up (conn_view s q)" using p Cons.prems(4)[of q] by auto
      then show "view_up (conn_view t q)" using t by (simp add: event_frame_def)
      show "\<exists>e. returned t q = Some e \<and> \<not> (wants_read e \<and> wants_close e)"
        using t Cons.prems(5)[of q] q by (simp add: event_frame_def)
    qed
  qed
qed simp

lemma exec_ok:
  assumes inv: "sys_inv (f # rest) s" and g: "good s" and user: "\<And>f s cc. cc \<in> set (user f s) \<Longrightarrow> call_ok s cc"
  shows "ok_res (\<lambda>u. sys_inv rest u \<and> good u) (conn_exec E user f s)" (is "ok_res ?post _")
proof (cases "\<exists>p. f = FnDestroy p \<or> f = FnEstablish p")
  case True
  then obtain p where "f = FnDestroy p \<or> f = FnEstablish p" by blast
  then show ?thesis
  proof
    assume "f = FnDestroy p"
    then show ?thesis using destroy_ok[of p rest s E] inv good_ext[OF g] by (auto simp: conn_exec_def)
  next
    assume "f = FnEstablish p"
    then have "ok_res (\<lambda>u. sys_inv rest u \<and> conn_ext s u \<and> events_ext s u) (conn_exec E user f s)"
      using establish_task_ok[OF _ app, of p rest s] inv by (simp add: conn_exec_def)
    then show ?thesis by (rule ok_res_mono) (use good_ext[OF g] in blast)
  qed
next
  case False
  have inv': "sys_inv rest s" by (rule sys_inv_head[OF inv]) (use False in auto)
  have task: "task_ok (conn_view s) f" using inv by (simp add: sys_inv_def life_def)
  have calls: "ok_res ?post (fold_res (run_conn_call E True) (user f s) s)"
  proof (rule ok_res_mono[OF ok_res_fold[where P = "\<lambda>u. sys_inv rest u \<and> conn_frame s u"]])
    fix cc u
    assume cc: "cc \<in> set (user f s)" and u: "sys_inv rest u \<and> conn_frame s u"
    have "call_ok u cc" by (rule call_ok_frame[OF user[OF cc] conjunct2[OF u]])
    then show "ok_res (\<lambda>u. sys_inv rest u \<and> conn_frame s u) (run_conn_call E True cc u)"
      by (intro ok_res_mono[OF run_conn_call_ok[of rest u]]) (use u in \<open>auto intro: conn_frame_trans\<close>)
  qed (use inv' good_frame[OF g] in auto)
  have send: "ok_res ?post (TcpConnection_sendInLoop E True p data s)" if f: "f = FnSend p data" for p data
  proof -
    from task f obtain st b where V: "conn_view s p = Some (st, b)" "st \<noteq> CONNECTING" "length data \<le> vec_max" by auto
    from view_downD[OF V(1)] obtain c where c: "cx_conns s p = Some c" "cn_state c = st" by blast
    show ?thesis
    proof (cases "st = DISCONNECTED")
      case True
      then show ?thesis using c inv' g by (simp add: TcpConnection_sendInLoop_def)
    next
      case False
      then have "conn_up c" using c(2) V(2) by (cases st) (simp_all add: conn_up_def)
      from sendInLoop_up[OF sys_inv_conns[OF inv'] c(1) this V(3)] show ?thesis
        by (rule ok_res_mono) (use sys_inv_same[OF inv'] good_frame[OF g] in blast)
    qed
  qed
  have shut: "ok_res ?post (shutdownInLoop True p s)" if f: "f = FnShutdown p" for p
  proof -
    from task f obtain st b where V: "conn_view s p = Some (st, b)" by auto
    from view_downD[OF V] obtain c where c: "cx_conns s p = Some c" by blast
    obtain ch where ch: "rx_chans s p = Some ch" using conns_invD[OF sys_inv_conns[OF inv'] c] by blast
    have "?post (sys_call (SysShutdownWrite (cn_fd c)) s)"
      using sys_inv_same[OF inv', of "sys_call (SysShutdownWrite (cn_fd c)) s"] inv' good_frame[OF g] by simp
    with inv' g c ch show ?thesis by (simp add: shutdownInLoop_def)
  qed
  have force: "ok_res ?post (forceCloseInLoop E p s)" if f: "f = FnForceClose p" for p
  proof -
    from task f obtain c where c: "cx_conns s p = Some c" by auto
    show ?thesis
    proof (cases "conn_up c")
      case True
      have "ok_res ?post (conn_handleClose E p s)"
        by (rule ok_res_mono[OF handleClose_ok[OF inv' g c True]]) simp
      then show ?thesis using c True by (auto simp: forceCloseInLoop_def conn_up_def)
    next
      case False
      then show ?thesis using c inv' g by (simp add: forceCloseInLoop_def conn_up_def)
    qed
  qed
  have setcb: "ok_res ?post (setCloseCallback p CloseDetached s)" if f: "f = FnSetCloseCallback p" for p
  proof -
    from task f obtain c where c: "cx_conns s p = Some c" by auto
    obtain ch where ch: "rx_chans s p = Some ch" "conn_ok p c ch"
      using conns_invD[OF sys_inv_conns[OF inv'] c] by blast
    have "conn_ok p (c\<lparr>cn_closeCb := Some CloseDetached\<rparr>) ch"
      using ch(2) by (auto simp: conn_ok_def interest_ok_def split: sock_state.splits)
    from put_same[OF inv' c ch(1) this] good_frame[OF g] c show ?thesis by (simp add: setCloseCallback_def)
  qed
  show ?thesis
    using calls send shut force setcb False by (cases f) (simp_all add: conn_exec_def)
qed

lemma exec_all_ok:
  assumes "sys_inv fs s" and "good s" and "\<And>f s cc. cc \<in> set (user f s) \<Longrightarrow> call_ok s cc"
  shows "ok_res (\<lambda>s'. sys_inv [] s' \<and> good s') (fold_res (conn_exec E user) fs s)"
  using assms(1,2)
proof (induction fs arbitrary: s)
  case (Cons f fs)
  show ?case
    unfolding fold_res.simps
    by (rule ok_res_bindr[OF exec_ok[where f = f and rest = fs]]) (use Cons assms(3) in auto)
qed simp

lemma pending_ok:
  assumes inv: "sys_inv [] s" and g: "good s" and user: "\<And>f s cc. cc \<in> set (user f s) \<Longrightarrow> call_ok s cc"
  shows "ok_res (\<lambda>s'. sys_inv [] s' \<and> good s') (doPendingFunctions (conn_exec E user) s)"
proof -
  let ?s = "s\<lparr>el_calling := True, el_pending := []\<rparr>"
  have "sys_inv (el_pending s) ?s \<and> conn_ext s ?s" using sys_inv_queue[of "[]" s "el_pending s" "[]" True] inv by simp
  then have "sys_inv (el_pending s) ?s" "good ?s" using good_ext[OF g] by blast+
  then have "ok_res (\<lambda>s'. sys_inv [] s' \<and> good s') (fold_res (conn_exec E user) (el_pending s) ?s)"
    by (rule exec_all_ok) (rule user)
  then have "ok_res (\<lambda>s'. sys_inv [] s' \<and> good s') (bindr (fold_res (conn_exec E user) (el_pending s) ?s) (\<lambda>s3. Inr (s3\<lparr>el_calling := False\<rparr>)))"
  proof (rule ok_res_bindr)
    fix t assume t: "sys_inv [] t \<and> good t"
    then have "sys_inv [] (t\<lparr>el_calling := False, el_pending := el_pending t\<rparr>) \<and>
        conn_ext t (t\<lparr>el_calling := False, el_pending := el_pending t\<rparr>)"
      using sys_inv_queue[of "[]" t "[]" "el_pending t" False] by simp
    then show "ok_res (\<lambda>s'. sys_inv [] s' \<and> good s') (Inr (t\<lparr>el_calling := False\<rparr>))"
      using good_ext[OF conjunct2[OF t]] by simp
  qed
  then show ?thesis by (simp add: doPendingFunctions_def)
qed

text \<open>A round of the loop whose events are all for connections.\<close>

lemma round_ok:
  assumes inv: "sys_inv [] s" and g: "good s" and user: "\<And>f s cc. cc \<in> set (user f s) \<Longrightarrow> call_ok s cc"
    and del: "deliverable s evs" and io: "io_ok rd wr"
    and evs: "\<And>p e. (p, e) \<in> set evs \<Longrightarrow> cx_conns s p \<noteq> None \<and> \<not> (wants_read e \<and> wants_close e)"
  shows "ok_res (\<lambda>s'. sys_inv [] s' \<and> good s') (loop_round (conn_callback E rd wr) (conn_exec E user) (Some evs, now) s)"
proof -
  obtain t where t: "Epoll_select (Some evs) s = Inr (t, map fst evs)" and it: "sys_inv [] t"
    and view: "conn_view t = conn_view s" and ext: "conn_ext s t" and ret: "\<forall>(p, e) \<in> set evs. returned t p = Some e"
    by (rule select_ok[OF inv del]) (rule that, assumption+)
  have up: "view_up (conn_view t p) \<and> (\<exists>e. returned t p = Some e \<and> \<not> (wants_read e \<and> wants_close e))"
    if p: "p \<in> set (map fst evs)" for p
  proof -
    from p obtain e where e: "(p, e) \<in> set evs" by auto
    then obtain fd w where w: "interest (rx_trace s) fd = Some (w, p)" using del by (force simp: deliverable_def)
    from interest_chan[OF rx_inv_wf[OF conns_inv_rx[OF sys_inv_conns[OF inv]]] w]
    obtain ch where ch: "rx_chans s p = Some ch" "ch_state ch = ADDED" by blast
    from evs[OF e] obtain c where c: "cx_conns s p = Some c" by blast
    obtain ch' where "rx_chans s p = Some ch'" "conn_ok p c ch'" using conns_invD[OF sys_inv_conns[OF inv] c] by blast
    then have "conn_up c" using ch by (auto simp: conn_ok_def interest_ok_def conn_up_def split: sock_state.splits)
    then have "view_up (conn_view t p)"
      using view c ch by (auto simp: conn_view_def view_up_def conn_up_def)
    moreover have "returned t p = Some e" using ret e by blast
    ultimately show ?thesis using evs[OF e] by simp
  qed
  have "distinct (map fst evs)" using del by (simp add: deliverable_def)
  then have "ok_res (\<lambda>s'. sys_inv [] s' \<and> good s') (fold_res (Channel_handleEvents (conn_callback E rd wr now)) (map fst evs) t)"
    by (intro dispatch_all_ok[OF it good_ext[OF g ext] _ _ _ io]) (use up in auto)
  then have "ok_res (\<lambda>s'. sys_inv [] s' \<and> good s') (bindr (fold_res (Channel_handleEvents (conn_callback E rd wr now)) (map fst evs) t)
      (doPendingFunctions (conn_exec E user)))"
    by (rule ok_res_bindr) (elim conjE, rule pending_ok[OF _ _ user])
  then show ?thesis using t by (simp add: loop_round_def)
qed

end

end
