(* ===== verification/ConnSystem.thy ===== *)
theory ConnSystem
  imports ConnOwners
begin

text \<open>
  The connections of a loop under any use: their owner (the part \<open>TcpServer\<close> and
  \<open>TcpClient\<close> share, in the abstract), the application, the kernel's events, other threads' calls and the
  release of connections nobody refers to any more, as one step relation. The
  properties say what every reachable state promises.
\<close>

section \<open>The owner of the connections\<close>

text \<open>
  \<open>TcpServer::removeConnectionInLoop\<close> and \<open>TcpClient::removeConnection\<close> give up their pointer
  and queue \<open>connectionDestory\<close>, which is bound to one. When the server runs in another loop
  (\<open>far\<close>) its close callback only posts the removal there. This is the specification of an owner
  that Servers and Clients are compared with; the code of the owners is modelled there.
\<close>

definition owner_erase :: "bool \<Rightarrow> ptr \<Rightarrow> 'z wloop_scheme \<Rightarrow> 'z wloop_scheme result" where
  "owner_erase inLoop p s = Inr (queueInLoop inLoop (FnDestroy p) (s\<lparr>cx_refs := cx_refs s - {p}\<rparr>))"

definition owner_close :: "bool \<Rightarrow> closecb \<Rightarrow> ptr \<Rightarrow> 'z wloop_scheme \<Rightarrow> 'z wloop_scheme result" where
  "owner_close far cb p s =
     (case cb of
        CloseOwner \<Rightarrow> if far then Inr s else owner_erase True p s
      | CloseDetached \<Rightarrow> Inr (queueInLoop True (FnDestroy p) s))"

text \<open>What an owner does to begin: a connection is created, owned, given its callbacks and handed to its loop.\<close>

definition conn_open :: "('z wloop_scheme) conn_env \<Rightarrow> bool \<Rightarrow> ptr \<Rightarrow> string \<Rightarrow> int \<Rightarrow> bool \<Rightarrow> bool \<Rightarrow> bool \<Rightarrow>
    'z wloop_scheme \<Rightarrow> 'z wloop_scheme result" where
  "conn_open E inLoop p name sockfd ccb mcb wcb s =
     bindr (TcpConnection_new p name sockfd s)
      (\<lambda>s1. bindr (set_callbacks p ccb mcb wcb CloseOwner (s1\<lparr>cx_refs := insert p (cx_refs s1)\<rparr>))
        (runInLoop (\<lambda>_. connectionEstablish E p) inLoop (Some (FnEstablish p))))"

text \<open>
  An application: in each callback it makes any calls on connections that are alive (it has
  been given pointers to them), with messages a \<open>std::string\<close> can hold.
\<close>

definition application :: "bool \<Rightarrow> (ptr \<Rightarrow> 'z wloop_scheme \<Rightarrow> int) \<Rightarrow> (ptr \<Rightarrow> 'z wloop_scheme \<Rightarrow> 'z wloop_scheme result) \<Rightarrow>
    (app_event \<Rightarrow> 'z wloop_scheme \<Rightarrow> conn_call list) \<Rightarrow> ('z wloop_scheme) conn_env" where
  "application far wr onwritten app =
     \<lparr>ce_write = wr, ce_complete = onwritten, ce_app = (\<lambda>ev s. filter (call_ok s) (app ev s)),
      ce_close = owner_close far\<rparr>"

definition user_calls :: "(task \<Rightarrow> 'z wloop_scheme \<Rightarrow> conn_call list) \<Rightarrow> task \<Rightarrow> 'z wloop_scheme \<Rightarrow> conn_call list" where
  "user_calls user f s = filter (call_ok s) (user f s)"

lemma view_refs [simp]: "conn_view (s\<lparr>cx_refs := r\<rparr>) = conn_view s" "returned (s\<lparr>cx_refs := r\<rparr>) = returned s"
  by (rule conn_view_cong returned_cong; simp)+

lemma conns_inv_refs [simp]: "conns_inv s \<Longrightarrow> conns_inv (s\<lparr>cx_refs := r\<rparr>)"
  by (rule conns_inv_cong[OF _ rx_inv_cong]) simp_all

lemma owner_erase_ok:
  assumes inv: "sys_inv rest s" and V: "conn_view s p = Some (DISCONNECTED, b)"
  shows "ok_res (\<lambda>s'. sys_inv rest s' \<and> conn_view s' = conn_view s \<and> returned s' = returned s) (owner_erase inLoop p s)"
  using life_drop[of "rest @ el_pending s" "cx_refs s" "conn_view s" p b] assms
  by (simp add: owner_erase_def sys_inv_def)

interpretation apps: conn_owner "application far wr onwritten app" "\<lambda>_. True"
proof
  show "app_ok (application far wr onwritten app)" by (simp add: app_ok_def application_def)
  fix rest and s s0 :: "'a wloop_scheme" and p c cb
  assume inv: "sys_inv rest s" and c: "cx_conns s p = Some c" "cn_state c = DISCONNECTED"
    and "cn_closeCb c = Some cb" "p \<in> cx_refs s"
  obtain b where V: "conn_view s p = Some (DISCONNECTED, b)" using view_at[OF c(1)] c(2) by simp
  have "sys_inv rest (queueInLoop True (FnDestroy p) s)"
    using life_push_destroy[of "rest @ el_pending s" "cx_refs s" "conn_view s" p b] inv V by (simp add: sys_inv_def)
  then show "ok_res (\<lambda>s'. sys_inv rest s' \<and> conn_view s' = conn_view s \<and> returned s' = returned s \<and> True)
      (ce_close (application far wr onwritten app) cb p s)"
    using owner_erase_ok[OF inv V, of True] inv
    by (cases cb) (simp_all add: application_def owner_close_def)
qed

section \<open>A connection's beginning and end\<close>

lemma life_new:
  assumes l: "life qs refs V" and new: "V p = None"
  shows "life qs (insert p refs) (V(p \<mapsto> (CONNECTING, False)))" and "FnEstablish p \<notin> set qs"
    and "life (qs @ [FnEstablish p]) (insert p refs) (V(p \<mapsto> (CONNECTING, False)))"
proof -
  have t: "\<forall>f \<in> set qs. task_ok V f" using l by (simp add: life_def)
  then show once: "FnEstablish p \<notin> set qs" using new by force
  have t': "\<forall>f \<in> set qs. task_ok (V(p \<mapsto> (CONNECTING, False))) f"
  proof
    fix f assume "f \<in> set qs"
    with t new show "task_ok (V(p \<mapsto> (CONNECTING, False))) f" by (cases f) force+
  qed
  have r: "raw_ok (insert p refs) qs" using l raw_ok_mono[of refs qs "insert p refs"] by (auto simp: life_def)
  show l': "life qs (insert p refs) (V(p \<mapsto> (CONNECTING, False)))"
    using l t' r by (auto simp: life_def)
  have "p \<notin> set (concat (map establish_ptr qs))" using once by (auto elim!: establish_ptr_in)
  moreover have "raw_ok (insert p refs) (qs @ [FnEstablish p])" using raw_ok_append[of "FnEstablish p"] r by simp
  ultimately show "life (qs @ [FnEstablish p]) (insert p refs) (V(p \<mapsto> (CONNECTING, False)))"
    using l' by (simp add: life_def)
qed

lemma conn_view_fresh:
  assumes "cx_conns s' = (cx_conns s)(p \<mapsto> c)" and "rx_chans s' = (rx_chans s)(p \<mapsto> ch)" and "ch_state ch = NEW"
  shows "conn_view s' = (conn_view s)(p \<mapsto> (cn_state c, False))"
  using assms by (simp add: conn_view_def fun_eq_iff)

text \<open>A connection named \<open>name\<close> has been added and is held, everything else is as it was.\<close>

definition conn_opened :: "ptr \<Rightarrow> string \<Rightarrow> int \<Rightarrow> 'z wloop_scheme \<Rightarrow> 'z wloop_scheme \<Rightarrow> bool" where
  "conn_opened p name sockfd s t \<longleftrightarrow> cx_refs t = insert p (cx_refs s) \<and> conn_names t = (conn_names s)(p \<mapsto> name) \<and>
     chan_keys t = (chan_keys s)(p \<mapsto> chan_key (conn_channel p sockfd)) \<and> wloop.more t = wloop.more s \<and> posts s t \<and>
     (\<forall>q. conn_down s q \<longrightarrow> conn_down t q) \<and> (\<forall>q. view_up (conn_view s q) \<longrightarrow> view_up (conn_view t q)) \<and>
     (\<forall>q. q \<noteq> p \<longrightarrow> returned t q = returned s q)"

lemma conn_opened_ext: "conn_opened p name fd s t \<Longrightarrow> conn_ext t u \<Longrightarrow> events_ext t u \<Longrightarrow> conn_opened p name fd s u"
  by (simp add: conn_opened_def conn_ext_def events_ext_def) (use posts_trans in blast)

lemma conn_open_eq:
  assumes inv: "sys_inv [] s" and free: "cx_conns s p = None" "rx_chans s p = None"
    and fd: "\<forall>q ch. rx_chans s q = Some ch \<longrightarrow> ch_fd ch \<noteq> sockfd"
  obtains t c where "conn_open E inLoop p name sockfd ccb mcb wcb s =
      runInLoop (\<lambda>_. connectionEstablish E p) inLoop (Some (FnEstablish p)) t"
    and "conns_inv t" and "conn_view t = (conn_view s)(p \<mapsto> (CONNECTING, False))"
    and "cx_refs t = insert p (cx_refs s)" and "el_pending t = el_pending s"
    and "cx_conns t p = Some c" and "cn_state c = CONNECTING" and "conn_opened p name sockfd s t"
proof -
  obtain b where b: "NetBuffer_new InitialBufferSize = Inr b" "nb_inv b" "nb_content b = []"
    using NetBuffer_new_ok[of InitialBufferSize] by (auto simp: InitialBufferSize_def vec_max_def)
  let ?new = "\<lparr>cn_fd = sockfd, cn_name = name, cn_state = CONNECTING, cn_input = b, cn_output = b,
      cn_connectionCb = False, cn_messageCb = False, cn_closeCb = None, cn_writeCompleteCb = False\<rparr>"
  let ?c = "?new\<lparr>cn_connectionCb := ccb, cn_messageCb := mcb, cn_writeCompleteCb := wcb, cn_closeCb := Some CloseOwner\<rparr>"
  let ?ch = "conn_channel p sockfd"
  let ?s1 = "sys_call (SysSetKeepAlive sockfd True) (put_conn p ?new (Channel_put p ?ch s))"
  let ?t = "put_conn p ?c (?s1\<lparr>cx_refs := insert p (cx_refs ?s1)\<rparr>)"
  have new: "TcpConnection_new p name sockfd s = Inr ?s1"
    using free b(1) by (simp add: TcpConnection_new_def)
  have eq: "conn_open E inLoop p name sockfd ccb mcb wcb s =
      runInLoop (\<lambda>_. connectionEstablish E p) inLoop (Some (FnEstablish p)) ?t"
    by (simp add: conn_open_def new set_callbacks_def)
  have chan: "ch_state ?ch = NEW" "ch_fd ?ch = sockfd" "ch_requested ?ch = 0"
    by (simp_all add: conn_channel_def Channel_make_def kNoneEvent_def)
  have put: "rx_inv (Channel_put p ?ch s)"
    by (rule rx_inv_put_new[OF conns_inv_rx[OF sys_inv_conns[OF inv]] free(2) chan(1)]) (use fd chan(2) in metis)
  have "rx_inv (put_conn p ?new (Channel_put p ?ch s))" using put by simp
  then have "rx_inv ?s1" by (rule rx_inv_sys_call) simp_all
  then have rx: "rx_inv ?t" by (rule rx_inv_cong) simp_all
  have conns: "cx_conns ?t = (cx_conns s)(p \<mapsto> ?c)" by (simp add: Channel_put_def)
  have chans: "rx_chans ?t = (rx_chans s)(p \<mapsto> ?ch)" by (simp add: Channel_put_def)
  have ok: "conn_ok p ?c ?ch"
    using b chan by (simp add: conn_ok_def interest_ok_def conn_channel_def Channel_make_def)
  have ci: "conns_inv ?t" by (rule conns_inv_upd[OF _ rx conns chans ok]) (use inv in simp)
  have view: "conn_view ?t = (conn_view s)(p \<mapsto> (CONNECTING, False))"
    by (rule trans[OF conn_view_fresh[OF conns chans chan(1)]]) simp
  have absent: "conn_view s p \<noteq> Some x" for x using free(1) by (simp add: conn_view_def)
  have "conn_opened p name sockfd s ?t"
    unfolding conn_opened_def view conn_down_def
    using free conns chans
    by (auto simp: absent conn_names_def chan_keys_def returned_def view_up_def fun_eq_iff Channel_put_def)
  then show ?thesis by (intro that[where c = ?c, OF eq ci view]) (simp_all add: Channel_put_def)
qed

lemma conn_open_ok:
  assumes inv: "sys_inv [] s" and free: "cx_conns s p = None" "rx_chans s p = None"
    and fd: "\<forall>q ch. rx_chans s q = Some ch \<longrightarrow> ch_fd ch \<noteq> sockfd" and app: "app_ok E"
  shows "ok_res (\<lambda>t. sys_inv [] t \<and> conn_opened p name sockfd s t) (conn_open E inLoop p name sockfd ccb mcb wcb s)"
proof -
  obtain t c where t: "conn_open E inLoop p name sockfd ccb mcb wcb s =
      runInLoop (\<lambda>_. connectionEstablish E p) inLoop (Some (FnEstablish p)) t"
    "conns_inv t" "conn_view t = (conn_view s)(p \<mapsto> (CONNECTING, False))"
    "cx_refs t = insert p (cx_refs s)" "el_pending t = el_pending s"
    "cx_conns t p = Some c" "cn_state c = CONNECTING" "conn_opened p name sockfd s t"
    by (rule conn_open_eq[OF inv free fd, where E = E and inLoop = inLoop and name = name and ccb = ccb and mcb = mcb
          and wcb = wcb]) (rule that, assumption+)
  have l: "life (el_pending s) (cx_refs s) (conn_view s)" using inv by (simp add: sys_inv_def)
  have V: "conn_view s p = None" using free(1) by simp
  note new = life_new[OF l V]
  have it: "sys_inv [] t" using t new(1) by (simp add: sys_inv_def)
  have "ok_res (\<lambda>u. sys_inv [] u \<and> conn_opened p name sockfd s u) (connectionEstablish E p t)"
    by (rule ok_res_mono[OF establish_ok[OF it t(6,7) _ app]]) (use t(5,8) new(2) conn_opened_ext in auto)
  moreover have "sys_inv [] (queueInLoop False (FnEstablish p) t)"
    using t new(3) by (simp add: sys_inv_def)
  moreover have "conn_opened p name sockfd s (queueInLoop False (FnEstablish p) t)"
    by (rule conn_opened_ext[OF t(8) conn_ext_same]) (simp_all add: events_ext_def)
  ultimately show ?thesis using t(1) by (cases inLoop) (simp_all add: runInLoop_def)
qed

text \<open>The connections a queued function holds a shared pointer to.\<close>

fun held :: "task \<Rightarrow> ptr list" where
  "held (FnEstablish p) = [p]"
| "held (FnDestroy p) = [p]"
| "held (FnForceClose p) = [p]"
| "held (FnSetCloseCallback p) = [p]"
| "held (FnRemoveConnection p) = [p]"
| "held _ = []"

definition unreferenced :: "ptr \<Rightarrow> 'z wloop_scheme \<Rightarrow> bool" where
  "unreferenced p s \<longleftrightarrow> p \<notin> cx_refs s \<and> p \<notin> set (concat (map held (el_pending s)))"

lemma life_free:
  assumes l: "life qs refs V" and V: "V p = Some (st, b)" and free: "p \<notin> refs" "p \<notin> set (concat (map held qs))"
  shows "st = DISCONNECTED" and "\<not> b" and "life qs refs (V(p := None))"
proof -
  have no: "f \<noteq> FnDestroy p" "f \<noteq> FnForceClose p" "f \<noteq> FnSetCloseCallback p" "f \<noteq> FnEstablish p"
    if "f \<in> set qs" for f using free(2) that by force+
  show st: "st = DISCONNECTED" using life_refs[OF l V] free(1) by blast
  show "\<not> b" using l V st free(1) no(1)[of "FnDestroy p"] by (auto simp: life_def)
  have raw: "raw_ptr f \<noteq> Some p" if "f \<in> set qs" for f
    using raw_ok_in[of refs qs f p] l that free(1) no by (auto simp: life_def)
  have "\<forall>f \<in> set qs. task_ok (V(p := None)) f"
  proof
    fix f assume f: "f \<in> set qs"
    then have "task_ok V f" using l by (simp add: life_def)
    with no[OF f] raw[OF f] show "task_ok (V(p := None)) f" by (cases f) auto
  qed
  then show "life qs refs (V(p := None))" using l free(1) by (auto simp: life_def)
qed

lemma rx_inv_chans: "rx_inv s \<Longrightarrow> rx_wf t \<Longrightarrow> rx_chans t = rx_chans s \<Longrightarrow> rx_inv t"
  unfolding rx_inv_def by (elim conjE, intro conjI, assumption) (simp only:)

lemma delete_ok:
  assumes inv: "sys_inv [] s" and c: "cx_conns s p = Some c" and free: "unreferenced p s"
  shows "\<exists>s'. TcpConnection_delete p s = Inr s' \<and> sys_inv [] s' \<and> cx_conns s' p = None \<and> rx_chans s' p = None \<and>
    rx_trace s' = rx_trace s @ [SysClose (cn_fd c)] \<and> cx_conns s' = (cx_conns s)(p := None) \<and>
    rx_chans s' = (rx_chans s)(p := None) \<and> cx_refs s' = cx_refs s \<and> el_pending s' = el_pending s \<and>
    wloop.more s' = wloop.more s"
proof -
  obtain ch where ch: "rx_chans s p = Some ch" "conn_ok p c ch"
    using conns_invD[OF sys_inv_conns[OF inv] c] by blast
  have l: "life (el_pending s) (cx_refs s) (conn_view s)" using inv by (simp add: sys_inv_def)
  note fr = life_free[OF l view_at[OF c]]
  have new: "ch_state ch = NEW" using fr(2) free ch(1) by (simp add: unreferenced_def)
  let ?s1 = "Channel_destroy p s" and ?s2 = "sys_call (SysClose (cn_fd c)) (Channel_destroy p s)"
  let ?s = "?s2\<lparr>cx_conns := (cx_conns ?s2)(p := None)\<rparr>"
  have rxs: "rx_inv s" using inv by simp
  have r1: "rx_inv ?s1" by (rule rx_inv_destroy[OF rxs ch(1) new])
  have "rx_channelMap s (ch_fd ch) = None" using rx_inv_ready[OF rxs ch(1)] ch(1) new by (simp add: rx_ready_def)
  then have "rx_channelMap ?s1 (cn_fd c) = None" using ch(2) by (simp add: conn_ok_def Channel_destroy_def)
  then have "rx_wf ?s2" by (intro rx_wf_close) (use r1 in simp_all)
  then have "rx_inv ?s2" by (rule rx_inv_chans[OF r1]) simp
  then have "rx_inv ?s" by (rule rx_inv_cong) simp_all
  moreover have conns: "cx_conns ?s = (cx_conns s)(p := None)" "rx_chans ?s = (rx_chans s)(p := None)"
    by (simp_all add: Channel_destroy_def)
  ultimately have "conns_inv ?s" using inv unfolding sys_inv_def conns_inv_def by auto
  moreover have "conn_view ?s = (conn_view s)(p := None)"
    using conns by (simp add: conn_view_def fun_eq_iff)
  moreover have "life (el_pending s) (cx_refs s) ((conn_view s)(p := None))"
    using fr(3) free by (simp add: unreferenced_def)
  ultimately have "sys_inv [] ?s" by (simp add: sys_inv_def Channel_destroy_def)
  then show ?thesis using c conns by (simp add: TcpConnection_delete_def Channel_destroy_def sys_call_def)
qed

text \<open>A shared pointer that goes out of its owner destroys the connection if it was the last one.\<close>

definition drop_ref :: "ptr \<Rightarrow> 'z wloop_scheme \<Rightarrow> 'z wloop_scheme result" where
  "drop_ref p s = (if unreferenced p s then TcpConnection_delete p s else Inr s)"

section \<open>Steps\<close>

datatype 'w conn_op =
    CoOpen bool ptr string int bool bool bool
  | CoCall bool conn_call
  | CoRound "(ptr \<times> events) list" timestamp "ptr \<Rightarrow> 'w \<Rightarrow> readv_outcome" "ptr \<Rightarrow> 'w \<Rightarrow> int"
  | CoMark ptr
  | CoPost task
  | CoErase ptr
  | CoDelete ptr

definition run_conn_op :: "('z wloop_scheme) conn_env \<Rightarrow> (task \<Rightarrow> 'z wloop_scheme \<Rightarrow> conn_call list) \<Rightarrow>
    ('z wloop_scheme) conn_op \<Rightarrow> 'z wloop_scheme \<Rightarrow> 'z wloop_scheme result" where
  "run_conn_op E user oper s =
     (case oper of
        CoOpen inLoop p name sockfd ccb mcb wcb \<Rightarrow> conn_open E inLoop p name sockfd ccb mcb wcb s
      | CoCall inLoop cc \<Rightarrow> run_conn_call E inLoop cc s
      | CoRound evs now rd wr \<Rightarrow> loop_round (conn_callback E rd wr) (conn_exec E user) (Some evs, now) s
      | CoMark p \<Rightarrow> setSocketState p DISCONNECTING s
      | CoPost f \<Rightarrow> Inr (queueInLoop False f s)
      | CoErase p \<Rightarrow> owner_erase False p s
      | CoDelete p \<Rightarrow> TcpConnection_delete p s)"

text \<open>
  \<open>CoCall False\<close> is a call of another thread in one piece; \<open>CoMark\<close> (the write of the state, by
  \<open>shutdown\<close> and \<open>forceClose\<close>) and \<open>CoPost\<close> (the queueing, by all three calls) are its pieces after
  the test, with other steps between them.

  What the environment may do: the kernel hands out a descriptor no live channel has, a
  caller holds a pointer to the connection it calls, events are those of registered
  channels, the owner gives up a connection that has gone down, and an object is destroyed
  when nothing refers to it. A piece of another thread's call comes while the connection is up:
  the connection has not been closed since the test; the properties about races drop this.
  The last condition on events is how TCP reports a hang-up: with \<open>POLLIN\<close> when reading is
  requested, so that \<open>POLLHUP\<close> without \<open>POLLIN\<close> does not come with \<open>POLLPRI\<close> or \<open>POLLRDHUP\<close>.
\<close>

fun conn_op_ok :: "'z wloop_scheme \<Rightarrow> ('z wloop_scheme) conn_op \<Rightarrow> bool" where
  "conn_op_ok s (CoOpen inLoop p name sockfd ccb mcb wcb) \<longleftrightarrow> cx_conns s p = None \<and> rx_chans s p = None \<and>
     (\<forall>q ch. rx_chans s q = Some ch \<longrightarrow> ch_fd ch \<noteq> sockfd)"
| "conn_op_ok s (CoCall inLoop cc) \<longleftrightarrow> call_ok s cc \<and> (inLoop \<or> thread_call cc)"
| "conn_op_ok s (CoRound evs now rd wr) \<longleftrightarrow> deliverable s evs \<and> io_ok rd wr \<and>
     (\<forall>(p, e) \<in> set evs. cx_conns s p \<noteq> None \<and> \<not> (wants_read e \<and> wants_close e))"
| "conn_op_ok s (CoMark p) \<longleftrightarrow> (\<exists>c. cx_conns s p = Some c \<and> conn_up c)"
| "conn_op_ok s (CoPost f) \<longleftrightarrow> post_ok s f"
| "conn_op_ok s (CoErase p) \<longleftrightarrow> (\<exists>b. conn_view s p = Some (DISCONNECTED, b))"
| "conn_op_ok s (CoDelete p) \<longleftrightarrow> cx_conns s p \<noteq> None \<and> unreferenced p s"

text \<open>Calls and rounds keep the invariant whoever the owner is.\<close>

fun inner_op :: "'w conn_op \<Rightarrow> bool" where
  "inner_op (CoCall inLoop cc) = True"
| "inner_op (CoRound evs now rd wr) = True"
| "inner_op (CoMark p) = True"
| "inner_op (CoPost f) = True"
| "inner_op _ = False"

context conn_owner
begin

lemma inner_op_ok:
  assumes inv: "sys_inv [] s" and g: "good s" and ok: "conn_op_ok s oper" and inner: "inner_op oper"
  shows "ok_res (\<lambda>t. sys_inv [] t \<and> good t) (run_conn_op E (user_calls user) oper s)"
proof (cases oper)
  case (CoCall inLoop cc)
  then have a: "call_ok s cc" "inLoop \<or> thread_call cc" using ok by simp_all
  show ?thesis unfolding CoCall run_conn_op_def conn_op.case
    by (rule ok_res_mono[OF run_conn_call_ok[OF inv a]]) (use good_frame[OF g] in blast)
next
  case (CoRound evs now rd wr')
  then have a: "deliverable s evs" "io_ok rd wr'" using ok by simp_all
  show ?thesis unfolding CoRound run_conn_op_def conn_op.case
    by (rule round_ok[OF inv g _ a]) (use ok CoRound in \<open>auto simp: user_calls_def\<close>)
next
  case (CoMark p)
  then obtain c where c: "cx_conns s p = Some c" "conn_up c" using ok by auto
  show ?thesis unfolding CoMark run_conn_op_def conn_op.case
    by (rule ok_res_mono[OF mark_ok[OF inv c]]) (use good_frame[OF g] in blast)
next
  case (CoPost f)
  then have "post_ok s f" using ok by simp
  from post_task_ok[OF inv this] show ?thesis unfolding CoPost run_conn_op_def conn_op.case
    using good_frame[OF g] by auto
qed (use inner in simp_all)

end

lemma run_conn_op_ok:
  assumes inv: "sys_inv [] s" and ok: "conn_op_ok s oper"
  shows "ok_res (sys_inv []) (run_conn_op (application far wr onwritten app) (user_calls user) oper s)"
proof (cases oper)
  case (CoOpen inLoop p name sockfd ccb mcb wcb)
  have a: "cx_conns s p = None" "rx_chans s p = None" "\<forall>q ch. rx_chans s q = Some ch \<longrightarrow> ch_fd ch \<noteq> sockfd"
    using ok CoOpen by simp_all
  show ?thesis unfolding CoOpen run_conn_op_def conn_op.case by (rule ok_res_mono[OF conn_open_ok[OF inv a apps.app]]) simp
next
  case (CoCall inLoop cc)
  show ?thesis by (rule ok_res_mono[OF apps.inner_op_ok[OF inv TrueI ok]]) (simp_all add: CoCall)
next
  case (CoRound evs now rd wr')
  show ?thesis by (rule ok_res_mono[OF apps.inner_op_ok[OF inv TrueI ok]]) (simp_all add: CoRound)
next
  case (CoMark p)
  show ?thesis by (rule ok_res_mono[OF apps.inner_op_ok[OF inv TrueI ok]]) (simp_all add: CoMark)
next
  case (CoPost f)
  show ?thesis by (rule ok_res_mono[OF apps.inner_op_ok[OF inv TrueI ok]]) (simp_all add: CoPost)
next
  case (CoErase p)
  then obtain b where "conn_view s p = Some (DISCONNECTED, b)" using ok by auto
  from ok_res_mono[OF owner_erase_ok[OF inv this]] show ?thesis
    unfolding CoErase run_conn_op_def conn_op.case by blast
next
  case (CoDelete p)
  then obtain c where "cx_conns s p = Some c" "unreferenced p s" using ok by auto
  from delete_ok[OF inv this] show ?thesis unfolding CoDelete run_conn_op_def conn_op.case by auto
qed

inductive conn_step :: "(wloop conn_env) \<Rightarrow> (task \<Rightarrow> wloop \<Rightarrow> conn_call list) \<Rightarrow> wloop \<Rightarrow> wloop \<Rightarrow> bool"
  for E user where
  "conn_op_ok s oper \<Longrightarrow> run_conn_op E (user_calls user) oper s = Inr t \<Longrightarrow> conn_step E user s t"

definition conn_start :: "wloop \<Rightarrow> bool" where
  "conn_start s \<longleftrightarrow> rx_inv s \<and> cx_conns s = Map.empty \<and> cx_refs s = {} \<and> el_pending s = []"

interpretation conns: invariant_system conn_start "conn_step (application far wr onwritten app) user" "sys_inv []"
proof
  fix s t :: wloop
  show "conn_start s \<Longrightarrow> sys_inv [] s"
    by (simp add: conn_start_def sys_inv_def conns_inv_def life_def conn_view_def)
  assume "conn_step (application far wr onwritten app) user s t" and inv: "sys_inv [] s"
  then obtain oper where "conn_op_ok s oper"
    "run_conn_op (application far wr onwritten app) (user_calls user) oper s = Inr t"
    by (auto elim: conn_step.cases)
  with run_conn_op_ok[OF inv, of oper far wr onwritten app user] show "sys_inv [] t" by (simp add: ok_resD)
qed

section \<open>What a reachable state gives\<close>

lemma watched_up:
  assumes inv: "sys_inv rest s" and c: "cx_conns s p = Some c" and up: "conn_up c"
  shows "interest (rx_trace s) (cn_fd c) =
    Some (if nb_content (cn_output c) = [] then kReadEvent else kReadEvent OR kWriteEvent, p)"
proof -
  obtain ch where ch: "rx_chans s p = Some ch" "conn_ok p c ch"
    using conns_invD[OF sys_inv_conns[OF inv] c] by blast
  have wf: "rx_wf s" using inv by simp
  have fd: "ch_fd ch = cn_fd c" using ch(2) by (simp add: conn_ok_def)
  have "rx_channelMap s (cn_fd c) = Some p"
    using rx_wf_chanD[OF wf ch(1)] conn_ok_up(1)[OF ch(2) up] fd by simp
  then have "expected s (cn_fd c) = Some (ch_requested ch, p)"
    using ch(1) conn_ok_up(1)[OF ch(2) up] by (simp add: expected_def)
  then show ?thesis using wf conn_ok_up(2)[OF ch(2) up] by (simp add: rx_wf_def)
qed

lemma other_fd:
  assumes inv: "sys_inv rest s" and c: "cx_conns s p = Some c" and d: "cx_conns s q = Some d" and "q \<noteq> p"
  shows "cn_fd d \<noteq> cn_fd c"
proof -
  obtain ch where ch: "rx_chans s p = Some ch" "conn_ok p c ch"
    using conns_invD[OF sys_inv_conns[OF inv] c] by blast
  obtain dh where dh: "rx_chans s q = Some dh" "conn_ok q d dh"
    using conns_invD[OF sys_inv_conns[OF inv] d] by blast
  have "rx_inv s" using inv by simp
  then have "ch_fd dh \<noteq> ch_fd ch" using ch(1) dh(1) \<open>q \<noteq> p\<close> unfolding rx_inv_def by blast
  then show ?thesis using ch(2) dh(2) by (simp add: conn_ok_def)
qed

text \<open>Sending from the loop's thread, on a connection that is up.\<close>

lemma send_up:
  assumes inv: "sys_inv rest s" and c: "cx_conns s p = Some c" and st: "cn_state c = CONNECTED"
    and len: "length data \<le> vec_max"
  shows "TcpConnection_send E True p data s = TcpConnection_send E' True p data s"
    and "ok_res (\<lambda>s'. (\<forall>fd. written_to fd (rx_trace s') = written_to fd (rx_trace s)) \<and>
        (\<forall>q. stream q s' = (if q = p then map_option (\<lambda>xs. xs @ data) (stream p s) else stream q s)))
      (TcpConnection_send E True p data s)"
proof -
  have up: "conn_up c" using st by (simp add: conn_up_def)
  have ci: "conns_inv s" using inv by simp
  have eq: "TcpConnection_send E True p data s = TcpConnection_sendInLoop E True p data s" for E
    using c st by (simp add: TcpConnection_send_eq)
  show "TcpConnection_send E True p data s = TcpConnection_send E' True p data s"
    unfolding eq sendInLoop_up_eq[OF ci c up] ..
  show "ok_res (\<lambda>s'. (\<forall>fd. written_to fd (rx_trace s') = written_to fd (rx_trace s)) \<and>
      (\<forall>q. stream q s' = (if q = p then map_option (\<lambda>xs. xs @ data) (stream p s) else stream q s)))
    (TcpConnection_send E True p data s)"
    unfolding eq
  proof (rule ok_res_mono[OF sendInLoop_up[OF ci c up len]])
    fix t :: "'a wloop_scheme"
    assume "conns_inv t \<and> conn_view t = conn_view s \<and> cx_refs t = cx_refs s \<and>
      el_pending t = el_pending s \<and> cx_log t = cx_log s \<and> returned t = returned s \<and>
      conn_names t = conn_names s \<and> chan_keys t = chan_keys s \<and> wloop.more t = wloop.more s \<and>
      (\<forall>fd. written_to fd (rx_trace t) = written_to fd (rx_trace s)) \<and>
      (\<exists>b. cx_conns t = (cx_conns s)(p \<mapsto> c\<lparr>cn_output := b\<rparr>) \<and> nb_content b = nb_content (cn_output c) @ data)"
    then obtain b where b: "cx_conns t = (cx_conns s)(p \<mapsto> c\<lparr>cn_output := b\<rparr>)"
        "nb_content b = nb_content (cn_output c) @ data"
      and w: "\<forall>fd. written_to fd (rx_trace t) = written_to fd (rx_trace s)" by blast
    then show "(\<forall>fd. written_to fd (rx_trace t) = written_to fd (rx_trace s)) \<and>
      (\<forall>q. stream q t = (if q = p then map_option (\<lambda>xs. xs @ data) (stream p s) else stream q s))"
      using c by (simp add: stream_def)
  qed
qed

lemma drain_stream:
  assumes inv: "sys_inv rest s" and c: "cx_conns s p = Some c" and up: "conn_up c"
    and n: "0 < n" "nat n \<le> length (nb_content (cn_output c))"
  shows "\<exists>s' b. conn_handleWrite n p s = Inr s' \<and> (\<forall>q. stream q s' = stream q s) \<and>
    cx_conns s' = (cx_conns s)(p \<mapsto> c\<lparr>cn_output := b\<rparr>) \<and> nb_content b = drop (nat n) (nb_content (cn_output c)) \<and>
    rx_trace s' = rx_trace s @ [SysWrite (cn_fd c) (take (nat n) (nb_content (cn_output c)))] @
      (if nb_content b = [] then SysEpollCtl CtlMod (cn_fd c) kReadEvent p #
          (if cn_state c = DISCONNECTING then [SysShutdownWrite (cn_fd c)] else []) else [])"
proof -
  obtain s' b where s': "conn_handleWrite n p s = Inr s'" "cx_conns s' = (cx_conns s)(p \<mapsto> c\<lparr>cn_output := b\<rparr>)"
    "nb_content b = drop (nat n) (nb_content (cn_output c))"
    "rx_trace s' = rx_trace s @ [SysWrite (cn_fd c) (take (nat n) (nb_content (cn_output c)))] @
      (if nb_content b = [] then SysEpollCtl CtlMod (cn_fd c) kReadEvent p #
          (if cn_state c = DISCONNECTING then [SysShutdownWrite (cn_fd c)] else []) else [])"
    by (rule handleWrite_up[OF inv c up n]) (rule that, assumption+)
  have w: "written_to fd (rx_trace s') = written_to fd (rx_trace s) @
      (if fd = cn_fd c then take (nat n) (nb_content (cn_output c)) else [])" for fd
    unfolding s'(4) written_to_def by auto
  have "stream q s' = stream q s" for q
  proof (cases "q = p")
    case True
    then show ?thesis using c s'(2,3) by (simp add: stream_def w)
  next
    case False
    then show ?thesis using s'(2) other_fd[OF inv c _ False] by (cases "cx_conns s q") (simp_all add: stream_def w)
  qed
  with s' show ?thesis by blast
qed

text \<open>
  A connection closed by its peer, whose application does nothing about it: the handler,
  the pending functions and the destructor in exact terms.
\<close>

lemma quiet_close:
  assumes inv: "sys_inv [] s" and c: "cx_conns s p = Some c" and up: "conn_up c"
    and ow: "cn_closeCb c = Some CloseOwner" and near: "ce_close E = owner_close False"
    and quiet: "\<And>u. ce_app E (AppConnection p) u = []" and none: "el_pending s = []"
  shows "\<exists>s1 s2. conn_handleClose E p s = Inr s1 \<and> doPendingFunctions (conn_exec E user) s1 = Inr s2 \<and>
    sys_inv [] s2 \<and> el_pending s2 = [] \<and> cx_conns s2 = (cx_conns s)(p \<mapsto> c\<lparr>cn_state := DISCONNECTED\<rparr>) \<and>
    interest (rx_trace s2) = (interest (rx_trace s))(cn_fd c := None) \<and> unreferenced p s2 \<and>
    cx_log s2 = cx_log s @ (if cn_connectionCb c then [(AppConnection p, DISCONNECTED)] else [])"
proof -
  obtain ch where ch: "rx_chans s p = Some ch" "conn_ok p c ch"
    using conns_invD[OF sys_inv_conns[OF inv] c] by blast
  note st = conn_ok_up(1)[OF ch(2) up]
  let ?d = "c\<lparr>cn_state := DISCONNECTED\<rparr>"
  let ?a = "put_conn p ?d s"
  let ?b = "request_result p ch 0 ?a"
  have rx: "rx_inv ?a" "rx_chans ?a p = Some ch" using inv ch(1) by simp_all
  have dis: "disableAll p ?a = Inr ?b"
    using rx_request_law[OF rx] by (simp add: disableAll_def kNoneEvent_def)
  let ?l = "if cn_connectionCb c then ?b\<lparr>cx_log := cx_log ?b @ [(AppConnection p, DISCONNECTED)]\<rparr> else ?b"
  let ?s1 = "queueInLoop True (FnDestroy p) (?l\<lparr>cx_refs := cx_refs s - {p}\<rparr>)"
  have cb: "connectionCallback E p ?b = Inr ?l"
    by (simp add: connectionCallback_def notify_def quiet)
  have close: "conn_handleClose E p s = Inr ?s1"
    using c up dis cb ow
    by (auto simp: conn_handleClose_def setSocketState_def conn_up_def near owner_close_def owner_erase_def)
  let ?E = "application False (\<lambda>_ _. 0) (\<lambda>_. Inr) (\<lambda>_ _. []) :: ('a wloop_scheme) conn_env"
  have "connectionCallback ?E p ?b = Inr ?l"
    by (simp add: connectionCallback_def notify_def application_def)
  then have "conn_handleClose ?E p s = Inr ?s1"
    using c up dis ow
    by (auto simp: conn_handleClose_def setSocketState_def conn_up_def application_def owner_close_def owner_erase_def)
  from conjunct1[OF ok_resD[OF apps.handleClose_ok[OF inv TrueI c up] this]] have i1: "sys_inv [] ?s1" .
  have pend: "el_pending ?s1 = [FnDestroy p]" using none by simp
  let ?s2 = "?s1\<lparr>el_calling := True, el_pending := []\<rparr>"
  have i2: "sys_inv [FnDestroy p] ?s2" by (rule conjunct1[OF sys_inv_queue[OF i1]]) (simp_all add: none)
  have conn2: "cx_conns ?s2 p = Some ?d" by simp
  have chan2: "rx_chans ?s2 p = Some (requested_with 0 ch)" by simp
  note rem = Channel_remove_eq[OF chan2]
  have del: "requested_with 0 ch = ch\<lparr>ch_requested := 0, ch_state := DELETED\<rparr>" using st by (simp add: requested_with_def)
  obtain t where t: "connectionDestory E p ?s2 = Inr t" "sys_inv [] t" using destroy_ok[OF i2] by blast
  have t': "connectionDestory E p ?s2 = Channel_remove p ?s2" using conn2 by (simp add: connectionDestory_def)
  have tt: "cx_conns t = (cx_conns s)(p \<mapsto> ?d)" "cx_refs t = cx_refs s - {p}" "el_pending t = []"
    "rx_trace t = rx_trace ?s2" "cx_log t = cx_log ?l"
    using t(1) unfolding t' rem by (auto simp: del)
  have "sys_inv [] (t\<lparr>el_calling := False, el_pending := []\<rparr>)" by (rule conjunct1[OF sys_inv_queue[OF t(2)]]) (simp_all add: tt)
  then have i3: "sys_inv [] (t\<lparr>el_calling := False\<rparr>)" using tt(3) by (cases t) simp
  have run: "doPendingFunctions (conn_exec E user) ?s1 = Inr (t\<lparr>el_calling := False\<rparr>)"
    unfolding doPending_eq[OF pend] by (simp only: fold_res.simps conn_exec_def task.case t(1) bindr_simps)
  have "interest (rx_trace ?s2) = (interest (rx_trace s))(cn_fd c := None)"
    using ch(2) st by (simp add: conn_ok_def request_result_def queueInLoop_def queue_push_def wakeup_def)
  then have "interest (rx_trace t) = (interest (rx_trace s))(cn_fd c := None)" using tt(4) by simp
  moreover have "cx_log t = cx_log s @ (if cn_connectionCb c then [(AppConnection p, DISCONNECTED)] else [])"
    using tt(5) by simp
  ultimately show ?thesis
    using close run i3 tt by (auto simp: unreferenced_def)
qed

section \<open>A small system\<close>

text \<open>
  One loop, a silent application, and connection \<open>7\<close> on descriptor \<open>9\<close>: freshly
  established, and with three bytes to write.
\<close>

abbreviation silent :: "('z wloop_scheme) conn_env" where
  "silent \<equiv> application False (\<lambda>_ _. 0) (\<lambda>_. Inr) (\<lambda>_ _. [])"

abbreviation silent_reach :: "wloop \<Rightarrow> bool" where
  "silent_reach \<equiv> reach conn_start (conn_step silent (\<lambda>_ _. []))"

definition no_conns :: wloop where
  "no_conns = tloop.extend (raw_loop Map.empty 0)
     \<lparr>cx_conns = Map.empty, cx_refs = {}, cx_log = []\<rparr>"

definition fresh_buffer :: netbuffer where
  "fresh_buffer = \<lparr>nb_buffer = replicate 1032 0, nb_readIndex = 8, nb_writeIndex = 8\<rparr>"

lemma fresh_buffer_new: "NetBuffer_new InitialBufferSize = Inr fresh_buffer"
  by (simp add: fresh_buffer_def NetBuffer_new_def InitialBufferSize_def ReservedPrependSize_def vec_max_def
      nb_readableBytes_def nb_writeableBytes_def nb_prependableBytes_def)

lemma fresh_buffer_ok: "nb_inv fresh_buffer" "nb_content fresh_buffer = []" "nb_writeIndex fresh_buffer = 8"
    "length (nb_buffer fresh_buffer) = 1032"
  by (simp_all add: fresh_buffer_def nb_inv_def nb_wf_def nb_content_def ReservedPrependSize_def vec_max_def
     )

definition up_conn :: conn where
  "up_conn = \<lparr>cn_fd = 9, cn_name = ''c'', cn_state = CONNECTED, cn_input = fresh_buffer, cn_output = fresh_buffer,
     cn_connectionCb = True, cn_messageCb = True, cn_closeCb = Some CloseOwner, cn_writeCompleteCb = False\<rparr>"

lemma no_conns_start: "conn_start no_conns"
proof -
  have "rx_inv no_conns"
    by (rule rx_inv_cong[OF rx_inv_new]) (simp_all add: no_conns_def raw_loop_def tloop.defs)
  then show ?thesis by (simp add: conn_start_def no_conns_def raw_loop_def tloop.defs)
qed

lemma one_conn:
  "\<exists>s. silent_reach s \<and> cx_conns s = [7 \<mapsto> up_conn] \<and> el_pending s = [] \<and>
    cx_log s = [(AppConnection 7, CONNECTED)] \<and> rx_eventsSize s = 16 \<and> el_running s = False \<and>
    (\<forall>fd. written_to fd (rx_trace s) = [])"
proof -
  let ?s0 = "no_conns"
  let ?op = "CoOpen True 7 ''c'' 9 True True False :: wloop conn_op"
  have fields: "rx_chans ?s0 = Map.empty" "rx_channelMap ?s0 = Map.empty" "cx_conns ?s0 = Map.empty"
      "cx_log ?s0 = []" "el_pending ?s0 = []" "rx_eventsSize ?s0 = 16" "el_running ?s0 = False" "rx_trace ?s0 = []"
    by (simp_all add: no_conns_def raw_loop_def tloop.defs InitEventVectorSize_def)
  have kr: "kReadEvent \<noteq> kNoneEvent" by (simp add: kReadEvent_def kNoneEvent_def event_consts)
  have "\<exists>s. conn_open silent True 7 ''c'' 9 True True False ?s0 = Inr s \<and> cx_conns s = [7 \<mapsto> up_conn] \<and>
      el_pending s = [] \<and> cx_log s = [(AppConnection 7, CONNECTED)] \<and> rx_eventsSize s = 16 \<and> el_running s = False \<and>
    (\<forall>fd. written_to fd (rx_trace s) = [])"
    by (simp add: conn_open_def TcpConnection_new_def fresh_buffer_new fields set_callbacks_def runInLoop_def
        connectionEstablish_def enableRead_def Channel_request_def Channel_update_def Epoll_updateChannel_def
        Epoll_update_def Channel_put_def put_conn_def conn_channel_def Channel_make_def sys_call_def
        connectionCallback_def notify_def application_def up_conn_def written_to_def)
  then obtain s where s: "conn_open silent True 7 ''c'' 9 True True False ?s0 = Inr s" "cx_conns s = [7 \<mapsto> up_conn]"
    "el_pending s = []" "cx_log s = [(AppConnection 7, CONNECTED)]" "rx_eventsSize s = 16" "el_running s = False"
    "\<forall>fd. written_to fd (rx_trace s) = []" by blast
  have "conn_step silent (\<lambda>_ _. []) ?s0 s"
    by (rule conn_step.intros[of _ ?op]) (simp_all add: s(1) fields run_conn_op_def)
  with reach_start[of conn_start, OF no_conns_start] have "silent_reach s" by (rule reach_step)
  with s show ?thesis by blast
qed

lemma one_conn_sending:
  "\<exists>s c. silent_reach s \<and> cx_conns s 7 = Some c \<and> cn_state c = CONNECTED \<and> nb_content (cn_output c) = [1, 2, 3]"
proof -
  obtain s where s: "silent_reach s" "cx_conns s = [7 \<mapsto> up_conn]" using one_conn by blast
  have inv: "sys_inv [] s" by (rule conns.reach_inv[OF s(1)])
  have c: "cx_conns s 7 = Some up_conn" "conn_up up_conn" using s(2) by (simp_all add: conn_up_def up_conn_def)
  have out: "cn_output up_conn = fresh_buffer" "cn_state up_conn = CONNECTED" by (simp_all add: up_conn_def)
  obtain b where b: "nb_append [1, 2, 3] fresh_buffer = Inr b"
    using nb_append_gen[of fresh_buffer "[1, 2, 3]"] fresh_buffer_ok by (auto simp: vec_max_def)
  have eq: "run_conn_call silent True (CcSend 7 [1, 2, 3]) s = enableWrite 7 (put_conn 7 (up_conn\<lparr>cn_output := b\<rparr>) s)"
    using c b out fresh_buffer_ok sendInLoop_up_eq[OF sys_inv_conns[OF inv] c]
    by (simp add: run_conn_call_def TcpConnection_send_eq)
  have "\<exists>t. enableWrite 7 (put_conn 7 (up_conn\<lparr>cn_output := b\<rparr>) s) = Inr t"
  proof -
    obtain ch where ch: "rx_chans s 7 = Some ch" using conns_invD[OF sys_inv_conns[OF inv] c(1)] by blast
    have "rx_inv (put_conn 7 (up_conn\<lparr>cn_output := b\<rparr>) s)" "rx_chans (put_conn 7 (up_conn\<lparr>cn_output := b\<rparr>) s) 7 = Some ch"
      using inv ch by simp_all
    from rx_request_law(1)[OF this] show ?thesis by (simp add: enableWrite_def)
  qed
  then obtain t where t: "run_conn_call silent True (CcSend 7 [1, 2, 3]) s = Inr t" using eq by auto
  have "conn_step silent (\<lambda>_ _. []) s t"
    by (rule conn_step.intros[of _ "CoCall True (CcSend 7 [1, 2, 3])"]) (simp_all add: t c run_conn_op_def vec_max_def)
  with s(1) have "silent_reach t" by (rule reach_step)
  moreover have "TcpConnection_sendInLoop silent True 7 [1, 2, 3] s = Inr t"
    using t c out by (simp add: run_conn_call_def TcpConnection_send_eq)
  moreover note ok_resD[OF sendInLoop_up[OF sys_inv_conns[OF inv] c, of "[1, 2, 3]"] this]
  ultimately obtain b' where r: "silent_reach t" "cx_conns t = (cx_conns s)(7 \<mapsto> up_conn\<lparr>cn_output := b'\<rparr>)"
    "nb_content b' = nb_content (cn_output up_conn) @ [1, 2, 3]" by (auto simp: vec_max_def)
  then have "cx_conns t 7 = Some (up_conn\<lparr>cn_output := b'\<rparr>)" "nb_content b' = [1, 2, 3]"
    using out fresh_buffer_ok by simp_all
  with r(1) show ?thesis using out by (intro exI[of _ t] exI[of _ "up_conn\<lparr>cn_output := b'\<rparr>"]) simp
qed

section \<open>Properties\<close>

text \<open>C1. Connections are memory safe and their assertions hold: in every state a loop's connections can
  reach, through any mix of new connections, calls from the loop's thread, rounds of events (peers
  that send, close or fail, with an application that reacts by any calls), removals by the owner,
  destructions of unreferenced connections, and sends, shutdowns and forced closes of other
  threads, in one piece or with their state write and their queueing as steps of their own, the
  next such step fails no assertion, calls no empty function, reads no byte outside a buffer and
  touches no destroyed connection or channel. Two things are required of the environment: between
  the test of another thread's call and its queueing the connection is not closed (without this
  the code fails, see \<open>late_send_dangles\<close> and \<open>racing_force_close_closes_twice\<close>), and \<open>POLLHUP\<close>
  without \<open>POLLIN\<close> does not come with \<open>POLLPRI\<close> or \<open>POLLRDHUP\<close>. A round of the loop is one step.\<close>

theorem connection_system_safe:
  assumes "reach conn_start (conn_step (application far wr onwritten app) user) s" and "conn_op_ok s oper"
  shows "case run_conn_op (application far wr onwritten app) (user_calls user) oper s of
      Inl e \<Rightarrow> env_fault e | Inr s' \<Rightarrow> reach conn_start (conn_step (application far wr onwritten app) user) s'"
proof -
  have "ok_res (sys_inv []) (run_conn_op (application far wr onwritten app) (user_calls user) oper s)"
    by (rule run_conn_op_ok[OF conns.reach_inv[OF assms(1)] assms(2)])
  then show ?thesis
    using reach_step[OF assms(1) conn_step.intros[OF assms(2)]]
    by (auto simp: ok_res_def split: sum.splits)
qed

theorem connection_system_safe_witness:
  "\<exists>s t. silent_reach s \<and> run_conn_op silent (user_calls (\<lambda>_ _. [])) (CoPost (FnForceClose 7)) s = Inr t \<and>
    map_option cn_state (cx_conns s 7) = Some DISCONNECTING \<and> el_pending t = [FnForceClose 7] \<and> silent_reach t"
proof -
  obtain s where s: "silent_reach s" "cx_conns s = [7 \<mapsto> up_conn]" "el_pending s = []" using one_conn by blast
  let ?d = "up_conn\<lparr>cn_state := DISCONNECTING\<rparr>"
  have mark: "conn_op_ok s (CoMark 7)" using s(2) by (simp add: up_conn_def conn_up_def)
  obtain u where u: "run_conn_op silent (user_calls (\<lambda>_ _. [])) (CoMark 7) s = Inr u" "cx_conns u 7 = Some ?d" "el_pending u = []"
    using s(2,3) by (simp add: run_conn_op_def setSocketState_def)
  from connection_system_safe[OF s(1) mark] u(1) have r: "silent_reach u" by simp
  have post: "conn_op_ok u (CoPost (FnForceClose 7))" using u(2) by (simp add: conn_up_def)
  obtain t where t: "run_conn_op silent (user_calls (\<lambda>_ _. [])) (CoPost (FnForceClose 7)) u = Inr t" "el_pending t = [FnForceClose 7]"
    using u(3) by (simp add: run_conn_op_def)
  from connection_system_safe[OF r post] t(1) have "silent_reach t" by simp
  with r t u(2) show ?thesis by (intro exI[of _ u] exI[of _ t]) simp
qed

text \<open>C13. A connection asks the kernel for write events exactly while bytes wait in its output buffer: in
  every reachable state, the interest registered with epoll for a connection that is up is that
  of reading, together with that of writing if and only if the output buffer is not empty.\<close>

theorem write_interest_iff_pending:
  assumes "reach conn_start (conn_step (application far wr onwritten app) user) s"
    and "cx_conns s p = Some c" and "cn_state c = CONNECTED \<or> cn_state c = DISCONNECTING"
  shows "interest (rx_trace s) (cn_fd c) =
    Some (if nb_content (cn_output c) = [] then kReadEvent else kReadEvent OR kWriteEvent, p)"
  by (rule watched_up[OF conns.reach_inv[OF assms(1)] assms(2)]) (use assms(3) in \<open>simp add: conn_up_def\<close>)

theorem write_interest_iff_pending_witness:
  "\<exists>s c. silent_reach s \<and> cx_conns s 7 = Some c \<and>
    interest (rx_trace s) (cn_fd c) = Some (kReadEvent OR kWriteEvent, 7)"
proof -
  obtain s c where s: "silent_reach s" "cx_conns s 7 = Some c" "cn_state c = CONNECTED"
    "nb_content (cn_output c) = [1, 2, 3]" using one_conn_sending by blast
  with write_interest_iff_pending[OF s(1,2)] show ?thesis by auto
qed

text \<open>C27. \<open>send\<close> never writes to the socket itself: in every reachable state, a send from the loop's
  thread on a connected connection writes no byte to any descriptor, does not depend on what a
  direct \<open>write\<close> would return nor call the completion callback, and appends exactly the
  message to the byte stream of that connection and of no other.\<close>

theorem send_only_buffers:
  assumes "reach conn_start (conn_step (application far wr onwritten app) user) s"
    and "cx_conns s p = Some c" and "cn_state c = CONNECTED" and "length data \<le> vec_max"
  shows "TcpConnection_send E True p data s = TcpConnection_send E' True p data s \<and>
    ok_res (\<lambda>s'. (\<forall>fd. written_to fd (rx_trace s') = written_to fd (rx_trace s)) \<and>
        (\<forall>q. stream q s' = (if q = p then map_option (\<lambda>xs. xs @ data) (stream p s) else stream q s)))
      (TcpConnection_send E True p data s)"
  using send_up[OF conns.reach_inv[OF assms(1)] assms(2-4)] by blast

theorem send_only_buffers_witness:
  "\<exists>s. silent_reach s \<and>
    ok_res (\<lambda>s'. written_to 9 (rx_trace s') = [] \<and> stream 7 s' = Some [5, 6]) (TcpConnection_send silent True 7 [5, 6] s)"
proof -
  obtain s where s: "silent_reach s" "cx_conns s = [7 \<mapsto> up_conn]" "\<forall>fd. written_to fd (rx_trace s) = []"
    using one_conn by blast
  have c: "cx_conns s 7 = Some up_conn" "cn_state up_conn = CONNECTED" "length [5, 6 :: byte] \<le> vec_max"
    using s(2) by (simp_all add: up_conn_def vec_max_def)
  have "stream 7 s = Some []" using s(2,3) fresh_buffer_ok by (simp add: stream_def up_conn_def)
  with send_only_buffers[OF s(1) c, of silent silent] s(1,3) show ?thesis
    by (intro exI[of _ s] conjI ok_res_mono[where Q = "\<lambda>s'. written_to 9 (rx_trace s') = [] \<and> stream 7 s' = Some [5, 6]"])
      auto
qed

text \<open>C6. The output buffer drains in order: in every reachable state, when \<open>write\<close> takes \<open>n\<close> of the
  pending bytes, \<open>handleWrite\<close> has given the socket the first \<open>n\<close> of them and keeps the rest, leaves
  the byte stream of every connection unchanged, withdraws the write interest exactly when the
  buffer is empty, and then shuts the writing side down if a shutdown was waiting.\<close>

theorem output_drains_in_order:
  assumes "reach conn_start (conn_step (application far wr onwritten app) user) s"
    and "cx_conns s p = Some c" and "cn_state c = CONNECTED \<or> cn_state c = DISCONNECTING"
    and "0 < n" and "nat n \<le> length (nb_content (cn_output c))"
  shows "\<exists>s' b. conn_handleWrite n p s = Inr s' \<and> (\<forall>q. stream q s' = stream q s) \<and>
    cx_conns s' = (cx_conns s)(p \<mapsto> c\<lparr>cn_output := b\<rparr>) \<and> nb_content b = drop (nat n) (nb_content (cn_output c)) \<and>
    rx_trace s' = rx_trace s @ [SysWrite (cn_fd c) (take (nat n) (nb_content (cn_output c)))] @
      (if nb_content b = [] then SysEpollCtl CtlMod (cn_fd c) kReadEvent p #
          (if cn_state c = DISCONNECTING then [SysShutdownWrite (cn_fd c)] else []) else [])"
  by (rule drain_stream[OF conns.reach_inv[OF assms(1)] assms(2) _ assms(4,5)])
    (use assms(3) in \<open>simp add: conn_up_def\<close>)

theorem output_drains_in_order_witness:
  "\<exists>s c s' b. silent_reach s \<and> cx_conns s 7 = Some c \<and> nb_content (cn_output c) = [1, 2, 3] \<and>
    conn_handleWrite 2 7 s = Inr s' \<and> cx_conns s' 7 = Some (c\<lparr>cn_output := b\<rparr>) \<and> nb_content b = [3] \<and>
    rx_trace s' = rx_trace s @ [SysWrite (cn_fd c) [1, 2]]"
proof -
  obtain s c where s: "silent_reach s" "cx_conns s 7 = Some c" "cn_state c = CONNECTED"
    "nb_content (cn_output c) = [1, 2, 3]" using one_conn_sending by blast
  have st: "cn_state c = CONNECTED \<or> cn_state c = DISCONNECTING" using s(3) by simp
  obtain s' b where "conn_handleWrite 2 7 s = Inr s'" "cx_conns s' = (cx_conns s)(7 \<mapsto> c\<lparr>cn_output := b\<rparr>)"
    "nb_content b = [3]" "rx_trace s' = rx_trace s @ [SysWrite (cn_fd c) [1, 2]]"
    using output_drains_in_order[OF s(1,2) st, of 2] s(4) by auto
  with s show ?thesis by (intro exI[of _ s] exI[of _ c] exI[of _ s'] exI[of _ b]) simp
qed

text \<open>C15. A graceful shutdown loses nothing: in every reachable state, \<open>shutdown\<close> on a connected
  connection with bytes still waiting shuts nothing down yet; when the socket has taken the
  last of them, \<open>handleWrite\<close> shuts the writing side down right behind them.\<close>

theorem shutdown_after_last_byte:
  assumes "reach conn_start (conn_step (application far wr onwritten app) user) s"
    and "cx_conns s p = Some c" and "cn_state c = CONNECTED" and "nb_content (cn_output c) \<noteq> []"
  shows "\<exists>s1 s2. TcpConnection_shutdown True p s = Inr s1 \<and> rx_trace s1 = rx_trace s \<and>
    conn_handleWrite (int (length (nb_content (cn_output c)))) p s1 = Inr s2 \<and>
    rx_trace s2 = rx_trace s @ [SysWrite (cn_fd c) (nb_content (cn_output c)),
      SysEpollCtl CtlMod (cn_fd c) kReadEvent p, SysShutdownWrite (cn_fd c)]"
proof -
  have inv: "sys_inv [] s" by (rule conns.reach_inv[OF assms(1)])
  have up: "conn_up c" using assms(3) by (simp add: conn_up_def)
  let ?d = "c\<lparr>cn_state := DISCONNECTING\<rparr>" and ?s1 = "put_conn p (c\<lparr>cn_state := DISCONNECTING\<rparr>) s"
  have inv1: "sys_inv [] ?s1" using up_state[OF inv assms(2) up] by blast
  have d: "cx_conns ?s1 p = Some ?d" "conn_up ?d" "nb_content (cn_output ?d) = nb_content (cn_output c)"
    by (simp_all add: conn_up_def)
  have "TcpConnection_shutdown True p s = Inr ?s1"
    using shutdownInLoop_ok[OF sys_inv_conns[OF inv1] d(1,2)] assms(2-4)
    by (simp add: TcpConnection_shutdown_eq runInLoop_def)
  moreover have "0 < int (length (nb_content (cn_output c)))"
    "nat (int (length (nb_content (cn_output c)))) \<le> length (nb_content (cn_output ?d))"
    using assms(4) by simp_all
  from drain_stream[OF inv1 d(1,2) this] obtain s2 where
    "conn_handleWrite (int (length (nb_content (cn_output c)))) p ?s1 = Inr s2"
    "rx_trace s2 = rx_trace s @ [SysWrite (cn_fd c) (nb_content (cn_output c)),
      SysEpollCtl CtlMod (cn_fd c) kReadEvent p, SysShutdownWrite (cn_fd c)]"
    by auto
  ultimately show ?thesis by auto
qed

theorem shutdown_after_last_byte_witness:
  "\<exists>s c s1 s2. silent_reach s \<and> cx_conns s 7 = Some c \<and> TcpConnection_shutdown True 7 s = Inr s1 \<and> conn_handleWrite 3 7 s1 = Inr s2 \<and>
    rx_trace s2 = rx_trace s @ [SysWrite (cn_fd c) [1, 2, 3], SysEpollCtl CtlMod (cn_fd c) kReadEvent 7,
      SysShutdownWrite (cn_fd c)]"
proof -
  obtain s c where s: "silent_reach s" "cx_conns s 7 = Some c" "cn_state c = CONNECTED"
    "nb_content (cn_output c) = [1, 2, 3]" using one_conn_sending by blast
  have ne: "nb_content (cn_output c) \<noteq> []" using s(4) by simp
  obtain s1 s2 where "TcpConnection_shutdown True 7 s = Inr s1" "conn_handleWrite 3 7 s1 = Inr s2"
    "rx_trace s2 = rx_trace s @ [SysWrite (cn_fd c) [1, 2, 3], SysEpollCtl CtlMod (cn_fd c) kReadEvent 7,
      SysShutdownWrite (cn_fd c)]"
    using shutdown_after_last_byte[OF s(1-3) ne] s(4) by auto
  with s(1,2) show ?thesis by blast
qed

text \<open>C26. Received bytes reach the application: in every reachable state, when \<open>readv\<close> delivers bytes on a
  connected connection and the application makes no call in return, \<open>handleRead\<close> appends them
  to the input buffer and enters the message callback once, or fails for lack of memory.\<close>

theorem message_delivered:
  assumes "reach conn_start (conn_step (application far wr onwritten (\<lambda>_ _. [])) user) s"
    and "cx_conns s p = Some c" and "cn_state c = CONNECTED" and "cn_messageCb c"
    and "data \<noteq> []" and "length data \<le> readv_capacity (cn_input c)"
  shows "ok_res (\<lambda>s'. (\<exists>b. cx_conns s' = (cx_conns s)(p \<mapsto> c\<lparr>cn_input := b\<rparr>) \<and>
        nb_content b = nb_content (cn_input c) @ data) \<and> cx_log s' = cx_log s @ [(AppMessage p now, CONNECTED)])
    (conn_handleRead (application far wr onwritten (\<lambda>_ _. [])) (ReadvData data) now p s)"
proof -
  let ?E = "application far wr onwritten (\<lambda>_ _. [])"
  let ?k = "\<lambda>(n :: int, savedErrno :: int option, b).
           let s1 = put_conn p (c\<lparr>cn_input := b\<rparr>) s in
           if n > 0 then if cn_messageCb c then notify ?E (AppMessage p now) p s1 else Inr s1
           else if n = 0 then conn_handleClose ?E p s1
           else conn_handleError p s1"
  obtain ch where "conn_ok p c ch"
    using conns_invD[OF sys_inv_conns[OF conns.reach_inv[OF assms(1)]] assms(2)] by blast
  then have buf: "nb_inv (cn_input c)" by (simp add: conn_ok_def)
  have "conn_handleRead ?E (ReadvData data) now p s = bindr (nb_readFD (ReadvData data) (cn_input c)) ?k"
    using assms(2) by (simp add: conn_handleRead_def)
  moreover have "ok_res (\<lambda>s'. (\<exists>b. cx_conns s' = (cx_conns s)(p \<mapsto> c\<lparr>cn_input := b\<rparr>) \<and>
        nb_content b = nb_content (cn_input c) @ data) \<and> cx_log s' = cx_log s @ [(AppMessage p now, CONNECTED)])
    (bindr (nb_readFD (ReadvData data) (cn_input c)) ?k)"
    by (rule ok_res_bindr[OF nb_readFD_total[OF buf assms(6)]])
      (use assms(3-5) in \<open>auto simp: notify_def application_def\<close>)
  ultimately show ?thesis by simp
qed

theorem message_delivered_witness:
  "\<exists>s. silent_reach s \<and> ok_res (\<lambda>s'. cx_log s' = [(AppConnection 7, CONNECTED), (AppMessage 7 3, CONNECTED)])
    (conn_handleRead silent (ReadvData [65, 66]) 3 7 s)"
proof -
  obtain s where s: "silent_reach s" "cx_conns s = [7 \<mapsto> up_conn]" "cx_log s = [(AppConnection 7, CONNECTED)]"
    using one_conn by blast
  have wr: "nb_writeableBytes fresh_buffer = 1024"
    using nb_sizes(2)[OF nb_inv_wf[OF fresh_buffer_ok(1)]] fresh_buffer_ok by simp
  have c: "cx_conns s 7 = Some up_conn" "cn_state up_conn = CONNECTED" "cn_messageCb up_conn" "[65, 66 :: byte] \<noteq> []"
    "length [65, 66 :: byte] \<le> readv_capacity (cn_input up_conn)"
    using s(2) wr by (simp_all add: up_conn_def readv_capacity_def extrabuf_size_def)
  show ?thesis
    using s(1) ok_res_mono[OF message_delivered[OF s(1) c, of 3]] s(3) by fastforce
qed

text \<open>C14. A connection closed by its peer is given up completely: in every reachable state with no pending
  function, for a server or client in the same loop and an application that does not react,
  \<open>handleClose\<close> and the run of the pending functions leave the connection disconnected, its
  descriptor out of epoll and the DOWN callback entered once; then nothing refers to the
  connection, and destroying it closes the descriptor.\<close>

theorem peer_close_releases:
  assumes "silent_reach s" and "cx_conns s p = Some c" and "cn_state c = CONNECTED \<or> cn_state c = DISCONNECTING"
    and "cn_closeCb c = Some CloseOwner" and "el_pending s = []"
  shows "\<exists>s1 s2 s3. conn_handleClose silent p s = Inr s1 \<and>
    doPendingFunctions (conn_exec silent (user_calls (\<lambda>_ _. []))) s1 = Inr s2 \<and>
    cx_conns s2 = (cx_conns s)(p \<mapsto> c\<lparr>cn_state := DISCONNECTED\<rparr>) \<and>
    interest (rx_trace s2) = (interest (rx_trace s))(cn_fd c := None) \<and> unreferenced p s2 \<and>
    cx_log s2 = cx_log s @ (if cn_connectionCb c then [(AppConnection p, DISCONNECTED)] else []) \<and>
    TcpConnection_delete p s2 = Inr s3 \<and> cx_conns s3 p = None \<and> rx_chans s3 p = None \<and>
    rx_trace s3 = rx_trace s2 @ [SysClose (cn_fd c)]"
proof -
  have inv: "sys_inv [] s" by (rule conns.reach_inv[OF assms(1)])
  have up: "conn_up c" using assms(3) by (simp add: conn_up_def)
  have env: "ce_close silent = owner_close False" "ce_app silent (AppConnection p) u = []" for u
    by (simp_all add: application_def)
  obtain s1 s2 where s2: "conn_handleClose silent p s = Inr s1"
    "doPendingFunctions (conn_exec silent (user_calls (\<lambda>_ _. []))) s1 = Inr s2" "sys_inv [] s2"
    "cx_conns s2 = (cx_conns s)(p \<mapsto> c\<lparr>cn_state := DISCONNECTED\<rparr>)"
    "interest (rx_trace s2) = (interest (rx_trace s))(cn_fd c := None)" "unreferenced p s2"
    "cx_log s2 = cx_log s @ (if cn_connectionCb c then [(AppConnection p, DISCONNECTED)] else [])"
    using quiet_close[OF inv assms(2) up assms(4) env assms(5), where user = "user_calls (\<lambda>_ _. [])"] by blast
  have d: "cx_conns s2 p = Some (c\<lparr>cn_state := DISCONNECTED\<rparr>)" using s2(4) by simp
  from delete_ok[OF s2(3) d s2(6)] obtain s3 where "TcpConnection_delete p s2 = Inr s3"
    "cx_conns s3 p = None" "rx_chans s3 p = None" "rx_trace s3 = rx_trace s2 @ [SysClose (cn_fd c)]" by auto
  with s2 show ?thesis by blast
qed

theorem peer_close_releases_witness:
  "\<exists>s s1 s2. silent_reach s \<and> conn_handleClose silent 7 s = Inr s1 \<and>
    doPendingFunctions (conn_exec silent (user_calls (\<lambda>_ _. []))) s1 = Inr s2 \<and> unreferenced 7 s2 \<and>
    cx_log s2 = [(AppConnection 7, CONNECTED), (AppConnection 7, DISCONNECTED)]"
proof -
  obtain s where s: "silent_reach s" "cx_conns s = [7 \<mapsto> up_conn]" "el_pending s = []"
    "cx_log s = [(AppConnection 7, CONNECTED)]" using one_conn by blast
  have c: "cx_conns s 7 = Some up_conn" "cn_state up_conn = CONNECTED \<or> cn_state up_conn = DISCONNECTING"
    "cn_closeCb up_conn = Some CloseOwner" "cn_connectionCb up_conn" using s(2) by (simp_all add: up_conn_def)
  from peer_close_releases[OF s(1) c(1-3) s(3)] s(1,4) c(4) show ?thesis by auto
qed

text \<open>The peer's hang-up closes a connection in one round of the loop.\<close>

lemma hup_round:
  assumes "silent_reach s" and "cx_conns s p = Some c" and "cn_state c = CONNECTED"
    and "cn_closeCb c = Some CloseOwner" and "el_pending s = []" and "0 < rx_eventsSize s"
  shows "\<exists>t ch. conn_step silent (\<lambda>_ _. []) s t \<and> sys_inv [] t \<and> cx_conns t = (cx_conns s)(p \<mapsto> c\<lparr>cn_state := DISCONNECTED\<rparr>) \<and>
    unreferenced p t \<and> el_pending t = [] \<and> rx_chans t p = Some ch \<and> ch_fd ch = cn_fd c \<and> ch_state ch = NEW \<and>
    cx_log t = cx_log s @ (if cn_connectionCb c then [(AppConnection p, DISCONNECTED)] else [])"
proof -
  have inv: "sys_inv [] s" by (rule conns.reach_inv[OF assms(1)])
  have up: "conn_up c" using assms(3) by (simp add: conn_up_def)
  let ?evs = "[(p, POLLHUP)]"
  have hup: "wants_close POLLHUP" "\<not> wants_read POLLHUP" "\<not> wants_write POLLHUP" "\<not> wants_error POLLHUP"
    by (simp_all add: wants_close_def wants_read_def wants_write_def wants_error_def event_consts)
  have del: "deliverable s ?evs"
    using watched_up[OF inv assms(2) up] assms(6) by (auto simp: deliverable_def)
  obtain t where t: "Epoll_select (Some ?evs) s = Inr (t, map fst ?evs)" "sys_inv [] t" "cx_conns t = cx_conns s"
    "conn_ext s t" "el_pending t = el_pending s" "\<forall>(p, e) \<in> set ?evs. returned t p = Some e" "cx_log t = cx_log s"
    by (rule select_ok[OF inv del]) (rule that, assumption+)
  have c: "cx_conns t p = Some c" using t(3) assms(2) by simp
  have env: "ce_close silent = owner_close False" "ce_app silent (AppConnection p) u = []" for u
    by (simp_all add: application_def)
  have none: "el_pending t = []" using t(5) assms(5) by simp
  obtain s1 s2 where s2: "conn_handleClose silent p t = Inr s1"
    "doPendingFunctions (conn_exec silent (user_calls (\<lambda>_ _. []))) s1 = Inr s2" "sys_inv [] s2"
    "cx_conns s2 = (cx_conns t)(p \<mapsto> c\<lparr>cn_state := DISCONNECTED\<rparr>)" "unreferenced p s2"
    "el_pending s2 = []" "cx_log s2 = cx_log t @ (if cn_connectionCb c then [(AppConnection p, DISCONNECTED)] else [])"
    using quiet_close[OF t(2) c up assms(4) env none, where user = "user_calls (\<lambda>_ _. [])"] by blast
  obtain ch where ch: "rx_chans t p = Some ch" "conn_ok p c ch" using conns_invD[OF sys_inv_conns[OF t(2)] c] by blast
  have "ch_returned ch = POLLHUP" using t(6) ch(1) by (simp add: returned_def)
  then have "Channel_handleEvents (conn_callback silent (\<lambda>_ _. ReadvError 0) (\<lambda>_ _. 0) 1) p t = Inr s1"
    using ch s2(1) hup by (simp add: Channel_handleEvents_def handle_if_def conn_ok_def conn_callback_def)
  then have "loop_round (conn_callback silent (\<lambda>_ _. ReadvError 0) (\<lambda>_ _. 0)) (conn_exec silent (user_calls (\<lambda>_ _. [])))
      (Some ?evs, 1) s = Inr s2"
    using t(1) s2(2) by (simp add: loop_round_def)
  then have step: "conn_step silent (\<lambda>_ _. []) s s2"
    using del assms(2) hup
    by (intro conn_step.intros[of s "CoRound ?evs 1 (\<lambda>_ _. ReadvError 0) (\<lambda>_ _. 0)"])
      (simp_all add: run_conn_op_def io_ok_def)
  have d: "cx_conns s2 p = Some (c\<lparr>cn_state := DISCONNECTED\<rparr>)" using s2(4) by simp
  obtain dh where dh: "rx_chans s2 p = Some dh" "conn_ok p (c\<lparr>cn_state := DISCONNECTED\<rparr>) dh"
    using conns_invD[OF sys_inv_conns[OF s2(3)] d] by blast
  have l: "life (el_pending s2) (cx_refs s2) (conn_view s2)" using s2(3) by (simp add: sys_inv_def)
  have "conn_view s2 p = Some (DISCONNECTED, ch_state dh \<noteq> NEW)" using view_at[OF d] dh(1) by simp
  from life_free(2)[OF l this] s2(5) have "ch_state dh = NEW" by (simp add: unreferenced_def)
  with step s2 dh t(3,7) show ?thesis by (intro exI[of _ s2] exI[of _ dh]) (simp add: conn_ok_def)
qed

text \<open>C28. A send from another thread can outlive its connection: after \<open>send\<close> has found the connection
  connected, its peer closes it and the loop lets go of it; \<open>send\<close> then queues \<open>sendInLoop\<close> bound
  to the bare \<open>this\<close>, which keeps nothing alive: when the sender gives up its own pointer the
  connection is destroyed, and the queued function dereferences a destroyed object.\<close>

theorem late_send_dangles:
  assumes "silent_reach s" and "cx_conns s p = Some c" and "cn_state c = CONNECTED"
    and "cn_closeCb c = Some CloseOwner" and "el_pending s = []" and "0 < rx_eventsSize s"
  shows "is_connected p s = Inr True \<and>
    (\<exists>s1 s2 s3. conn_step silent (\<lambda>_ _. []) s s1 \<and> unreferenced p s1 \<and>
      send_post silent False p data s1 = Inr s2 \<and> unreferenced p s2 \<and> TcpConnection_delete p s2 = Inr s3 \<and>
      doPendingFunctions (conn_exec silent (user_calls (\<lambda>_ _. []))) s3 = Inl DanglingPointer)"
proof -
  obtain t ch where t: "conn_step silent (\<lambda>_ _. []) s t" "cx_conns t = (cx_conns s)(p \<mapsto> c\<lparr>cn_state := DISCONNECTED\<rparr>)"
    "unreferenced p t" "el_pending t = []" using hup_round[OF assms] by blast
  let ?u = "queueInLoop False (FnSend p data) t"
  have u: "send_post silent False p data t = Inr ?u" by (simp add: send_post_def runInLoop_def)
  have free: "unreferenced p ?u" using t(3,4) by (simp add: unreferenced_def)
  obtain v where v: "TcpConnection_delete p ?u = Inr v" "cx_conns v p = None" "el_pending v = [FnSend p data]"
    using t(2,4) by (simp add: TcpConnection_delete_def Channel_destroy_def)
  have "doPendingFunctions (conn_exec silent (user_calls (\<lambda>_ _. []))) v = Inl DanglingPointer"
    using v(2,3) by (simp add: doPending_eq conn_exec_def TcpConnection_sendInLoop_def)
  moreover have "is_connected p s = Inr True" using assms(2,3) by (simp add: is_connected_def)
  ultimately show ?thesis using t(1,3) u free v(1) by blast
qed

theorem late_send_dangles_witness:
  "\<exists>s s1 s2 s3. silent_reach s \<and> is_connected 7 s = Inr True \<and> conn_step silent (\<lambda>_ _. []) s s1 \<and>
    send_post silent False 7 [1] s1 = Inr s2 \<and> unreferenced 7 s2 \<and> TcpConnection_delete 7 s2 = Inr s3 \<and>
    doPendingFunctions (conn_exec silent (user_calls (\<lambda>_ _. []))) s3 = Inl DanglingPointer"
proof -
  obtain s where s: "silent_reach s" "cx_conns s = [7 \<mapsto> up_conn]" "el_pending s = []" "rx_eventsSize s = 16"
    using one_conn by blast
  have c: "cx_conns s 7 = Some up_conn" "cn_state up_conn = CONNECTED" "cn_closeCb up_conn = Some CloseOwner"
    "0 < rx_eventsSize s" using s(2,4) by (simp_all add: up_conn_def)
  from late_send_dangles[OF s(1) c(1-3) s(3) c(4)] s(1) show ?thesis by blast
qed

text \<open>C29. A forced close from another thread that races with the peer's close closes the connection twice:
  after \<open>forceClose\<close> has found the connection open, its peer closes it and the loop unregisters it
  and lets go of it; \<open>forceClose\<close> then writes \<open>DISCONNECTING\<close> over \<open>DISCONNECTED\<close> and queues
  \<open>forceCloseInLoop\<close>, which runs \<open>handleClose\<close> again: the DOWN callback is entered a second time,
  the descriptor of the closed connection is registered with epoll again, for no events, and
  \<open>connectionDestory\<close> is queued a second time.\<close>

theorem racing_force_close_closes_twice:
  assumes "silent_reach s" and "cx_conns s p = Some c" and "cn_state c = CONNECTED"
    and "cn_closeCb c = Some CloseOwner" and "el_pending s = []" and "0 < rx_eventsSize s" and "cn_connectionCb c"
  shows "is_closable p s = Inr True \<and>
    (\<exists>s1 s2 s3 s4. conn_step silent (\<lambda>_ _. []) s s1 \<and> setSocketState p DISCONNECTING s1 = Inr s2 \<and>
      forceClose_post False p s2 = Inr s3 \<and>
      doPendingFunctions (conn_exec silent (user_calls (\<lambda>_ _. []))) s3 = Inr s4 \<and>
      cx_log s4 = cx_log s @ [(AppConnection p, DISCONNECTED), (AppConnection p, DISCONNECTED)] \<and>
      interest (rx_trace s4) (cn_fd c) = Some (kNoneEvent, p) \<and> el_pending s4 = [FnDestroy p])"
proof -
  obtain t ch where t: "conn_step silent (\<lambda>_ _. []) s t" "sys_inv [] t"
    "cx_conns t = (cx_conns s)(p \<mapsto> c\<lparr>cn_state := DISCONNECTED\<rparr>)" "el_pending t = []"
    "rx_chans t p = Some ch" "ch_fd ch = cn_fd c" "ch_state ch = NEW"
    "cx_log t = cx_log s @ [(AppConnection p, DISCONNECTED)]" using hup_round[OF assms(1-6)] assms(7) by auto
  let ?d = "c\<lparr>cn_state := DISCONNECTED\<rparr>"
  let ?u = "put_conn p (?d\<lparr>cn_state := DISCONNECTING\<rparr>) t"
  let ?v = "queueInLoop False (FnForceClose p) ?u"
  let ?a = "put_conn p ?d (?v\<lparr>el_calling := True, el_pending := []\<rparr>)"
  let ?b = "request_result p ch 0 ?a"
  let ?l = "?b\<lparr>cx_log := cx_log ?b @ [(AppConnection p, DISCONNECTED)]\<rparr>"
  let ?w = "queueInLoop True (FnDestroy p) (?l\<lparr>cx_refs := cx_refs ?l - {p}\<rparr>)"
  have u: "setSocketState p DISCONNECTING t = Inr ?u" "forceClose_post False p ?u = Inr ?v"
    using t(3) by (simp_all add: setSocketState_def forceClose_post_def)
  have "rx_inv ?v" using t(2) by simp
  then have rx: "rx_inv ?a" by (rule rx_inv_cong) simp_all
  have chan: "rx_chans ?a p = Some ch" using t(5) by simp
  note law = rx_request_law[OF rx chan]
  have dis: "disableAll p ?a = Inr ?b" using law(1) by (simp add: disableAll_def kNoneEvent_def)
  have cb: "connectionCallback silent p ?b = Inr ?l"
    using assms(7) by (simp add: connectionCallback_def notify_def application_def)
  have run: "conn_handleClose silent p (?v\<lparr>el_calling := True, el_pending := []\<rparr>) = Inr ?w"
    using dis cb assms(4)
    by (simp add: conn_handleClose_def setSocketState_def application_def owner_close_def owner_erase_def)
  then have "doPendingFunctions (conn_exec silent (user_calls (\<lambda>_ _. []))) ?v = Inr (?w\<lparr>el_calling := False\<rparr>)"
    using t(4) by (simp add: doPending_eq conn_exec_def forceCloseInLoop_def)
  moreover have "cx_log (?w\<lparr>el_calling := False\<rparr>) = cx_log s @ [(AppConnection p, DISCONNECTED), (AppConnection p, DISCONNECTED)]"
    using t(8) by simp
  moreover have "interest (rx_trace (?w\<lparr>el_calling := False\<rparr>)) (cn_fd c) = Some (kNoneEvent, p)"
    using law(3)[of 0] t(6,7) by (simp add: kNoneEvent_def)
  moreover have "is_closable p s = Inr True" using assms(2,3) by (simp add: is_closable_def)
  ultimately show ?thesis using t(1) u by (intro conjI exI[of _ t] exI[of _ ?u] exI[of _ ?v] exI[of _ "?w\<lparr>el_calling := False\<rparr>"]) simp_all
qed

theorem racing_force_close_closes_twice_witness:
  "\<exists>s s1 s2 s3 s4. silent_reach s \<and> is_closable 7 s = Inr True \<and> conn_step silent (\<lambda>_ _. []) s s1 \<and>
    setSocketState 7 DISCONNECTING s1 = Inr s2 \<and> forceClose_post False 7 s2 = Inr s3 \<and>
    doPendingFunctions (conn_exec silent (user_calls (\<lambda>_ _. []))) s3 = Inr s4 \<and>
    cx_log s4 = [(AppConnection 7, CONNECTED), (AppConnection 7, DISCONNECTED), (AppConnection 7, DISCONNECTED)]"
proof -
  obtain s where s: "silent_reach s" "cx_conns s = [7 \<mapsto> up_conn]" "el_pending s = []" "rx_eventsSize s = 16"
    "cx_log s = [(AppConnection 7, CONNECTED)]" using one_conn by blast
  have c: "cx_conns s 7 = Some up_conn" "cn_state up_conn = CONNECTED" "cn_closeCb up_conn = Some CloseOwner"
    "0 < rx_eventsSize s" "cn_connectionCb up_conn" using s(2,4) by (simp_all add: up_conn_def)
  obtain s1 s2 s3 s4 where "is_closable 7 s = Inr True" "conn_step silent (\<lambda>_ _. []) s s1"
    "setSocketState 7 DISCONNECTING s1 = Inr s2" "forceClose_post False 7 s2 = Inr s3"
    "doPendingFunctions (conn_exec silent (user_calls (\<lambda>_ _. []))) s3 = Inr s4"
    "cx_log s4 = cx_log s @ [(AppConnection 7, DISCONNECTED), (AppConnection 7, DISCONNECTED)]"
    using racing_force_close_closes_twice[OF s(1) c(1-3) s(3) c(4,5)] by blast
  with s(1,5) show ?thesis
    by (intro exI[of _ s] exI[of _ s1] exI[of _ s2] exI[of _ s3] exI[of _ s4]) simp
qed

end
