(* ===== verification/Logging.thy ===== *)
theory Logging
  imports Buffers Times "HOL-Library.Char_ord" "HOL-Library.List_Lexorder"
begin

text \<open>
  \<open>src/stnl/logger.h\<close> and \<open>logger.cpp\<close>: log records, the handlers of a \<open>Logger\<close>, log files
  with their rolling, and the double buffering of \<open>AsyncLogging\<close>. The clock, the date of a
  day (\<open>strftime\<close> of \<open>gmtime_r\<close>), \<open>fopen\<close> and \<open>fwrite_unlocked\<close> are arguments.
\<close>

section \<open>Levels and records\<close>

datatype log_level = TRACE | DEBUG | INFO | WARN | ERROR | FATAL | NUM_LOG_LEVELS

definition level_num :: "log_level \<Rightarrow> nat" where
  "level_num l = (case l of TRACE \<Rightarrow> 0 | DEBUG \<Rightarrow> 1 | INFO \<Rightarrow> 2 | WARN \<Rightarrow> 3 | ERROR \<Rightarrow> 4 | FATAL \<Rightarrow> 5
     | NUM_LOG_LEVELS \<Rightarrow> 6)"

instantiation log_level :: linorder
begin

definition less_eq_log_level :: "log_level \<Rightarrow> log_level \<Rightarrow> bool" where
  "less_eq_log_level a b \<longleftrightarrow> level_num a \<le> level_num b"

definition less_log_level :: "log_level \<Rightarrow> log_level \<Rightarrow> bool" where
  "less_log_level a b \<longleftrightarrow> level_num a < level_num b"

instance
  by standard (auto simp: less_eq_log_level_def less_log_level_def level_num_def split: log_level.splits)

end

text \<open>The table of names has no entry for \<open>NUM_LOG_LEVELS\<close>.\<close>

definition LogLevelName :: "log_level \<Rightarrow> string result" where
  "LogLevelName l = (case l of TRACE \<Rightarrow> Inr ''TRACE'' | DEBUG \<Rightarrow> Inr ''DEBUG'' | INFO \<Rightarrow> Inr ''INFO'' | WARN \<Rightarrow> Inr ''WARN''
     | ERROR \<Rightarrow> Inr ''ERROR'' | FATAL \<Rightarrow> Inr ''FATAL'' | NUM_LOG_LEVELS \<Rightarrow> Inl OutOfBounds)"

record log_ctx =
  lc_level :: log_level
  lc_text :: "byte list"

definition bytes :: "string \<Rightarrow> byte list" where
  "bytes s = map of_char s"

text \<open>\<open>ymd\<close> gives the date of a day, counted from the epoch, as eight digits.\<close>

definition formatTime :: "(int \<Rightarrow> string) \<Rightarrow> int \<Rightarrow> string" where
  "formatTime ymd t =
     ymd (t div 86400) @ '' '' @ pad0 2 (dec (nat (t mod 86400 div 3600))) @ '':'' @
     pad0 2 (dec (nat (t mod 3600 div 60))) @ '':'' @ pad0 2 (dec (nat (t mod 60)))"

text \<open>\<open>strrchr\<close>: the part behind the last slash, if there is one.\<close>

definition after_slash :: "string \<Rightarrow> string option" where
  "after_slash f = (if CHR ''/'' \<in> set f then Some (rev (takeWhile (\<lambda>c. c \<noteq> CHR ''/'') (rev f))) else None)"

definition LogContext_new :: "(int \<Rightarrow> string) \<Rightarrow> int \<Rightarrow> nat \<Rightarrow> string \<Rightarrow> string \<Rightarrow> int \<Rightarrow> log_level \<Rightarrow> log_ctx result" where
  "LogContext_new ymd sec usec sourceFilename funcname line level =
     bindr (LogLevelName level)
      (\<lambda>name. Inr \<lparr>lc_level = level,
        lc_text = bytes (formatTime ymd sec @ '' '' @ pad0 6 (dec usec) @ '' '' @ name @ '' '' @
          (case after_slash sourceFilename of None \<Rightarrow> '''' | Some f \<Rightarrow> f @ '' '') @
          funcname @ '' '' @ dec_int line @ '' | '')\<rparr>)"

text \<open>The stream operators of a record append its message, its destructor the line end.\<close>

definition LogRecorder_finish :: "byte list \<Rightarrow> log_ctx \<Rightarrow> log_ctx" where
  "LogRecorder_finish message c = c\<lparr>lc_text := lc_text c @ message @ bytes [CHR 0x0A]\<rparr>"

section \<open>Log files\<close>

text \<open>
  What reaches the disk is kept as the sequence of flushed chunks, each with the name of its
  file; the stream of an open file holds the bytes \<open>fwrite\<close> has accepted since (the C
  library may write them out earlier, in the same order).
\<close>

type_synonym disk = "(string \<times> byte list) list"

record logfile =
  lf_name :: string
  lf_stream :: "byte list"
  lf_writtenBytes :: int

definition LogFile_new :: "(string \<Rightarrow> bool) \<Rightarrow> string \<Rightarrow> logfile result" where
  "LogFile_new fopen_ok filename =
     assert_c (fopen_ok filename) (Inr \<lparr>lf_name = filename, lf_stream = [], lf_writtenBytes = 0\<rparr>)"

definition LogFile_close :: "logfile \<Rightarrow> disk \<Rightarrow> disk" where
  "LogFile_close f d = d @ [(lf_name f, lf_stream f)]"

definition LogFile_flush :: "logfile \<Rightarrow> disk \<Rightarrow> logfile \<times> disk" where
  "LogFile_flush f d = (f\<lparr>lf_stream := []\<rparr>, d @ [(lf_name f, lf_stream f)])"

text \<open>
  \<open>fw remain\<close> is what \<open>fwrite_unlocked\<close> returns for \<open>remain\<close> bytes and whether \<open>ferror\<close> is
  set then. The loop of \<open>append\<close> does not count the bytes of a failed call, and would not
  end if a call wrote nothing without an error.
\<close>

partial_function (option) fwrite_loop ::
  "(nat \<Rightarrow> nat \<times> bool) \<Rightarrow> byte list \<Rightarrow> nat \<Rightarrow> byte list \<Rightarrow> (nat \<times> byte list) option" where
  "fwrite_loop fw msg written stream =
     (if written = length msg then Some (written, stream)
      else let remain = length msg - written;
               (n, err) = fw remain;
               stream' = stream @ take n (drop written msg)
           in if n \<noteq> remain \<and> err then Some (written, stream')
              else fwrite_loop fw msg (written + n) stream')"

definition LogFile_append :: "(nat \<Rightarrow> nat \<times> bool) \<Rightarrow> byte list \<Rightarrow> logfile \<Rightarrow> logfile option" where
  "LogFile_append fw msg f =
     map_option (\<lambda>(written, stream). f\<lparr>lf_stream := stream, lf_writtenBytes := lf_writtenBytes f + int written\<rparr>)
      (fwrite_loop fw msg 0 (lf_stream f))"

text \<open>The overload for a record has the same loop over a copy of its text.\<close>

definition LogFile_append_view :: "(nat \<Rightarrow> nat \<times> bool) \<Rightarrow> log_ctx \<Rightarrow> logfile \<Rightarrow> logfile option" where
  "LogFile_append_view fw c f =
     (let logMessage = lc_text c in
      map_option (\<lambda>(written, stream). f\<lparr>lf_stream := stream, lf_writtenBytes := lf_writtenBytes f + int written\<rparr>)
       (fwrite_loop fw logMessage 0 (lf_stream f)))"

section \<open>FileHandler\<close>

record filehandler =
  fh_level :: log_level
  fh_flushInterval :: int
  fh_flushEveryNLine :: int
  fh_fileRollSize :: int
  fh_lineCount :: int
  fh_lastRollTime :: int
  fh_lastFlushTime :: int
  fh_lastRollPeriod :: int
  fh_file :: "logfile option"

record log_env =
  le_ymd :: "int \<Rightarrow> string"
  le_fopen_ok :: "string \<Rightarrow> bool"
  le_fwrite :: "nat \<Rightarrow> nat \<times> bool"

definition rollPeriodPerSeconds :: int where
  "rollPeriodPerSeconds = 60 * 60 * 24"

text \<open>The format is \<open>%Y%m%d-%H%M%H\<close>: the hour stands where the seconds were meant.\<close>

definition getFilename :: "(int \<Rightarrow> string) \<Rightarrow> int \<Rightarrow> string" where
  "getFilename ymd now =
     ymd (now div 86400) @ ''-'' @ pad0 2 (dec (nat (now mod 86400 div 3600))) @
     pad0 2 (dec (nat (now mod 3600 div 60))) @ pad0 2 (dec (nat (now mod 86400 div 3600))) @ ''.log''"

definition rollFile :: "log_env \<Rightarrow> int \<Rightarrow> filehandler \<times> disk \<Rightarrow> (bool \<times> filehandler \<times> disk) result" where
  "rollFile env now st =
     (case st of (h, d) \<Rightarrow>
      let filename = getFilename (le_ymd env) now;
          newPeriod = now sdiv rollPeriodPerSeconds * rollPeriodPerSeconds
      in if now > fh_lastRollTime h
         then bindr (LogFile_new (le_fopen_ok env) filename)
               (\<lambda>f. Inr (True, h\<lparr>fh_lastRollTime := now, fh_lastFlushTime := now, fh_lastRollPeriod := newPeriod,
                              fh_file := Some f\<rparr>,
                         (case fh_file h of None \<Rightarrow> d | Some old \<Rightarrow> LogFile_close old d)))
         else Inr (False, h, d))"

definition FileHandler_new :: "log_env \<Rightarrow> int \<Rightarrow> log_level \<Rightarrow> int \<Rightarrow> int \<Rightarrow> int \<Rightarrow> disk \<Rightarrow>
    (filehandler \<times> disk) result" where
  "FileHandler_new env now level flushInterval flushEveryNLine fileRollSize d =
     bindr (rollFile env now
       (\<lparr>fh_level = level, fh_flushInterval = flushInterval, fh_flushEveryNLine = flushEveryNLine,
         fh_fileRollSize = fileRollSize, fh_lineCount = 0, fh_lastRollTime = 0, fh_lastFlushTime = 0,
         fh_lastRollPeriod = 0, fh_file = None\<rparr>, d))
      (\<lambda>(_, r). Inr r)"

definition FileHandler_flush :: "filehandler \<times> disk \<Rightarrow> (filehandler \<times> disk) result" where
  "FileHandler_flush st =
     (case st of (h, d) \<Rightarrow>
      case fh_file h of
        None \<Rightarrow> Inl DanglingPointer
      | Some f \<Rightarrow> (case LogFile_flush f d of (f', d') \<Rightarrow> Inr (h\<lparr>fh_file := Some f'\<rparr>, d')))"

text \<open>
  The private \<open>append()\<close>, which follows every write: \<open>now\<close> is the first reading of the clock,
  \<open>now2\<close> the second one, made by \<open>rollFile\<close> at the end of a period.
\<close>

definition FileHandler_tail :: "log_env \<Rightarrow> int \<Rightarrow> int \<Rightarrow> filehandler \<times> disk \<Rightarrow> (filehandler \<times> disk) result" where
  "FileHandler_tail env now now2 st =
     (case st of (h, d) \<Rightarrow>
      case fh_file h of
        None \<Rightarrow> Inl DanglingPointer
      | Some f \<Rightarrow>
          if lf_writtenBytes f \<ge> fh_fileRollSize h then bindr (rollFile env now (h, d)) (\<lambda>(_, r). Inr r)
          else let h1 = h\<lparr>fh_lineCount := fh_lineCount h + 1\<rparr> in
               if fh_lineCount h1 \<ge> fh_flushEveryNLine h1
               then let h2 = h1\<lparr>fh_lineCount := 0\<rparr>;
                        thisPeriod = now sdiv rollPeriodPerSeconds * rollPeriodPerSeconds
                    in if thisPeriod \<noteq> fh_lastRollPeriod h2
                       then bindr (rollFile env now2 (h2, d)) (\<lambda>(_, r). Inr r)
                       else if now - fh_lastFlushTime h2 > fh_flushInterval h2
                       then FileHandler_flush (h2\<lparr>fh_lastFlushTime := now\<rparr>, d)
                       else Inr (h2, d)
               else Inr (h1, d))"

text \<open>\<open>None\<close>: the loop of \<open>LogFile::append\<close> does not return.\<close>

definition FileHandler_append :: "log_env \<Rightarrow> int \<Rightarrow> int \<Rightarrow> byte list \<Rightarrow> filehandler \<times> disk \<Rightarrow>
    (filehandler \<times> disk) result option" where
  "FileHandler_append env now now2 data st =
     (case st of (h, d) \<Rightarrow>
      case fh_file h of
        None \<Rightarrow> Some (Inl DanglingPointer)
      | Some f \<Rightarrow> (case LogFile_append (le_fwrite env) data f of
            None \<Rightarrow> None
          | Some f' \<Rightarrow> Some (FileHandler_tail env now now2 (h\<lparr>fh_file := Some f'\<rparr>, d))))"

definition FileHandler_append_view :: "log_env \<Rightarrow> int \<Rightarrow> int \<Rightarrow> log_ctx \<Rightarrow> filehandler \<times> disk \<Rightarrow>
    (filehandler \<times> disk) result option" where
  "FileHandler_append_view env now now2 c st =
     (case st of (h, d) \<Rightarrow>
      case fh_file h of
        None \<Rightarrow> Some (Inl DanglingPointer)
      | Some f \<Rightarrow> (case LogFile_append_view (le_fwrite env) c f of
            None \<Rightarrow> None
          | Some f' \<Rightarrow> Some (FileHandler_tail env now now2 (h\<lparr>fh_file := Some f'\<rparr>, d))))"

lemma LogFile_append_view_eq: "LogFile_append_view fw c = LogFile_append fw (lc_text c)"
  by (simp add: LogFile_append_view_def LogFile_append_def fun_eq_iff)

lemma append_view [simp]:
  "FileHandler_append_view env now now2 c st = FileHandler_append env now now2 (lc_text c) st"
  unfolding LogFile_append_view_eq FileHandler_append_view_def FileHandler_append_def by (rule refl)

text \<open>
  \<open>write\<close>: the flag says that the process has been aborted, after the flush.
\<close>

definition FileHandler_write :: "log_env \<Rightarrow> int \<Rightarrow> int \<Rightarrow> log_ctx \<Rightarrow> filehandler \<times> disk \<Rightarrow>
    (bool \<times> filehandler \<times> disk) result option" where
  "FileHandler_write env now now2 c st =
     (if lc_level c < fh_level (fst st) then Some (Inr (False, st))
      else map_option (\<lambda>r. bindr r (\<lambda>s1.
              if lc_level c = FATAL then bindr (FileHandler_flush s1) (\<lambda>s2. Inr (True, s2))
              else Inr (False, s1)))
            (FileHandler_append_view env now now2 c st))"

section \<open>Logger\<close>

datatype log_handler = Console log_level | ToFile filehandler

record log_world =
  lw_stdout :: "byte list"
  lw_disk :: disk

definition ConsoleHandler_write :: "log_level \<Rightarrow> log_ctx \<Rightarrow> log_world \<Rightarrow> bool \<times> log_world" where
  "ConsoleHandler_write level c w =
     (if lc_level c < level then (False, w)
      else (lc_level c = FATAL, w\<lparr>lw_stdout := lw_stdout w @ lc_text c\<rparr>))"

definition handler_level :: "log_handler \<Rightarrow> log_level" where
  "handler_level h = (case h of Console l \<Rightarrow> l | ToFile f \<Rightarrow> fh_level f)"

definition setLogLevel :: "log_level \<Rightarrow> log_handler \<Rightarrow> log_handler" where
  "setLogLevel l h = (case h of Console _ \<Rightarrow> Console l | ToFile f \<Rightarrow> ToFile (f\<lparr>fh_level := l\<rparr>))"

definition handler_write :: "log_env \<Rightarrow> int \<Rightarrow> int \<Rightarrow> log_ctx \<Rightarrow> log_handler \<Rightarrow> log_world \<Rightarrow>
    (bool \<times> log_handler \<times> log_world) result option" where
  "handler_write env now now2 c h w =
     (case h of
        Console l \<Rightarrow> (case ConsoleHandler_write l c w of (stop, w') \<Rightarrow> Some (Inr (stop, h, w')))
      | ToFile f \<Rightarrow> map_option (\<lambda>r. bindr r (\<lambda>(stop, f', d). Inr (stop, ToFile f', w\<lparr>lw_disk := d\<rparr>)))
                     (FileHandler_write env now now2 c (f, lw_disk w)))"

text \<open>The handlers of a \<open>Logger\<close> are a \<open>std::map\<close>: an association list in the order of the names.\<close>

type_synonym handlers = "(string \<times> log_handler) list"

fun addHandler :: "string \<Rightarrow> log_handler \<Rightarrow> handlers \<Rightarrow> handlers" where
  "addHandler name h [] = [(name, h)]"
| "addHandler name h ((n, g) # hs) =
     (if name < n then (name, h) # (n, g) # hs
      else if name = n then (n, g) # hs
      else (n, g) # addHandler name h hs)"

fun delHandler :: "string \<Rightarrow> handlers \<Rightarrow> handlers" where
  "delHandler name [] = []"
| "delHandler name ((n, g) # hs) = (if name = n then hs else (n, g) # delHandler name hs)"

fun write_all :: "log_env \<Rightarrow> int \<Rightarrow> int \<Rightarrow> log_ctx \<Rightarrow> handlers \<Rightarrow> log_world \<Rightarrow>
    (bool \<times> handlers \<times> log_world) result option" where
  "write_all env now now2 c [] w = Some (Inr (False, [], w))"
| "write_all env now now2 c ((n, h) # hs) w =
     (case handler_write env now now2 c h w of
        None \<Rightarrow> None
      | Some (Inl e) \<Rightarrow> Some (Inl e)
      | Some (Inr (stop, h', w')) \<Rightarrow>
          if stop then Some (Inr (True, (n, h') # hs, w'))
          else map_option (\<lambda>r. bindr r (\<lambda>(stop', hs', w''). Inr (stop', (n, h') # hs', w'')))
                (write_all env now now2 c hs w'))"

definition handlerWrite :: "log_env \<Rightarrow> int \<Rightarrow> int \<Rightarrow> log_ctx \<Rightarrow> handlers \<Rightarrow> log_world \<Rightarrow>
    (bool \<times> handlers \<times> log_world) result option" where
  "handlerWrite env now now2 c hs w =
     write_all env now now2 c (if hs = [] then addHandler ''DefaultConsoleHandler'' (Console INFO) hs else hs) w"

section \<open>AsyncLogging\<close>

definition AsyncBufferSize :: nat where
  "AsyncBufferSize = 4000000"

text \<open>
  The front end owns the current, the next and the full buffers, all under one mutex; the
  thread that runs \<open>run()\<close> owns two spare buffers, the buffers it writes and the file
  handler. \<open>as_pc\<close> is the place of that thread: before the first test of \<open>running_\<close>, before the
  swap, before the writing, or returned. \<open>as_sent\<close> and \<open>as_dropped\<close> record the messages handed in and whether the thread
  has discarded buffers; the code has no such fields.
\<close>

datatype async_pc = BeforeTest | BeforeSwap | BeforeWrite | Returned

record async_log =
  as_running :: bool
  as_current :: fixedbuffer
  as_next :: "fixedbuffer option"
  as_buffers :: "fixedbuffer list"
  as_new1 :: "fixedbuffer option"
  as_new2 :: "fixedbuffer option"
  as_toWrite :: "fixedbuffer list"
  as_output :: "filehandler \<times> disk"
  as_pc :: async_pc
  as_sent :: "byte list list"
  as_dropped :: bool

text \<open>\<open>mem\<close>: the bytes found in fresh memory.\<close>

definition AsyncLogging_append :: "(nat \<Rightarrow> byte) \<Rightarrow> byte list \<Rightarrow> async_log \<Rightarrow> async_log" where
  "AsyncLogging_append mem message a0 =
     (let a = a0\<lparr>as_sent := as_sent a0 @ [message]\<rparr> in
      if sz_of_int (fb_remainingCapacity (as_current a)) > length message
      then a\<lparr>as_current := fb_append message (as_current a)\<rparr>
      else let a1 = a\<lparr>as_buffers := as_buffers a @ [as_current a]\<rparr>;
               a2 = (case as_next a1 of
                       Some b \<Rightarrow> a1\<lparr>as_current := b, as_next := None\<rparr>
                     | None \<Rightarrow> a1\<lparr>as_current := FixedBuffer_new AsyncBufferSize mem\<rparr>)
           in a2\<lparr>as_current := fb_append message (as_current a2)\<rparr>)"

text \<open>\<open>start()\<close> and the beginning of \<open>run()\<close>, which creates the file handler.\<close>

definition AsyncLogging_new :: "(nat \<Rightarrow> byte) \<Rightarrow> filehandler \<times> disk \<Rightarrow> async_log" where
  "AsyncLogging_new mem output =
     \<lparr>as_running = False, as_current = fb_clear (FixedBuffer_new AsyncBufferSize mem),
      as_next = Some (fb_clear (FixedBuffer_new AsyncBufferSize mem)), as_buffers = [],
      as_new1 = None, as_new2 = None, as_toWrite = [], as_output = output, as_pc = Returned,
      as_sent = [], as_dropped = False\<rparr>"

definition AsyncLogging_start :: "(nat \<Rightarrow> byte) \<Rightarrow> async_log \<Rightarrow> async_log result" where
  "AsyncLogging_start mem a =
     assert_c (\<not> as_running a)
      (let a1 = a\<lparr>as_running := True\<rparr> in
       assert_c (as_running a1)
        (Inr (a1\<lparr>as_new1 := Some (fb_clear (fb_clear (FixedBuffer_new AsyncBufferSize mem))),
                 as_new2 := Some (FixedBuffer_new AsyncBufferSize mem), as_toWrite := [], as_pc := BeforeTest\<rparr>)))"

text \<open>The first test of \<open>running_\<close> in \<open>run()\<close>; the later ones are the end of a round.\<close>

definition async_enter :: "async_log \<Rightarrow> async_log result" where
  "async_enter a =
     (if as_running a then Inr (a\<lparr>as_pc := BeforeSwap\<rparr>)
      else bindr (FileHandler_flush (as_output a)) (\<lambda>out. Inr (a\<lparr>as_output := out, as_pc := Returned\<rparr>)))"

definition AsyncLogging_stop :: "async_log \<Rightarrow> async_log" where
  "AsyncLogging_stop a = a\<lparr>as_running := False\<rparr>"

definition spare :: "fixedbuffer option \<Rightarrow> bool" where
  "spare b = (case b of None \<Rightarrow> False | Some x \<Rightarrow> fb_size x = 0)"

definition async_swap :: "async_log \<Rightarrow> async_log result" where
  "async_swap a =
     assert_c (spare (as_new1 a)) (assert_c (spare (as_new2 a)) (assert_c (as_toWrite a = [])
      (let full = as_buffers a @ [as_current a];
           a1 = a\<lparr>as_current := the (as_new1 a), as_new1 := None, as_buffers := [], as_toWrite := full\<rparr>;
           a2 = (if as_next a1 = None then a1\<lparr>as_next := as_new2 a1, as_new2 := None\<rparr> else a1)
       in assert_c (as_toWrite a2 \<noteq> []) (Inr (a2\<lparr>as_pc := BeforeWrite\<rparr>)))))"

fun write_buffers :: "log_env \<Rightarrow> (int \<times> int) list \<Rightarrow> fixedbuffer list \<Rightarrow> filehandler \<times> disk \<Rightarrow>
    (filehandler \<times> disk) result option" where
  "write_buffers env clk [] out = Some (Inr out)"
| "write_buffers env clk (b # bs) out =
     (let (now, now2) = (if clk = [] then (0, 0) else List.hd clk) in
      case FileHandler_append env now now2 (fb_content b) out of
        None \<Rightarrow> None
      | Some (Inl e) \<Rightarrow> Some (Inl e)
      | Some (Inr out') \<Rightarrow> write_buffers env (tl clk) bs out')"

definition refill :: "fixedbuffer option \<Rightarrow> fixedbuffer list \<Rightarrow> (fixedbuffer option \<times> fixedbuffer list) result" where
  "refill b bs =
     (if b = None then assert_c (bs \<noteq> []) (Inr (Some (fb_reset (last bs)), butlast bs)) else Inr (b, bs))"

text \<open>
  The rest of a round: discarding, writing, refilling the spare buffers and flushing. The
  message about discarded buffers is \<open>warning\<close>; \<open>tm\<close> and \<open>clk\<close> are the readings of the clock.
\<close>

definition async_finish :: "bool \<Rightarrow> fixedbuffer list \<Rightarrow> async_log \<Rightarrow> filehandler \<times> disk \<Rightarrow> async_log result" where
  "async_finish discard bs a out =
     bindr (refill (as_new1 a) bs) (\<lambda>(n1, bs1).
      bindr (refill (as_new2 a) bs1) (\<lambda>(n2, bs2).
       bindr (FileHandler_flush out) (\<lambda>out1.
        bindr (if as_running a then Inr out1 else FileHandler_flush out1) (\<lambda>out2.
         Inr (a\<lparr>as_toWrite := [], as_new1 := n1, as_new2 := n2, as_output := out2,
                as_pc := (if as_running a then BeforeSwap else Returned),
                as_dropped := (as_dropped a \<or> discard)\<rparr>)))))"

definition async_write :: "log_env \<Rightarrow> byte list \<Rightarrow> int \<times> int \<Rightarrow> (int \<times> int) list \<Rightarrow> async_log \<Rightarrow>
    async_log result option" where
  "async_write env warning tm clk a =
     (let discard = length (as_toWrite a) > 25;
          bs = (if discard then take 2 (as_toWrite a) else as_toWrite a)
      in case (if discard then FileHandler_append env (fst tm) (snd tm) warning (as_output a)
               else Some (Inr (as_output a))) of
           None \<Rightarrow> None
         | Some (Inl e) \<Rightarrow> Some (Inl e)
         | Some (Inr out) \<Rightarrow>
             map_option (\<lambda>r. bindr r (async_finish discard bs a)) (write_buffers env clk bs out))"

section \<open>The logger as a whole\<close>

record logger =
  lg_name :: string
  lg_handlers :: handlers
  lg_async :: "async_log option"

definition Logger_write :: "log_env \<Rightarrow> (nat \<Rightarrow> byte) \<Rightarrow> int \<Rightarrow> int \<Rightarrow> log_ctx \<Rightarrow> logger \<times> log_world \<Rightarrow>
    (bool \<times> logger \<times> log_world) result option" where
  "Logger_write env mem now now2 c lw =
     (case lw of (lg, w) \<Rightarrow>
      case lg_async lg of
        Some a \<Rightarrow> Some (Inr (False, lg\<lparr>lg_async := Some (AsyncLogging_append mem (lc_text c) a)\<rparr>, w))
      | None \<Rightarrow> map_option (\<lambda>r. bindr r (\<lambda>(stop, hs, w'). Inr (stop, lg\<lparr>lg_handlers := hs\<rparr>, w')))
                 (handlerWrite env now now2 c (lg_handlers lg) w))"

section \<open>Writing to files\<close>

text \<open>
  The C standard on \<open>fwrite\<close>: it writes at most what it is given, and less only with an error.
  \<open>disk_ok\<close>: neither \<open>fopen\<close> nor \<open>fwrite\<close> fails.
\<close>

definition fw_std :: "(nat \<Rightarrow> nat \<times> bool) \<Rightarrow> bool" where
  "fw_std fw \<longleftrightarrow> (\<forall>r. fst (fw r) \<le> r \<and> (fst (fw r) < r \<longrightarrow> snd (fw r)))"

definition disk_ok :: "log_env \<Rightarrow> bool" where
  "disk_ok env \<longleftrightarrow> (\<forall>r. fst (le_fwrite env r) = r) \<and> (\<forall>n. le_fopen_ok env n)"

lemma fwrite_loop_done [simp]: "fwrite_loop fw msg (length msg) stream = Some (length msg, stream)"
  by (simp add: fwrite_loop.simps)

lemma LogFile_append_full:
  assumes "fst (fw (length msg)) = length msg"
  shows "LogFile_append fw msg f =
    Some (f\<lparr>lf_stream := lf_stream f @ msg, lf_writtenBytes := lf_writtenBytes f + int (length msg)\<rparr>)"
proof -
  have "fwrite_loop fw msg 0 (lf_stream f) = Some (length msg, lf_stream f @ msg)"
  proof (cases "msg = []")
    case False
    then show ?thesis using assms by (subst fwrite_loop.simps) (auto split: prod.splits)
  next
    case True
    then show ?thesis using fwrite_loop_done[of fw "[]"] by simp
  qed
  then show ?thesis by (simp add: LogFile_append_def)
qed

lemma LogFile_append_short:
  assumes "fst (fw (length msg)) \<noteq> length msg" and "snd (fw (length msg))" and "msg \<noteq> []"
  shows "LogFile_append fw msg f = Some (f\<lparr>lf_stream := lf_stream f @ take (fst (fw (length msg))) msg\<rparr>)"
proof -
  have "fwrite_loop fw msg 0 (lf_stream f) = Some (0, lf_stream f @ take (fst (fw (length msg))) msg)"
    using assms by (subst fwrite_loop.simps) (auto split: prod.splits)
  then show ?thesis by (simp add: LogFile_append_def)
qed

text \<open>A call that writes nothing and reports no error is repeated for ever.\<close>

lemma fwrite_loop_stuck:
  assumes "msg \<noteq> []"
  shows "fwrite_loop (\<lambda>r. (0, False)) msg 0 stream = None"
proof -
  have "fw = (\<lambda>r. (0, False)) \<longrightarrow> w < length m \<longrightarrow> False" if "fwrite_loop fw m w s = Some r" for fw m w s r
    by (rule fwrite_loop.raw_induct[where P = "\<lambda>fw m w s r. fw = (\<lambda>r. (0, False)) \<longrightarrow> w < length m \<longrightarrow> False", OF _ that])
      (auto split: if_splits)
  from this[of "\<lambda>r. (0, False)" msg 0 stream] show ?thesis
    using assms by (cases "fwrite_loop (\<lambda>r. (0, False)) msg 0 stream") auto
qed

text \<open>All bytes handed to a file handler, on disk and in its open file, in order.\<close>

definition fh_total :: "filehandler \<times> disk \<Rightarrow> byte list" where
  "fh_total st = concat (map snd (snd st)) @
     (case fh_file (fst st) of None \<Rightarrow> [] | Some f \<Rightarrow> lf_stream f)"

lemma rollFile_ok:
  assumes "disk_ok env" and "fh_file h \<noteq> None"
  shows "\<exists>b h' d'. rollFile env now (h, d) = Inr (b, h', d') \<and> fh_file h' \<noteq> None \<and>
    fh_total (h', d') = fh_total (h, d) \<and> fh_fileRollSize h' = fh_fileRollSize h \<and>
    (b \<longleftrightarrow> fh_lastRollTime h < now) \<and> (\<not> b \<longrightarrow> h' = h) \<and>
    (b \<longrightarrow> (\<exists>f'. fh_file h' = Some f' \<and> lf_writtenBytes f' = 0 \<and> lf_name f' = getFilename (le_ymd env) now))"
  using assms by (auto simp: rollFile_def LogFile_new_def LogFile_close_def fh_total_def disk_ok_def)

lemma FileHandler_flush_ok:
  assumes "fh_file h = Some f"
  shows "\<exists>h' d'. FileHandler_flush (h, d) = Inr (h', d') \<and> fh_total (h', d') = fh_total (h, d) \<and>
    h' = h\<lparr>fh_file := Some (f\<lparr>lf_stream := []\<rparr>)\<rparr>"
  using assms by (simp add: FileHandler_flush_def LogFile_flush_def fh_total_def)

lemma FileHandler_tail_ok:
  assumes ok: "disk_ok env" and f: "fh_file h = Some f"
  shows "\<exists>h' d' f'. FileHandler_tail env now now2 (h, d) = Inr (h', d') \<and> fh_file h' = Some f' \<and>
    fh_total (h', d') = fh_total (h, d) \<and> fh_fileRollSize h' = fh_fileRollSize h \<and>
    (lf_writtenBytes f' = lf_writtenBytes f \<or> lf_writtenBytes f' = 0) \<and>
    (fh_fileRollSize h \<le> lf_writtenBytes f \<longrightarrow> fh_lastRollTime h < now \<longrightarrow> lf_writtenBytes f' = 0)"
proof (cases "fh_fileRollSize h \<le> lf_writtenBytes f")
  case True
  then show ?thesis
    using rollFile_ok[OF ok, of h now d] f by (fastforce simp: FileHandler_tail_def)
next
  case small: False
  let ?h1 = "h\<lparr>fh_lineCount := fh_lineCount h + 1\<rparr>" and ?h2 = "h\<lparr>fh_lineCount := 0\<rparr>"
  have t: "fh_total (?h1, d) = fh_total (h, d)" "fh_total (?h2, d) = fh_total (h, d)"
    "fh_total (?h2\<lparr>fh_lastFlushTime := now\<rparr>, d) = fh_total (h, d)" by (simp_all add: fh_total_def)
  show ?thesis
  proof (cases "fh_lineCount h + 1 < fh_flushEveryNLine h")
    case True
    then show ?thesis using small f t by (simp add: FileHandler_tail_def)
  next
    case False
    then have eq: "FileHandler_tail env now now2 (h, d) =
        (if now sdiv rollPeriodPerSeconds * rollPeriodPerSeconds \<noteq> fh_lastRollPeriod h
         then bindr (rollFile env now2 (?h2, d)) (\<lambda>(_, r). Inr r)
         else if now - fh_lastFlushTime h > fh_flushInterval h
         then FileHandler_flush (?h2\<lparr>fh_lastFlushTime := now\<rparr>, d)
         else Inr (?h2, d))"
      using small f by (simp add: FileHandler_tail_def)
    have "fh_file ?h2 \<noteq> None" using f by simp
    from rollFile_ok[OF ok this, of now2 d] obtain b h' d' where r: "rollFile env now2 (?h2, d) = Inr (b, h', d')"
      "fh_file h' \<noteq> None" "fh_total (h', d') = fh_total (?h2, d)" "fh_fileRollSize h' = fh_fileRollSize ?h2"
      "\<not> b \<longrightarrow> h' = ?h2" "b \<longrightarrow> (\<exists>f'. fh_file h' = Some f' \<and> lf_writtenBytes f' = 0)" by blast
    have roll: "\<exists>f'. fh_file h' = Some f' \<and> (lf_writtenBytes f' = lf_writtenBytes f \<or> lf_writtenBytes f' = 0)"
      using r f by (cases b) auto
    have "fh_file (?h2\<lparr>fh_lastFlushTime := now\<rparr>) = Some f" using f by simp
    from FileHandler_flush_ok[OF this, of d] obtain h3 d3 where
      fl: "FileHandler_flush (?h2\<lparr>fh_lastFlushTime := now\<rparr>, d) = Inr (h3, d3)"
        "fh_total (h3, d3) = fh_total (h, d)" "h3 = ?h2\<lparr>fh_lastFlushTime := now, fh_file := Some (f\<lparr>lf_stream := []\<rparr>)\<rparr>"
      using t by auto
    show ?thesis using eq r(1,3,4) roll fl f t small by auto
  qed
qed

lemma FileHandler_append_ok:
  assumes ok: "disk_ok env" and f: "fh_file h = Some f"
  shows "\<exists>h' d' f'. FileHandler_append env now now2 data (h, d) = Some (Inr (h', d')) \<and> fh_file h' = Some f' \<and>
    fh_total (h', d') = fh_total (h, d) @ data \<and> fh_fileRollSize h' = fh_fileRollSize h \<and>
    (lf_writtenBytes f' = lf_writtenBytes f + int (length data) \<or> lf_writtenBytes f' = 0) \<and>
    (fh_fileRollSize h \<le> lf_writtenBytes f + int (length data) \<longrightarrow> fh_lastRollTime h < now \<longrightarrow> lf_writtenBytes f' = 0)"
proof -
  let ?f = "f\<lparr>lf_stream := lf_stream f @ data, lf_writtenBytes := lf_writtenBytes f + int (length data)\<rparr>"
  have a: "LogFile_append (le_fwrite env) data f = Some ?f"
    by (rule LogFile_append_full) (use ok in \<open>simp add: disk_ok_def\<close>)
  have "fh_file (h\<lparr>fh_file := Some ?f\<rparr>) = Some ?f" by simp
  from FileHandler_tail_ok[OF ok this, of now now2 d]
  obtain h' d' f' where t: "FileHandler_tail env now now2 (h\<lparr>fh_file := Some ?f\<rparr>, d) = Inr (h', d')" "fh_file h' = Some f'"
    "fh_total (h', d') = fh_total (h\<lparr>fh_file := Some ?f\<rparr>, d)" "fh_fileRollSize h' = fh_fileRollSize h"
    "lf_writtenBytes f' = lf_writtenBytes ?f \<or> lf_writtenBytes f' = 0"
    "fh_fileRollSize h \<le> lf_writtenBytes ?f \<longrightarrow> fh_lastRollTime h < now \<longrightarrow> lf_writtenBytes f' = 0" by auto
  have "fh_total (h\<lparr>fh_file := Some ?f\<rparr>, d) = fh_total (h, d) @ data" using f by (simp add: fh_total_def)
  with t a f show ?thesis by (simp add: FileHandler_append_def)
qed

section \<open>The double buffers\<close>

definition empty_buf :: "fixedbuffer \<Rightarrow> bool" where
  "empty_buf b \<longleftrightarrow> fb_wf b \<and> fb_capacity b = AsyncBufferSize \<and> fb_cur b = 0"

definition log_buf :: "fixedbuffer \<Rightarrow> bool" where
  "log_buf b \<longleftrightarrow> fb_wf b \<and> fb_capacity b = AsyncBufferSize"

definition fits :: "byte list \<Rightarrow> bool" where
  "fits m \<longleftrightarrow> length m < AsyncBufferSize"

text \<open>Everything logged and not yet handed to the file handler, oldest first.\<close>

definition queued :: "async_log \<Rightarrow> byte list" where
  "queued a = concat (map fb_content (as_toWrite a @ as_buffers a @ [as_current a]))"

definition async_inv :: "async_log \<Rightarrow> bool" where
  "async_inv a \<longleftrightarrow> log_buf (as_current a) \<and> (\<forall>b \<in> set (as_buffers a @ as_toWrite a). log_buf b) \<and>
     (\<forall>b. as_next a = Some b \<longrightarrow> empty_buf b) \<and> (as_next a = None \<longrightarrow> as_buffers a \<noteq> []) \<and>
     (\<forall>b. as_new1 a = Some b \<longrightarrow> empty_buf b) \<and> (\<forall>b. as_new2 a = Some b \<longrightarrow> empty_buf b) \<and>
     (as_pc a \<in> {BeforeTest, BeforeSwap} \<longrightarrow> as_new1 a \<noteq> None \<and> as_new2 a \<noteq> None \<and> as_toWrite a = []) \<and>
     (as_pc a = BeforeWrite \<longrightarrow> as_new1 a = None \<and> as_toWrite a \<noteq> [] \<and>
        (as_new2 a = None \<longrightarrow> 2 \<le> length (as_toWrite a))) \<and>
     fh_file (fst (as_output a)) \<noteq> None \<and>
     (\<not> as_dropped a \<longrightarrow> fh_total (as_output a) @ queued a = concat (filter fits (as_sent a)))"

lemma empty_buf_simps [simp]:
  "empty_buf (FixedBuffer_new AsyncBufferSize mem)" "log_buf b \<Longrightarrow> empty_buf (fb_reset b)"
  "empty_buf b \<Longrightarrow> log_buf b" "empty_buf b \<Longrightarrow> fb_content b = []" "empty_buf b \<Longrightarrow> fb_size b = 0"
  "empty_buf b \<Longrightarrow> empty_buf (fb_clear b)"
  by (simp_all add: empty_buf_def log_buf_def FixedBuffer_new_def fb_wf_def AsyncBufferSize_def fb_reset_def
      fb_content_def fb_size_def fb_clear_def)

lemma fb_append_capacity: "fb_capacity (fb_append m b) = fb_capacity b"
  by (simp add: fb_append_def)

lemma log_buf_append [simp]: "log_buf b \<Longrightarrow> log_buf (fb_append m b)"
  by (simp add: log_buf_def fb_append_capacity)

lemma empty_append: "empty_buf b \<Longrightarrow> fb_content (fb_append m b) = (if fits m then m else [])"
  using fb_append_content_fit[of b m] fb_append_full[of b m]
  by (auto simp: empty_buf_def fits_def fb_content_def)

lemma append_inv:
  assumes inv: "async_inv a"
  shows "async_inv (AsyncLogging_append mem m a)"
    and "as_pc (AsyncLogging_append mem m a) = as_pc a"
    and "as_output (AsyncLogging_append mem m a) = as_output a"
    and "as_running (AsyncLogging_append mem m a) = as_running a"
    and "as_dropped (AsyncLogging_append mem m a) = as_dropped a"
    and "queued (AsyncLogging_append mem m a) = queued a @ (if fits m then m else [])"
proof -
  let ?a = "AsyncLogging_append mem m a"
  have cur: "log_buf (as_current a)" using inv by (simp add: async_inv_def)
  then have rem: "sz_of_int (fb_remainingCapacity (as_current a)) = AsyncBufferSize - fb_cur (as_current a)"
    by (simp add: log_buf_def)
  show same: "as_pc ?a = as_pc a" "as_output ?a = as_output a" "as_running ?a = as_running a" "as_dropped ?a = as_dropped a"
    by (simp_all add: AsyncLogging_append_def split: option.splits)
  have sent: "as_sent ?a = as_sent a @ [m]" by (simp add: AsyncLogging_append_def split: option.splits)
  have "async_inv ?a \<and> queued ?a = queued a @ (if fits m then m else [])"
  proof (cases "length m < AsyncBufferSize - fb_cur (as_current a)")
    case True
    then have fit: "fits m" by (simp add: fits_def)
    have c: "fb_content (fb_append m (as_current a)) = fb_content (as_current a) @ m"
      by (rule fb_append_content_fit) (use cur True in \<open>simp_all add: log_buf_def\<close>)
    have eq: "?a = a\<lparr>as_sent := as_sent a @ [m], as_current := fb_append m (as_current a)\<rparr>"
      using True rem by (simp add: AsyncLogging_append_def)
    have q: "queued ?a = queued a @ m" using c by (simp add: eq queued_def)
    have "async_inv ?a" using inv q sent fit cur by (simp add: eq async_inv_def)
    with q fit show ?thesis by simp
  next
    case False
    define n where "n = (case as_next a of Some b \<Rightarrow> b | None \<Rightarrow> FixedBuffer_new AsyncBufferSize mem)"
    have n: "empty_buf n" using inv by (auto simp: n_def async_inv_def split: option.splits)
    have eq: "?a = a\<lparr>as_sent := as_sent a @ [m], as_buffers := as_buffers a @ [as_current a], as_next := None,
        as_current := fb_append m n\<rparr>"
      using False rem by (simp add: AsyncLogging_append_def n_def split: option.splits)
    have q: "queued ?a = queued a @ (if fits m then m else [])"
      using empty_append[OF n, of m] by (simp add: eq queued_def)
    have "async_inv ?a" using inv q sent n cur by (auto simp: eq async_inv_def)
    with q show ?thesis by simp
  qed
  then show "async_inv ?a" "queued ?a = queued a @ (if fits m then m else [])" by simp_all
qed

lemma tail_message:
  assumes inv: "async_inv a" and fit: "fits m"
  shows "\<exists>pre. concat (map fb_content (as_buffers (AsyncLogging_append mem m a))) @
    fb_content (as_current (AsyncLogging_append mem m a)) = pre @ m"
proof -
  have "as_toWrite (AsyncLogging_append mem m a) = as_toWrite a"
    by (simp add: AsyncLogging_append_def split: option.splits)
  then have "concat (map fb_content (as_buffers (AsyncLogging_append mem m a))) @
      fb_content (as_current (AsyncLogging_append mem m a)) =
      (concat (map fb_content (as_buffers a)) @ fb_content (as_current a)) @ m"
    using append_inv(6)[OF inv, of mem m] fit by (simp add: queued_def)
  then show ?thesis by blast
qed

lemma swap_ok:
  assumes inv: "async_inv a" and pc: "as_pc a = BeforeSwap"
  shows "\<exists>a'. async_swap a = Inr a' \<and> async_inv a' \<and> as_pc a' = BeforeWrite \<and> queued a' = queued a \<and>
    as_output a' = as_output a"
proof -
  obtain n1 n2 where n: "as_new1 a = Some n1" "as_new2 a = Some n2" "empty_buf n1" "empty_buf n2" "as_toWrite a = []"
    using inv pc by (auto simp: async_inv_def)
  have sp: "spare (as_new1 a)" "spare (as_new2 a)" using n by (simp_all add: spare_def)
  let ?b = "a\<lparr>as_current := n1, as_new1 := None, as_buffers := [], as_toWrite := as_buffers a @ [as_current a],
      as_pc := BeforeWrite\<rparr>"
  let ?c = "?b\<lparr>as_next := Some n2, as_new2 := None\<rparr>"
  have q: "queued ?b = queued a" "queued ?c = queued a" using n by (simp_all add: queued_def)
  show ?thesis
  proof (cases "as_next a")
    case None
    then have "as_buffers a \<noteq> []" using inv by (simp add: async_inv_def)
    then have two: "2 \<le> length (as_buffers a @ [as_current a])" by (cases "as_buffers a") simp_all
    have "async_swap a = Inr ?c" using None n sp by (simp add: async_swap_def)
    moreover have "async_inv ?c" using inv n q two by (auto simp: async_inv_def)
    ultimately show ?thesis using q by simp
  next
    case (Some x)
    have "async_swap a = Inr ?b" using Some n sp by (simp add: async_swap_def)
    moreover have "async_inv ?b" using inv n q Some by (auto simp: async_inv_def)
    ultimately show ?thesis using q by simp
  qed
qed

lemma enter_ok:
  assumes inv: "async_inv a" and pc: "as_pc a = BeforeTest"
  shows "\<exists>a'. async_enter a = Inr a' \<and> async_inv a' \<and> queued a' = queued a \<and> fh_total (as_output a') = fh_total (as_output a) \<and>
    as_pc a' = (if as_running a then BeforeSwap else Returned)"
proof -
  obtain h d f where out: "as_output a = (h, d)" "fh_file h = Some f" using inv by (cases "as_output a") (auto simp: async_inv_def)
  obtain h' d' where f: "FileHandler_flush (h, d) = Inr (h', d')" "fh_total (h', d') = fh_total (h, d)" "fh_file h' \<noteq> None"
    using FileHandler_flush_ok[OF out(2), of d] by auto
  have q: "queued (a\<lparr>as_pc := BeforeSwap\<rparr>) = queued a" "queued (a\<lparr>as_output := (h', d'), as_pc := Returned\<rparr>) = queued a"
    by (simp_all add: queued_def)
  have "async_inv (a\<lparr>as_pc := BeforeSwap\<rparr>)" "async_inv (a\<lparr>as_output := (h', d'), as_pc := Returned\<rparr>)"
    using inv pc q f(2,3) out(1) by (auto simp: async_inv_def)
  with q f(1,2) out(1) show ?thesis by (cases "as_running a") (simp_all add: async_enter_def)
qed

lemma write_buffers_ok:
  assumes ok: "disk_ok env" and "fh_file (fst out) \<noteq> None"
  shows "\<exists>out'. write_buffers env clk bs out = Some (Inr out') \<and> fh_file (fst out') \<noteq> None \<and>
    fh_total out' = fh_total out @ concat (map fb_content bs)"
  using assms(2)
proof (induction bs arbitrary: out clk)
  case (Cons b bs)
  obtain h d f where out: "out = (h, d)" "fh_file h = Some f" using Cons.prems by (cases out) auto
  obtain now now2 where t: "(if clk = [] then (0, 0) else List.hd clk) = (now, now2)" by (meson surj_pair)
  obtain h1 d1 f1 where a: "FileHandler_append env now now2 (fb_content b) (h, d) = Some (Inr (h1, d1))"
    "fh_file h1 = Some f1" "fh_total (h1, d1) = fh_total (h, d) @ fb_content b"
    using FileHandler_append_ok[OF ok out(2)] by blast
  obtain out' where "write_buffers env (tl clk) bs (h1, d1) = Some (Inr out')" "fh_file (fst out') \<noteq> None"
    "fh_total out' = fh_total (h1, d1) @ concat (map fb_content bs)"
    using Cons.IH[of "(h1, d1)" "tl clk"] a(2) by auto
  then show ?case using a t out by auto
qed simp

lemma refill_ok:
  assumes "\<forall>b \<in> set bs. log_buf b" and "b = None \<longrightarrow> bs \<noteq> []" and "\<forall>x. b = Some x \<longrightarrow> empty_buf x"
  shows "\<exists>x. refill b bs = Inr (Some x, if b = None then butlast bs else bs) \<and> empty_buf x"
  using assms by (cases b) (auto simp: refill_def)

lemma write_ok:
  assumes ok: "disk_ok env" and inv: "async_inv a" and pc: "as_pc a = BeforeWrite"
  shows "\<exists>a'. async_write env warning tm clk a = Some (Inr a') \<and> async_inv a' \<and>
    as_pc a' = (if as_running a then BeforeSwap else Returned) \<and> as_running a' = as_running a \<and>
    as_dropped a' = (as_dropped a \<or> 25 < length (as_toWrite a)) \<and>
    (length (as_toWrite a) \<le> 25 \<longrightarrow> fh_total (as_output a') = fh_total (as_output a) @ concat (map fb_content (as_toWrite a))) \<and>
    as_current a' = as_current a \<and> as_buffers a' = as_buffers a \<and> as_sent a' = as_sent a"
proof -
  let ?discard = "25 < length (as_toWrite a)"
  define bs where "bs = (if ?discard then take 2 (as_toWrite a) else as_toWrite a)"
  have new1: "as_new1 a = None" using inv pc by (simp add: async_inv_def)
  have logs: "\<forall>b \<in> set bs. log_buf b" using inv by (auto simp: async_inv_def bs_def dest: in_set_takeD)
  have len: "bs \<noteq> []" "as_new2 a = None \<longrightarrow> butlast bs \<noteq> []"
  proof -
    show "bs \<noteq> []" using inv pc by (auto simp: async_inv_def bs_def)
    have "as_new2 a = None \<longrightarrow> 2 \<le> length bs" using inv pc by (auto simp: async_inv_def bs_def)
    then show "as_new2 a = None \<longrightarrow> butlast bs \<noteq> []" by (auto simp: butlast_conv_take)
  qed
  obtain h d f where out: "as_output a = (h, d)" "fh_file h = Some f" using inv by (cases "as_output a") (auto simp: async_inv_def)
  have "\<exists>o1. (if ?discard then FileHandler_append env (fst tm) (snd tm) warning (as_output a) else Some (Inr (as_output a))) =
      Some (Inr o1) \<and> fh_file (fst o1) \<noteq> None \<and> (\<not> ?discard \<longrightarrow> fh_total o1 = fh_total (as_output a))"
    using FileHandler_append_ok[OF ok out(2), of "fst tm" "snd tm" warning d] out by fastforce
  then obtain o1 where o1: "(if ?discard then FileHandler_append env (fst tm) (snd tm) warning (as_output a)
      else Some (Inr (as_output a))) = Some (Inr o1)" "fh_file (fst o1) \<noteq> None"
    "\<not> ?discard \<longrightarrow> fh_total o1 = fh_total (as_output a)" by blast
  obtain o2 where o2: "write_buffers env clk bs o1 = Some (Inr o2)" "fh_file (fst o2) \<noteq> None"
    "fh_total o2 = fh_total o1 @ concat (map fb_content bs)"
    using write_buffers_ok[OF ok o1(2)] by blast
  have "\<exists>x1. refill (as_new1 a) bs = Inr (Some x1, butlast bs) \<and> empty_buf x1"
    using refill_ok[OF logs, of "as_new1 a"] len new1 by simp
  then obtain x1 where r1: "refill (as_new1 a) bs = Inr (Some x1, butlast bs)" "empty_buf x1" by blast
  have "\<forall>b \<in> set (butlast bs). log_buf b" using logs by (auto dest: in_set_butlastD)
  then have "\<exists>x2. refill (as_new2 a) (butlast bs) =
      Inr (Some x2, if as_new2 a = None then butlast (butlast bs) else butlast bs) \<and> empty_buf x2"
    by (rule refill_ok) (use len inv in \<open>simp_all add: async_inv_def\<close>)
  then obtain x2 bs2 where r2: "refill (as_new2 a) (butlast bs) = Inr (Some x2, bs2)" "empty_buf x2" by blast
  obtain h2 d2 f2 where h2: "o2 = (h2, d2)" "fh_file h2 = Some f2" using o2(2) by (cases o2) auto
  obtain h3 d3 where h3: "FileHandler_flush (h2, d2) = Inr (h3, d3)" "fh_total (h3, d3) = fh_total (h2, d2)"
    "fh_file h3 = Some (f2\<lparr>lf_stream := []\<rparr>)" using FileHandler_flush_ok[OF h2(2), of d2] by auto
  obtain h4 d4 where h4: "FileHandler_flush (h3, d3) = Inr (h4, d4)" "fh_total (h4, d4) = fh_total (h3, d3)"
    "fh_file h4 \<noteq> None" using FileHandler_flush_ok[OF h3(3), of d3] by auto
  let ?o = "if as_running a then (h3, d3) else (h4, d4)"
  let ?a = "a\<lparr>as_toWrite := [], as_new1 := Some x1, as_new2 := Some x2, as_output := ?o,
      as_pc := (if as_running a then BeforeSwap else Returned), as_dropped := (as_dropped a \<or> ?discard)\<rparr>"
  have "async_finish ?discard bs a o2 = Inr ?a"
    using r1 r2 h2 h3 h4 by (simp add: async_finish_def)
  then have run: "async_write env warning tm clk a = Some (Inr ?a)"
    using o1(1) o2(1) unfolding async_write_def Let_def bs_def[symmetric] by simp
  have tot: "fh_total ?o = fh_total o1 @ concat (map fb_content bs)" using o2(3) h2 h3 h4 by simp
  have tot': "\<not> ?discard \<longrightarrow> fh_total ?o = fh_total (as_output a) @ concat (map fb_content (as_toWrite a))"
    using tot o1(3) by (simp add: bs_def)
  have q: "queued a = concat (map fb_content (as_toWrite a)) @ queued ?a" by (simp add: queued_def)
  have "async_inv ?a" using inv r1(2) r2(2) h3(3) h4(3) tot' q by (auto simp: async_inv_def)
  with run tot' show ?thesis by simp
qed

section \<open>Runs of the asynchronous logger\<close>

inductive async_step :: "log_env \<Rightarrow> async_log \<Rightarrow> async_log \<Rightarrow> bool" for env where
  logs: "async_step env a (AsyncLogging_append mem m a)"
| enters: "as_pc a = BeforeTest \<Longrightarrow> async_enter a = Inr a' \<Longrightarrow> async_step env a a'"
| swaps: "as_pc a = BeforeSwap \<Longrightarrow> async_swap a = Inr a' \<Longrightarrow> async_step env a a'"
| writes: "as_pc a = BeforeWrite \<Longrightarrow> async_write env warning tm clk a = Some (Inr a') \<Longrightarrow> async_step env a a'"
| stops: "async_step env a (AsyncLogging_stop a)"

inductive_cases async_stepE: "async_step env a b"

definition async_start :: "async_log \<Rightarrow> bool" where
  "async_start a \<longleftrightarrow> (\<exists>mem mem' h d f. fh_file h = Some f \<and> fh_total (h, d) = [] \<and>
     AsyncLogging_start mem' (AsyncLogging_new mem (h, d)) = Inr a)"

lemma async_start_inv: "async_start a \<Longrightarrow> async_inv a"
  by (auto simp: async_start_def AsyncLogging_start_def AsyncLogging_new_def async_inv_def queued_def)

lemma async_step_inv:
  assumes ok: "disk_ok env" and step: "async_step env a b" and inv: "async_inv a"
  shows "async_inv b"
  using step
proof (cases rule: async_step.cases)
  case (logs mem m)
  then show ?thesis using append_inv(1)[OF inv] by simp
next
  case enters
  then show ?thesis using enter_ok[OF inv] by auto
next
  case swaps
  then show ?thesis using swap_ok[OF inv] by auto
next
  case (writes warning tm clk)
  obtain a' where "async_write env warning tm clk a = Some (Inr a')" "async_inv a'"
    using write_ok[OF ok inv writes(1)] by blast
  then show ?thesis using writes(2) by simp
next
  case stops
  then show ?thesis using inv by (simp add: AsyncLogging_stop_def async_inv_def queued_def)
qed

text \<open>An environment in which no file operation fails, to interpret the invariant at.\<close>

definition good_disk :: "(int \<Rightarrow> string) \<Rightarrow> log_env" where
  "good_disk ymd = \<lparr>le_ymd = ymd, le_fopen_ok = (\<lambda>_. True), le_fwrite = (\<lambda>r. (r, False))\<rparr>"

lemma good_disk_ok [simp]: "disk_ok (good_disk ymd)"
  by (simp add: disk_ok_def good_disk_def)

interpretation async_sys: invariant_system async_start "async_step (good_disk ymd)" async_inv
  by unfold_locales (auto intro: async_start_inv async_step_inv[OF good_disk_ok])

section \<open>Properties\<close>

text \<open>C7. The asynchronous logger keeps every line, in order: in every state its threads can reach without a
  failing file, the log files and the buffers still queued hold, in the order of logging and
  without gap or repetition, all messages that fit a buffer, unless the writing thread has
  found more than 25 full buffers and discarded some; and the thread's assertions about its
  spare buffers hold, so that its next step does not fail.\<close>

theorem async_log_keeps_order:
  assumes "reach async_start (async_step (good_disk ymd)) a"
  shows "(\<not> as_dropped a \<longrightarrow> fh_total (as_output a) @ queued a = concat (filter fits (as_sent a))) \<and>
    (as_pc a = BeforeTest \<longrightarrow> (\<exists>b. async_enter a = Inr b)) \<and>
    (as_pc a = BeforeSwap \<longrightarrow> (\<exists>b. async_swap a = Inr b)) \<and>
    (as_pc a = BeforeWrite \<longrightarrow> (\<exists>b. async_write (good_disk ymd) warning tm clk a = Some (Inr b) \<and>
        (as_dropped b \<longleftrightarrow> as_dropped a \<or> 25 < length (as_toWrite a))))"
proof -
  have inv: "async_inv a" by (rule async_sys.reach_inv[OF assms])
  then have "\<not> as_dropped a \<longrightarrow> fh_total (as_output a) @ queued a = concat (filter fits (as_sent a))"
    by (simp add: async_inv_def)
  moreover have "\<exists>b. async_enter a = Inr b" if "as_pc a = BeforeTest" using enter_ok[OF inv that] by blast
  moreover have "\<exists>b. async_swap a = Inr b" if "as_pc a = BeforeSwap" using swap_ok[OF inv that] by blast
  moreover have "\<exists>b. async_write (good_disk ymd) warning tm clk a = Some (Inr b) \<and>
        (as_dropped b \<longleftrightarrow> as_dropped a \<or> 25 < length (as_toWrite a))" if "as_pc a = BeforeWrite"
    using write_ok[OF good_disk_ok inv that, of ymd warning tm clk] by blast
  ultimately show ?thesis by blast
qed

definition new_file :: filehandler where
  "new_file = \<lparr>fh_level = INFO, fh_flushInterval = 3, fh_flushEveryNLine = 100, fh_fileRollSize = 65536, fh_lineCount = 0,
     fh_lastRollTime = 1, fh_lastFlushTime = 1, fh_lastRollPeriod = 0,
     fh_file = Some \<lparr>lf_name = ''a'', lf_stream = [], lf_writtenBytes = 0\<rparr>\<rparr>"

definition started :: async_log where
  "started = (AsyncLogging_new (\<lambda>_. 0) (new_file, []))
     \<lparr>as_running := True, as_new1 := Some (fb_clear (fb_clear (FixedBuffer_new AsyncBufferSize (\<lambda>_. 0)))),
      as_new2 := Some (FixedBuffer_new AsyncBufferSize (\<lambda>_. 0)), as_toWrite := [], as_pc := BeforeTest\<rparr>"

lemma started_start: "async_start started"
proof -
  have "AsyncLogging_start (\<lambda>_. 0) (AsyncLogging_new (\<lambda>_. 0) (new_file, [])) = Inr started"
    by (simp add: started_def AsyncLogging_start_def AsyncLogging_new_def)
  moreover have "fh_total (new_file, []) = []" "\<exists>f. fh_file new_file = Some f"
    by (simp_all add: fh_total_def new_file_def)
  ultimately show ?thesis unfolding async_start_def by blast
qed

definition one_line :: async_log where
  "one_line = AsyncLogging_append (\<lambda>_. 0) [104, 105, 10] (started\<lparr>as_pc := BeforeSwap\<rparr>)"

lemma entered_reach: "reach async_start (async_step env) (started\<lparr>as_pc := BeforeSwap\<rparr>)"
  by (rule reach_step[OF reach_start[of async_start, OF started_start]], rule async_step.enters)
    (simp_all add: started_def AsyncLogging_new_def async_enter_def)

lemma one_line_reach: "reach async_start (async_step env) one_line"
  unfolding one_line_def by (rule reach_step[OF entered_reach]) (rule async_step.logs)

lemma one_line_fields:
  "as_sent one_line = [[104, 105, 10]]" "as_dropped one_line = False" "as_pc one_line = BeforeSwap"
  "as_running one_line = True" "as_output one_line = (new_file, [])" "async_inv one_line"
proof -
  have inv: "async_inv (started\<lparr>as_pc := BeforeSwap\<rparr>)" by (rule async_sys.reach_inv[OF entered_reach])
  show "as_sent one_line = [[104, 105, 10]]"
    by (simp add: one_line_def AsyncLogging_append_def started_def AsyncLogging_new_def split: option.splits)
  show "as_dropped one_line = False" "as_pc one_line = BeforeSwap" "as_running one_line = True"
    "as_output one_line = (new_file, [])" "async_inv one_line"
    unfolding one_line_def append_inv(2-5)[OF inv] using append_inv(1)[OF inv]
    by (simp_all add: started_def AsyncLogging_new_def)
qed

theorem async_log_keeps_order_witness:
  "\<exists>a. reach async_start (async_step (good_disk (\<lambda>_. ''19700101''))) a \<and> queued a = [104, 105, 10] \<and> (\<exists>b. async_swap a = Inr b)"
proof -
  note p = async_log_keeps_order[OF one_line_reach]
  have "fits [104, 105, 10]" by (simp add: fits_def AsyncBufferSize_def)
  moreover have "fh_total (new_file, []) = []" by (simp add: fh_total_def new_file_def)
  ultimately have "queued one_line = [104, 105, 10]" using p one_line_fields by simp
  then show ?thesis using p one_line_fields(3) one_line_reach by blast
qed

text \<open>Stopping the asynchronous logger loses the lines logged last: when a line is logged and the logger
  stopped while its thread is writing, the thread returns after that round; the line is still
  in the buffers then, and no later step puts another byte on the disk.\<close>

theorem async_stop_loses_tail:
  assumes "reach async_start (async_step (good_disk ymd)) a" and "as_pc a = BeforeWrite" and "fits m" and "m \<noteq> []"
  shows "\<exists>b. async_write (good_disk ymd) warning tm clk (AsyncLogging_stop (AsyncLogging_append mem m a)) = Some (Inr b) \<and>
    as_pc b = Returned \<and> (\<exists>pre. queued b = pre @ m) \<and>
    (\<forall>c. (async_step (good_disk ymd))\<^sup>*\<^sup>* b c \<longrightarrow> as_output c = as_output b)"
proof -
  have inv: "async_inv a" by (rule async_sys.reach_inv[OF assms(1)])
  let ?s = "AsyncLogging_stop (AsyncLogging_append mem m a)"
  have inv': "async_inv ?s" using append_inv(1)[OF inv] by (simp add: AsyncLogging_stop_def async_inv_def queued_def)
  have pc: "as_pc ?s = BeforeWrite" "\<not> as_running ?s" using append_inv(2)[OF inv] assms(2) by (simp_all add: AsyncLogging_stop_def)
  obtain b where b: "async_write (good_disk ymd) warning tm clk ?s = Some (Inr b)" "async_inv b"
    "as_pc b = Returned" "as_current b = as_current ?s" "as_buffers b = as_buffers ?s" "as_running b = as_running ?s"
    using write_ok[OF good_disk_ok inv' pc(1), of ymd warning tm clk] pc(2) by auto
  have "as_toWrite b = []"
    using b(1) unfolding async_write_def async_finish_def Let_def
    by (auto split: option.splits sum.splits prod.splits simp: bindr_eq_Inr)
  then have "queued b = concat (map fb_content (as_buffers ?s @ [as_current ?s]))" using b by (simp add: queued_def)
  moreover have "\<exists>pre. concat (map fb_content (as_buffers ?s @ [as_current ?s])) = pre @ m"
    using tail_message[OF inv assms(3)] by (simp add: AsyncLogging_stop_def)
  moreover have "as_output c = as_output b \<and> as_pc c = Returned \<and> async_inv c" if "(async_step (good_disk ymd))\<^sup>*\<^sup>* b c" for c
    using that
  proof (induction rule: rtranclp_induct)
    case (step x y)
    have "async_inv y" by (rule async_step_inv[OF good_disk_ok step(2)]) (use step in simp)
    with step(2,3) show ?case
      by (auto elim!: async_stepE simp: append_inv(2,3) AsyncLogging_stop_def)
  qed (use b in simp)
  ultimately show ?thesis using b(1,3) by metis
qed

theorem async_stop_loses_tail_witness:
  "\<exists>a b pre. reach async_start (async_step (good_disk (\<lambda>_. ''19700101''))) a \<and>
    async_write (good_disk (\<lambda>_. ''19700101'')) [] (2, 2) [] (AsyncLogging_stop (AsyncLogging_append (\<lambda>_. 0) [98, 121, 10] a)) =
      Some (Inr b) \<and> as_pc b = Returned \<and> queued b = pre @ [98, 121, 10]"
proof -
  obtain a where a: "async_swap one_line = Inr a" "as_pc a = BeforeWrite"
    using swap_ok[OF one_line_fields(6,3)] by blast
  have r: "reach async_start (async_step (good_disk (\<lambda>_. ''19700101''))) a"
    by (rule reach_step[OF one_line_reach]) (rule async_step.swaps[OF one_line_fields(3) a(1)])
  have m: "fits [98, 121, 10]" "[98, 121, 10 :: byte] \<noteq> []" by (simp_all add: fits_def AsyncBufferSize_def)
  from async_stop_loses_tail[OF r a(2) m] r show ?thesis by blast
qed

text \<open>C25. Writing a line to a log file returns: as the C standard has \<open>fwrite\<close> write less than it was given
  only with an error, the loop of \<open>LogFile::append\<close> ends after one call; the line is in the
  stream and counted, or a prefix of it is in the stream and none of it is counted. Without
  that guarantee the loop need not end: for calls that write nothing and report no error it
  does not.\<close>

theorem logfile_append_returns:
  assumes "fw_std fw"
  shows "LogFile_append fw msg f =
      Some (if fst (fw (length msg)) = length msg
            then f\<lparr>lf_stream := lf_stream f @ msg, lf_writtenBytes := lf_writtenBytes f + int (length msg)\<rparr>
            else f\<lparr>lf_stream := lf_stream f @ take (fst (fw (length msg))) msg\<rparr>) \<and>
    (msg \<noteq> [] \<longrightarrow> LogFile_append (\<lambda>r. (0, False)) msg f = None)"
proof -
  have le: "fst (fw (length msg)) \<le> length msg" "fst (fw (length msg)) < length msg \<longrightarrow> snd (fw (length msg))"
    using assms by (simp_all add: fw_std_def)
  have "LogFile_append fw msg f =
      Some (if fst (fw (length msg)) = length msg
            then f\<lparr>lf_stream := lf_stream f @ msg, lf_writtenBytes := lf_writtenBytes f + int (length msg)\<rparr>
            else f\<lparr>lf_stream := lf_stream f @ take (fst (fw (length msg))) msg\<rparr>)"
  proof (cases "fst (fw (length msg)) = length msg")
    case True
    then show ?thesis using LogFile_append_full by simp
  next
    case False
    then have "snd (fw (length msg))" "msg \<noteq> []" using le by auto
    from LogFile_append_short[where fw = fw and msg = msg, OF False this] False show ?thesis by simp
  qed
  moreover have "msg \<noteq> [] \<longrightarrow> LogFile_append (\<lambda>r. (0, False)) msg f = None"
    by (simp add: LogFile_append_def fwrite_loop_stuck)
  ultimately show ?thesis by blast
qed

theorem logfile_append_returns_witness:
  "LogFile_append (\<lambda>r. if r \<le> 2 then (r, False) else (2, True)) [1, 2, 3] \<lparr>lf_name = ''a'', lf_stream = [9], lf_writtenBytes = 1\<rparr> =
    Some \<lparr>lf_name = ''a'', lf_stream = [9, 1, 2], lf_writtenBytes = 1\<rparr>"
proof -
  have "fw_std (\<lambda>r. if r \<le> 2 then (r, False) else (2, True))" by (simp add: fw_std_def)
  from logfile_append_returns[OF this] show ?thesis by simp
qed

lemma append_at_size:
  assumes "disk_ok env" and "fh_file h = Some f" and "fh_fileRollSize h \<le> lf_writtenBytes f + int (length data)"
  shows "FileHandler_append env now now2 data (h, d) =
    (let f1 = f\<lparr>lf_stream := lf_stream f @ data, lf_writtenBytes := lf_writtenBytes f + int (length data)\<rparr> in
     if fh_lastRollTime h < now
     then Some (Inr (h\<lparr>fh_lastRollTime := now, fh_lastFlushTime := now,
            fh_lastRollPeriod := now sdiv rollPeriodPerSeconds * rollPeriodPerSeconds,
            fh_file := Some \<lparr>lf_name = getFilename (le_ymd env) now, lf_stream = [], lf_writtenBytes = 0\<rparr>\<rparr>,
          d @ [(lf_name f, lf_stream f @ data)]))
     else Some (Inr (h\<lparr>fh_file := Some f1\<rparr>, d)))"
proof -
  have "LogFile_append (le_fwrite env) data f =
      Some (f\<lparr>lf_stream := lf_stream f @ data, lf_writtenBytes := lf_writtenBytes f + int (length data)\<rparr>)"
    by (rule LogFile_append_full) (use assms(1) in \<open>simp add: disk_ok_def\<close>)
  then show ?thesis
    using assms by (simp add: FileHandler_append_def FileHandler_tail_def rollFile_def LogFile_new_def LogFile_close_def disk_ok_def)
qed

text \<open>When \<open>FileHandler::append\<close> rolls, and with which reading of the clock.\<close>

definition roll_at :: "filehandler \<Rightarrow> int \<Rightarrow> int \<Rightarrow> int \<Rightarrow> int option" where
  "roll_at h written now now2 =
     (if fh_fileRollSize h \<le> written then if fh_lastRollTime h < now then Some now else None
      else if fh_flushEveryNLine h \<le> fh_lineCount h + 1 \<and>
          now sdiv rollPeriodPerSeconds * rollPeriodPerSeconds \<noteq> fh_lastRollPeriod h \<and> fh_lastRollTime h < now2
      then Some now2 else None)"

lemma append_below_size:
  assumes "disk_ok env" and "fh_file h = Some f" and "lf_writtenBytes f + int (length data) < fh_fileRollSize h"
  shows "\<exists>h' d' f'. FileHandler_append env now now2 data (h, d) = Some (Inr (h', d')) \<and> fh_file h' = Some f' \<and>
    (case roll_at h (lf_writtenBytes f + int (length data)) now now2 of
       Some t \<Rightarrow> d' = d @ [(lf_name f, lf_stream f @ data)] \<and> fh_lastRollTime h' = t \<and>
         f' = \<lparr>lf_name = getFilename (le_ymd env) t, lf_stream = [], lf_writtenBytes = 0\<rparr>
     | None \<Rightarrow> fh_lastRollTime h' = fh_lastRollTime h \<and> lf_name f' = lf_name f \<and>
         lf_writtenBytes f' = lf_writtenBytes f + int (length data) \<and>
         (d', lf_stream f') \<in> {(d, lf_stream f @ data), (d @ [(lf_name f, lf_stream f @ data)], [])})"
proof -
  have "LogFile_append (le_fwrite env) data f =
      Some (f\<lparr>lf_stream := lf_stream f @ data, lf_writtenBytes := lf_writtenBytes f + int (length data)\<rparr>)"
    by (rule LogFile_append_full) (use assms(1) in \<open>simp add: disk_ok_def\<close>)
  then show ?thesis
    using assms
    by (simp add: FileHandler_append_def FileHandler_tail_def roll_at_def rollFile_def LogFile_new_def LogFile_close_def
        FileHandler_flush_def LogFile_flush_def Let_def disk_ok_def)
qed

text \<open>C24. A log file is closed at its roll size, but only when the clock has moved on since the last roll:
  without a failing file operation, the message that brings the open file to the roll size or
  beyond is the last one in it, and the next file is opened, if the second of the last roll is
  over; in that second the file is kept, whatever its size. Below the roll size the file is
  closed at every \<open>flushEveryNLine\<close>-th line of another period than the last roll's, again if the second
  of the last roll is over. In every other case the message is appended to the open file, in its buffer
  or flushed with it, and no byte is lost in any.\<close>

theorem file_rolls_at_size:
  assumes "disk_ok env" and "fh_file h = Some f"
  shows "\<exists>h' d' f'. FileHandler_append env now now2 data (h, d) = Some (Inr (h', d')) \<and> fh_file h' = Some f' \<and>
    (case roll_at h (lf_writtenBytes f + int (length data)) now now2 of
       Some t \<Rightarrow> d' = d @ [(lf_name f, lf_stream f @ data)] \<and> fh_lastRollTime h' = t \<and>
         f' = \<lparr>lf_name = getFilename (le_ymd env) t, lf_stream = [], lf_writtenBytes = 0\<rparr>
     | None \<Rightarrow> fh_lastRollTime h' = fh_lastRollTime h \<and> lf_name f' = lf_name f \<and>
         lf_writtenBytes f' = lf_writtenBytes f + int (length data) \<and>
         (d', lf_stream f') \<in> {(d, lf_stream f @ data), (d @ [(lf_name f, lf_stream f @ data)], [])}) \<and>
    fh_total (h', d') = fh_total (h, d) @ data"
proof (cases "lf_writtenBytes f + int (length data) < fh_fileRollSize h")
  case True
  from append_below_size[OF assms this, of now now2 d] assms(2) show ?thesis
    by (elim exE conjE) (auto simp: fh_total_def split: option.splits)
next
  case False
  then have "fh_fileRollSize h \<le> lf_writtenBytes f + int (length data)" by simp
  note a = append_at_size[OF assms this, of now now2 d]
  show ?thesis using False assms(2) unfolding a by (simp add: fh_total_def roll_at_def)
qed

theorem file_rolls_at_size_witness:
  "\<exists>h' d' f'. FileHandler_append (good_disk (\<lambda>_. ''19700101'')) 5 5 [1, 2, 3]
      (new_file\<lparr>fh_fileRollSize := 2\<rparr>, []) = Some (Inr (h', d')) \<and> d' = [(''a'', [1, 2, 3])] \<and>
    fh_file h' = Some f' \<and> lf_writtenBytes f' = 0"
proof -
  have f: "fh_file (new_file\<lparr>fh_fileRollSize := 2\<rparr>) = Some \<lparr>lf_name = ''a'', lf_stream = [], lf_writtenBytes = 0\<rparr>"
    "fh_lastRollTime (new_file\<lparr>fh_fileRollSize := 2\<rparr>) = 1" "fh_fileRollSize (new_file\<lparr>fh_fileRollSize := 2\<rparr>) = 2"
    by (simp_all add: new_file_def)
  show ?thesis
    using file_rolls_at_size[OF good_disk_ok f(1), of "\<lambda>_. ''19700101''" 5 5 "[1, 2, 3]" "[]"] unfolding roll_at_def f(2,3) by auto
qed

text \<open>Within the second of a roll a file grows without bound: all messages stay in the one file.\<close>

fun append_lines :: "log_env \<Rightarrow> int \<Rightarrow> byte list list \<Rightarrow> filehandler \<times> disk \<Rightarrow> (filehandler \<times> disk) result option" where
  "append_lines env now [] st = Some (Inr st)"
| "append_lines env now (m # ms) st =
     (case FileHandler_append env now now m st of Some (Inr st') \<Rightarrow> append_lines env now ms st' | r \<Rightarrow> r)"

theorem same_second_never_rolls:
  assumes "disk_ok env" and "fh_file h = Some f" and "fh_fileRollSize h \<le> lf_writtenBytes f" and "now \<le> fh_lastRollTime h"
  shows "\<exists>h' f'. append_lines env now ms (h, d) = Some (Inr (h', d)) \<and> fh_file h' = Some f' \<and>
    lf_writtenBytes f' = lf_writtenBytes f + int (length (concat ms))"
  using assms(2-)
proof (induction ms arbitrary: h f)
  case (Cons m ms)
  let ?f = "f\<lparr>lf_stream := lf_stream f @ m, lf_writtenBytes := lf_writtenBytes f + int (length m)\<rparr>"
  have "fh_fileRollSize h \<le> lf_writtenBytes f + int (length m)" using Cons.prems(2) by simp
  from append_at_size[OF assms(1) Cons.prems(1) this, of now now d] Cons.prems(3)
  have "FileHandler_append env now now m (h, d) = Some (Inr (h\<lparr>fh_file := Some ?f\<rparr>, d))" by simp
  moreover have "\<exists>h' f'. append_lines env now ms (h\<lparr>fh_file := Some ?f\<rparr>, d) = Some (Inr (h', d)) \<and> fh_file h' = Some f' \<and>
      lf_writtenBytes f' = lf_writtenBytes ?f + int (length (concat ms))"
    by (rule Cons.IH) (use Cons.prems in simp_all)
  ultimately show ?case by (auto simp: add.assoc)
qed simp

theorem same_second_never_rolls_witness:
  "\<exists>h' f'. append_lines (good_disk (\<lambda>_. ''19700101'')) 1 [[1, 2], [3]] (new_file\<lparr>fh_fileRollSize := 0\<rparr>, []) = Some (Inr (h', [])) \<and>
    fh_file h' = Some f' \<and> lf_writtenBytes f' = 3"
proof -
  have f: "fh_file (new_file\<lparr>fh_fileRollSize := 0\<rparr>) = Some \<lparr>lf_name = ''a'', lf_stream = [], lf_writtenBytes = 0\<rparr>"
    "fh_fileRollSize (new_file\<lparr>fh_fileRollSize := 0\<rparr>) \<le> lf_writtenBytes \<lparr>lf_name = ''a'', lf_stream = [], lf_writtenBytes = 0\<rparr>"
    "1 \<le> fh_lastRollTime (new_file\<lparr>fh_fileRollSize := 0\<rparr>)" by (simp_all add: new_file_def)
  show ?thesis using same_second_never_rolls[OF good_disk_ok f, of "\<lambda>_. ''19700101''" "[[1, 2], [3]]" "[]"] by simp
qed

lemma mod_mult_div: "0 < b \<Longrightarrow> 0 < c \<Longrightarrow> x mod (b * c) div b = x div b mod c" for x :: int
  by (simp add: zmod_zmult2_eq)

lemma day_of_minute: "x div 86400 = x div 60 div 1440" for x :: int
  using zdiv_zmult2_eq[of 1440 x 60] by simp

lemma hour_of_minute: "x mod 86400 div 3600 = x div 60 div 60 mod 24" for x :: int
  using zdiv_zmult2_eq[of 60 x 60] mod_mult_div[of 3600 24 x] by simp

lemma minute_of_hour: "x mod 3600 div 60 = x div 60 mod 60" for x :: int
  using mod_mult_div[of 60 60 x] by simp

text \<open>Rolling within a minute reopens the same file: the name of a log file shows the hour where its
  format was to show the seconds, so two times of one minute give one name, and a roll in that
  minute closes the full file and opens it again for appending.\<close>

theorem roll_within_minute_reopens:
  assumes "now div 60 = now' div 60" and "fh_lastRollTime h < now'" and "le_fopen_ok env (getFilename (le_ymd env) now)"
    and "fh_file h = Some f" and "lf_name f = getFilename (le_ymd env) now"
  shows "\<exists>h' f'. rollFile env now' (h, d) = Inr (True, h', d @ [(lf_name f, lf_stream f)]) \<and>
    fh_file h' = Some f' \<and> lf_name f' = lf_name f"
proof -
  have eq: "now div 86400 = now' div 86400" "now mod 86400 div 3600 = now' mod 86400 div 3600"
    "now mod 3600 div 60 = now' mod 3600 div 60"
    unfolding day_of_minute hour_of_minute minute_of_hour assms(1) by (rule refl)+
  then have "getFilename (le_ymd env) now' = getFilename (le_ymd env) now" by (simp add: getFilename_def)
  then show ?thesis
    using assms(2-5) by (simp add: rollFile_def LogFile_new_def LogFile_close_def)
qed

lemma char_zero: "char_of (48 :: nat) = CHR ''0''"
  by code_simp

theorem roll_within_minute_reopens_witness:
  "\<exists>h' f'. rollFile (good_disk (\<lambda>_. ''20240102'')) 40 (new_file\<lparr>fh_lastRollTime := 10,
      fh_file := Some \<lparr>lf_name = ''20240102-000000.log'', lf_stream = [7], lf_writtenBytes = 70000\<rparr>\<rparr>, []) =
      Inr (True, h', [(''20240102-000000.log'', [7])]) \<and> fh_file h' = Some f' \<and> lf_name f' = ''20240102-000000.log''"
proof -
  let ?h = "new_file\<lparr>fh_lastRollTime := 10,
      fh_file := Some \<lparr>lf_name = ''20240102-000000.log'', lf_stream = [7], lf_writtenBytes = 70000\<rparr>\<rparr>"
  have n: "getFilename (le_ymd (good_disk (\<lambda>_. ''20240102''))) 10 = ''20240102-000000.log''"
    by (simp add: getFilename_def good_disk_def pad0_def dec.simps dec_digit_def char_zero)
  show ?thesis
    using roll_within_minute_reopens[of 10 40 ?h "good_disk (\<lambda>_. ''20240102'')"
        "\<lparr>lf_name = ''20240102-000000.log'', lf_stream = [7], lf_writtenBytes = 70000\<rparr>" "[]"] n
    by (simp add: good_disk_def)
qed

text \<open>C40. \<open>LOG_FATAL\<close> aborts unless logging is asynchronous: with handlers in place and working files, a
  \<open>FATAL\<close> record aborts the process at the first handler in the order of names, later handlers
  never see it, unless that handler was given the level \<open>NUM_LOG_LEVELS\<close>; once an \<open>AsyncLogging\<close> is set the same record is only queued and the program
  goes on, past the check it was to stop at.\<close>

theorem fatal_aborts_unless_async:
  assumes "lc_level c = FATAL" and "disk_ok env"
    and "lg_handlers lg = (n, h) # hs" and "\<forall>f. h = ToFile f \<longrightarrow> fh_file f \<noteq> None"
  shows "(lg_async lg = None \<and> handler_level h \<noteq> NUM_LOG_LEVELS \<longrightarrow> (\<exists>h' w'. Logger_write env mem now now2 c (lg, w) =
        Some (Inr (True, lg\<lparr>lg_handlers := (n, h') # hs\<rparr>, w')))) \<and>
    (\<forall>a. lg_async lg = Some a \<longrightarrow> Logger_write env mem now now2 c (lg, w) =
        Some (Inr (False, lg\<lparr>lg_async := Some (AsyncLogging_append mem (lc_text c) a)\<rparr>, w)))"
proof -
  have top: "\<not> FATAL < l" if "l \<noteq> NUM_LOG_LEVELS" for l
    using that by (cases l) (simp_all add: less_log_level_def level_num_def)
  have "\<exists>h' w'. handler_write env now now2 c h w = Some (Inr (True, h', w'))" if "handler_level h \<noteq> NUM_LOG_LEVELS"
  proof (cases h)
    case (Console l)
    then show ?thesis using assms(1) top[of l] that by (simp add: handler_write_def ConsoleHandler_write_def handler_level_def)
  next
    case (ToFile f)
    then obtain g where g: "fh_file f = Some g" using assms(4) by auto
    obtain f1 d1 g1 where a: "FileHandler_append env now now2 (lc_text c) (f, lw_disk w) = Some (Inr (f1, d1))"
      "fh_file f1 = Some g1" using FileHandler_append_ok[OF assms(2) g] by blast
    obtain f2 d2 where "FileHandler_flush (f1, d1) = Inr (f2, d2)" using FileHandler_flush_ok[OF a(2)] by blast
    with a ToFile assms(1) top[of "fh_level f"] that[unfolded handler_level_def] show ?thesis by (simp add: handler_write_def FileHandler_write_def)
  qed
  then show ?thesis using assms(3) by (fastforce simp: Logger_write_def handlerWrite_def)
qed

definition two_handlers :: "async_log option \<Rightarrow> logger" where
  "two_handlers a = \<lparr>lg_name = [], lg_handlers = [(''a'', Console INFO), (''b'', ToFile new_file)], lg_async = a\<rparr>"

theorem fatal_aborts_unless_async_witness:
  "(\<exists>lg' w'. Logger_write (good_disk (\<lambda>_. [])) (\<lambda>_. 0) 1 1 \<lparr>lc_level = FATAL, lc_text = [120]\<rparr>
      (two_handlers None, \<lparr>lw_stdout = [], lw_disk = []\<rparr>) = Some (Inr (True, lg', w'))) \<and>
    (\<exists>lg' w'. Logger_write (good_disk (\<lambda>_. [])) (\<lambda>_. 0) 1 1 \<lparr>lc_level = FATAL, lc_text = [120]\<rparr>
      (two_handlers (Some started), \<lparr>lw_stdout = [], lw_disk = []\<rparr>) = Some (Inr (False, lg', w')))"
proof -
  have c: "lc_level \<lparr>lc_level = FATAL, lc_text = [120]\<rparr> = FATAL" by simp
  have lg: "lg_handlers (two_handlers a) = (''a'', Console INFO) # [(''b'', ToFile new_file)]"
    "\<forall>f. Console INFO = ToFile f \<longrightarrow> fh_file f \<noteq> None" "lg_async (two_handlers a) = a"
    "handler_level (Console INFO) \<noteq> NUM_LOG_LEVELS" for a
    by (simp_all add: two_handlers_def handler_level_def)
  note p = fatal_aborts_unless_async[OF c good_disk_ok[of "\<lambda>_. []"] lg(1) lg(2), where mem = "\<lambda>_. 0" and now = 1
      and ?now2.0 = 1 and w = "\<lparr>lw_stdout = [], lw_disk = []\<rparr>"]
  show ?thesis using p[of None] p[of "Some started"] lg(3)[of None] lg(3)[of "Some started"] lg(4) by blast
qed

end
