(* ===== verification/SockAddrs.thy ===== *)
theory SockAddrs
  imports Reactor
begin

text \<open>
  \<open>src/stnl/Socket.h\<close> and \<open>Socket.cpp\<close>: addresses as the bytes of the union they live in,
  and the calls on descriptors, which join the trace of kernel calls. \<open>inet_pton\<close> and
  \<open>inet_ntop\<close> are arguments, and so are the results of the kernel.
\<close>

section \<open>Addresses\<close>

text \<open>
  \<open>struct sockaddr_in\<close> has 16 bytes: family, port, address, eight unused.
  \<open>struct sockaddr_in6\<close> has 28: family, port, flow information, address, scope. The family
  is stored in host order (little endian), the port in network order.
\<close>

definition AF_INET :: "16 word" where "AF_INET = 2"
definition AF_INET6 :: "16 word" where "AF_INET6 = 10"

definition in_size :: nat where "in_size = 16"
definition in6_size :: nat where "in6_size = 28"

record inet =
  pton4 :: "string \<Rightarrow> byte list option"
  pton6 :: "string \<Rightarrow> byte list option"
  ntop4 :: "byte list \<Rightarrow> string"
  ntop6 :: "byte list \<Rightarrow> string"

record sockaddr =
  sa_mem :: "byte list"
  sa_ipv6 :: bool

definition put_at :: "nat \<Rightarrow> byte list \<Rightarrow> byte list \<Rightarrow> byte list" where
  "put_at pos bs mem = take pos mem @ bs @ drop (pos + length bs) mem"

definition get_at :: "nat \<Rightarrow> nat \<Rightarrow> byte list \<Rightarrow> byte list" where
  "get_at pos n mem = take n (drop pos mem)"

text \<open>\<open>htons\<close> and \<open>ntohs\<close> through memory, and the family field.\<close>

definition be16 :: "16 word \<Rightarrow> byte list" where
  "be16 p = [ucast (drop_bit 8 p), ucast p]"

definition of_be16 :: "byte list \<Rightarrow> 16 word" where
  "of_be16 bs = push_bit 8 (ucast (bs ! 0)) OR ucast (bs ! 1)"

definition le16 :: "16 word \<Rightarrow> byte list" where
  "le16 p = [ucast p, ucast (drop_bit 8 p)]"

definition of_le16 :: "byte list \<Rightarrow> 16 word" where
  "of_le16 bs = push_bit 8 (ucast (bs ! 1)) OR ucast (bs ! 0)"

text \<open>\<open>garbage\<close> is what the union's memory held before; an unparsable address leaves zeros.\<close>

definition SockAddr_new :: "inet \<Rightarrow> byte list \<Rightarrow> string \<Rightarrow> 16 word \<Rightarrow> bool \<Rightarrow> sockaddr" where
  "SockAddr_new net garbage ip port ipv6 =
     (if ipv6
      then let m0 = put_at 0 (replicate in6_size 0) garbage;
               m1 = put_at 0 (le16 AF_INET6) m0;
               m2 = (case pton6 net ip of None \<Rightarrow> m1 | Some a \<Rightarrow> put_at 8 a m1)
           in \<lparr>sa_mem = put_at 2 (be16 port) m2, sa_ipv6 = True\<rparr>
      else let m0 = put_at 0 (replicate in_size 0) garbage;
               m1 = put_at 0 (le16 AF_INET) m0;
               m2 = (case pton4 net ip of None \<Rightarrow> m1 | Some a \<Rightarrow> put_at 4 a m1)
           in \<lparr>sa_mem = put_at 2 (be16 port) m2, sa_ipv6 = False\<rparr>)"

definition SockAddr_of_in :: "byte list \<Rightarrow> byte list \<Rightarrow> sockaddr" where
  "SockAddr_of_in garbage a = \<lparr>sa_mem = put_at 0 a garbage, sa_ipv6 = False\<rparr>"

definition SockAddr_of_in6 :: "byte list \<Rightarrow> sockaddr" where
  "SockAddr_of_in6 a = \<lparr>sa_mem = a, sa_ipv6 = True\<rparr>"

definition SockAddr_copy :: "byte list \<Rightarrow> sockaddr \<Rightarrow> sockaddr" where
  "SockAddr_copy garbage s =
     (if sa_ipv6 s then \<lparr>sa_mem = sa_mem s, sa_ipv6 = True\<rparr>
      else \<lparr>sa_mem = put_at 0 (get_at 0 in_size (sa_mem s)) garbage, sa_ipv6 = False\<rparr>)"

definition ip_str :: "inet \<Rightarrow> sockaddr \<Rightarrow> string" where
  "ip_str net s =
     (if sa_ipv6 s then ntop6 net (get_at 8 16 (sa_mem s)) else ntop4 net (get_at 4 4 (sa_mem s)))"

text \<open>Both branches of \<open>port()\<close> read \<open>addr6_.sin6_port\<close>.\<close>

definition sa_port :: "sockaddr \<Rightarrow> 16 word" where
  "sa_port s = (if sa_ipv6 s then of_be16 (get_at 2 2 (sa_mem s)) else of_be16 (get_at 2 2 (sa_mem s)))"

text \<open>Callers of \<open>getSockAddr\<close> read 28 bytes through the pointer, whatever the kind.\<close>

definition getSockAddr :: "sockaddr \<Rightarrow> byte list" where
  "getSockAddr s = sa_mem s"

definition setSockAddr6 :: "byte list \<Rightarrow> sockaddr \<Rightarrow> sockaddr" where
  "setSockAddr6 a s = s\<lparr>sa_mem := a, sa_ipv6 := True\<rparr>"

definition setSockAddr4 :: "byte list \<Rightarrow> sockaddr \<Rightarrow> sockaddr" where
  "setSockAddr4 a s = s\<lparr>sa_mem := put_at 0 a (sa_mem s), sa_ipv6 := False\<rparr>"

definition sa_family :: "sockaddr \<Rightarrow> 16 word" where
  "sa_family s = of_le16 (get_at 0 2 (sa_mem s))"

section \<open>Descriptors\<close>

text \<open>Failures of these calls are only logged. The results of the kernel are arguments.\<close>

definition SocketUtil_bindAddress :: "int \<Rightarrow> byte list \<Rightarrow> 'z reactor_scheme \<Rightarrow> 'z reactor_scheme" where
  "SocketUtil_bindAddress fd addr = sys_call (SysBind fd (get_at 0 in6_size addr))"

definition SocketUtil_listenSocket :: "int \<Rightarrow> 'z reactor_scheme \<Rightarrow> 'z reactor_scheme" where
  "SocketUtil_listenSocket fd = sys_call (SysListen fd)"

text \<open>
  \<open>accept4\<close> returns \<open>res\<close> and writes the peer's address, \<open>peer\<close>, as far as \<open>addrlen\<close> allows;
  here that is the size of \<open>struct sockaddr\<close>, 16 bytes.
\<close>

definition SocketUtil_acceptSocket :: "int \<Rightarrow> int \<times> byte list \<Rightarrow> byte list \<Rightarrow> 'z reactor_scheme \<Rightarrow>
    int \<times> byte list \<times> 'z reactor_scheme" where
  "SocketUtil_acceptSocket fd outcome addr s =
     (case outcome of (res, peer) \<Rightarrow>
      (res, (if 0 \<le> res then put_at 0 (take in_size peer) addr else addr), sys_call (SysAccept fd) s))"

definition SocketUtil_connectSocket :: "int \<Rightarrow> int \<Rightarrow> byte list \<Rightarrow> 'z reactor_scheme \<Rightarrow> int \<times> 'z reactor_scheme" where
  "SocketUtil_connectSocket fd res addr s = (res, sys_call (SysConnect fd (get_at 0 in6_size addr)) s)"

definition SocketUtil_closeSocket :: "int \<Rightarrow> 'z reactor_scheme \<Rightarrow> 'z reactor_scheme" where
  "SocketUtil_closeSocket fd = sys_call (SysClose fd)"

definition SocketUtil_createSocket :: "int \<Rightarrow> 16 word \<Rightarrow> 'z reactor_scheme \<Rightarrow> int \<times> 'z reactor_scheme" where
  "SocketUtil_createSocket res domain s = (res, sys_call (SysSocket res domain) s)"

definition SocketUtil_createNonblockSocket :: "int \<Rightarrow> 16 word \<Rightarrow> 'z reactor_scheme \<Rightarrow> int \<times> 'z reactor_scheme" where
  "SocketUtil_createNonblockSocket res domain s = SocketUtil_createSocket res domain s"

definition SocketUtil_shutdownWrite :: "int \<Rightarrow> 'z reactor_scheme \<Rightarrow> 'z reactor_scheme" where
  "SocketUtil_shutdownWrite fd = sys_call (SysShutdownWrite fd)"

definition SocketUtil_setTcpNoDelay :: "int \<Rightarrow> bool \<Rightarrow> 'z reactor_scheme \<Rightarrow> 'z reactor_scheme" where
  "SocketUtil_setTcpNoDelay fd b = sys_call (SysSetTcpNoDelay fd b)"

definition SocketUtil_setAddrReuse :: "int \<Rightarrow> bool \<Rightarrow> 'z reactor_scheme \<Rightarrow> 'z reactor_scheme" where
  "SocketUtil_setAddrReuse fd b = sys_call (SysSetReuseAddr fd b)"

definition SocketUtil_setPortReuse :: "int \<Rightarrow> bool \<Rightarrow> 'z reactor_scheme \<Rightarrow> 'z reactor_scheme" where
  "SocketUtil_setPortReuse fd b = sys_call (SysSetReusePort fd b)"

definition SocketUtil_setKeepAlive :: "int \<Rightarrow> bool \<Rightarrow> 'z reactor_scheme \<Rightarrow> 'z reactor_scheme" where
  "SocketUtil_setKeepAlive fd b = sys_call (SysSetKeepAlive fd b)"

text \<open>\<open>name\<close> is the address \<open>getsockname\<close> or \<open>getpeername\<close> knows, \<open>None\<close> for an error.\<close>

definition SocketUtil_getLocalAddr :: "byte list option \<Rightarrow> byte list \<Rightarrow> sockaddr" where
  "SocketUtil_getLocalAddr name garbage =
     (let localAddr = replicate in_size 0;
          a = (case name of None \<Rightarrow> localAddr | Some n \<Rightarrow> put_at 0 (take in_size n) localAddr)
      in SockAddr_of_in garbage a)"

definition SocketUtil_getPeerAddr :: "byte list option \<Rightarrow> byte list \<Rightarrow> sockaddr" where
  "SocketUtil_getPeerAddr name garbage =
     (let peerAddr = replicate in_size 0;
          a = (case name of None \<Rightarrow> peerAddr | Some n \<Rightarrow> put_at 0 (take in_size n) peerAddr)
      in SockAddr_of_in garbage a)"

definition SocketUtil_getSocketError :: "(int \<times> int) option \<Rightarrow> int \<Rightarrow> int" where
  "SocketUtil_getSocketError opt errno = (case opt of None \<Rightarrow> errno | Some (_, optval) \<Rightarrow> optval)"

definition isSelfConnect :: "int \<Rightarrow> bool" where
  "isSelfConnect fd = False"

definition Socket_accept :: "int \<Rightarrow> int \<times> byte list \<Rightarrow> sockaddr \<Rightarrow> 'z reactor_scheme \<Rightarrow>
    int \<times> sockaddr \<times> 'z reactor_scheme" where
  "Socket_accept fd outcome addr s =
     (case SocketUtil_acceptSocket fd outcome (replicate in6_size 0) s of
        (connect_fd, addr6, s1) \<Rightarrow>
          (connect_fd, (if 0 \<le> connect_fd then setSockAddr6 addr6 addr else addr), s1))"

definition Socket_bindAddress :: "int \<Rightarrow> sockaddr \<Rightarrow> 'z reactor_scheme \<Rightarrow> 'z reactor_scheme" where
  "Socket_bindAddress fd a = SocketUtil_bindAddress fd (getSockAddr a)"

definition Socket_listen :: "int \<Rightarrow> 'z reactor_scheme \<Rightarrow> 'z reactor_scheme" where
  "Socket_listen fd = SocketUtil_listenSocket fd"

definition Socket_shutdownWrite :: "int \<Rightarrow> 'z reactor_scheme \<Rightarrow> 'z reactor_scheme" where
  "Socket_shutdownWrite fd = SocketUtil_shutdownWrite fd"

definition Socket_setAddrReuse :: "int \<Rightarrow> bool \<Rightarrow> 'z reactor_scheme \<Rightarrow> 'z reactor_scheme" where
  "Socket_setAddrReuse fd b = SocketUtil_setAddrReuse fd b"

definition Socket_setKeepAlive :: "int \<Rightarrow> bool \<Rightarrow> 'z reactor_scheme \<Rightarrow> 'z reactor_scheme" where
  "Socket_setKeepAlive fd b = SocketUtil_setKeepAlive fd b"

definition Socket_setPortReuse :: "int \<Rightarrow> bool \<Rightarrow> 'z reactor_scheme \<Rightarrow> 'z reactor_scheme" where
  "Socket_setPortReuse fd b = SocketUtil_setPortReuse fd b"

definition Socket_setTcpNoDelay :: "int \<Rightarrow> bool \<Rightarrow> 'z reactor_scheme \<Rightarrow> 'z reactor_scheme" where
  "Socket_setTcpNoDelay fd b = SocketUtil_setTcpNoDelay fd b"

definition Socket_delete :: "int \<Rightarrow> 'z reactor_scheme \<Rightarrow> 'z reactor_scheme" where
  "Socket_delete fd = SocketUtil_closeSocket fd"

section \<open>Fields\<close>

lemma length_put_at [simp]: "pos + length bs \<le> length mem \<Longrightarrow> length (put_at pos bs mem) = length mem"
  by (simp add: put_at_def)

lemma get_put_same [simp]: "pos + length bs \<le> length mem \<Longrightarrow> n = length bs \<Longrightarrow> get_at pos n (put_at pos bs mem) = bs"
  by (simp add: get_at_def put_at_def)

lemma get_put_before: "pos + n \<le> q \<Longrightarrow> q \<le> length mem \<Longrightarrow> get_at pos n (put_at q bs mem) = get_at pos n mem"
  unfolding get_at_def put_at_def by (rule read_before)

lemma get_put_after:
  assumes "q + length bs \<le> pos" and "q \<le> length mem"
  shows "get_at pos n (put_at q bs mem) = get_at pos n mem"
  using assms by (simp add: get_at_def put_at_def)

lemma be16_back [simp]: "of_be16 (be16 p) = p"
  by (rule bit_word_eqI) (auto simp: of_be16_def be16_def bit_simps)

lemma le16_back [simp]: "of_le16 (le16 p) = p"
  by (rule bit_word_eqI) (auto simp: of_le16_def le16_def bit_simps)

lemma field_lengths [simp]: "length (be16 p) = 2" "length (le16 p) = 2"
  by (simp_all add: be16_def le16_def)

text \<open>The fields of a \<open>sockaddr_in\<close> the kernel writes, and of the start of any address.\<close>

definition in_bytes :: "16 word \<Rightarrow> byte list \<Rightarrow> byte list" where
  "in_bytes port ip4 = le16 AF_INET @ be16 port @ ip4 @ replicate 8 0"

lemma in_bytes_fields:
  assumes "length ip4 = 4"
  shows "length (in_bytes port ip4) = in_size" and "get_at 0 2 (in_bytes port ip4 @ r) = le16 AF_INET"
    and "get_at 2 2 (in_bytes port ip4 @ r) = be16 port" and "get_at 4 4 (in_bytes port ip4 @ r) = ip4"
    and "get_at 8 16 (in_bytes port ip4 @ replicate 12 0) = replicate 16 0"
  using assms by (simp_all add: in_bytes_def in_size_def get_at_def le16_def be16_def numeral_eq_Suc)

lemma put_start: "length bs \<le> length mem \<Longrightarrow> put_at 0 bs mem = bs @ drop (length bs) mem"
  by (simp add: put_at_def)

section \<open>Properties\<close>

lemma new4_fields:
  assumes "pton4 net ip = Some a" and "length a = 4" and "length garbage = in6_size"
    and s: "s = SockAddr_new net garbage ip port False"
  shows "get_at 4 4 (sa_mem s) = a" and "get_at 2 2 (sa_mem s) = be16 port" and "get_at 0 2 (sa_mem s) = le16 AF_INET"
    and "length (sa_mem s) = in6_size" and "sa_ipv6 s = False"
  using assms
  by (simp_all add: SockAddr_new_def in6_size_def in_size_def get_put_after get_put_before)

lemma new6_fields:
  assumes "pton6 net ip = Some a" and "length a = 16" and "length garbage = in6_size"
    and s: "s = SockAddr_new net garbage ip port True"
  shows "get_at 8 16 (sa_mem s) = a" and "get_at 2 2 (sa_mem s) = be16 port" and "get_at 0 2 (sa_mem s) = le16 AF_INET6"
    and "sa_ipv6 s = True"
  using assms
  by (simp_all add: SockAddr_new_def in6_size_def in_size_def get_put_after get_put_before)

lemma copy_fields:
  assumes "length (sa_mem s) = in6_size" and "length garbage = in6_size" and "pos + n \<le> in_size"
  shows "get_at pos n (sa_mem (SockAddr_copy garbage s)) = get_at pos n (sa_mem s)"
proof (cases "sa_ipv6 s")
  case False
  have len: "length (get_at 0 in_size (sa_mem s)) = in_size" using assms(1) by (simp add: get_at_def in6_size_def in_size_def)
  then have "sa_mem (SockAddr_copy garbage s) = get_at 0 in_size (sa_mem s) @ drop in_size garbage"
    using False assms(2) put_start[of "get_at 0 in_size (sa_mem s)" garbage]
    by (simp add: SockAddr_copy_def in6_size_def in_size_def)
  then show ?thesis using assms by (simp add: get_at_def in6_size_def in_size_def drop_take min_def)
qed (simp add: SockAddr_copy_def)

text \<open>An address gives back what it was made from: for an address string in the form \<open>inet_ntop\<close> prints, of
  either kind, a \<open>SockAddr\<close> made from it and a port, and any copy of it, report that string, that
  port (both kinds through the field of \<open>sockaddr_in6\<close>) and the right family, whatever the memory
  of the union held before.\<close>

theorem address_roundtrip:
  assumes "length garbage = in6_size" and "length garbage' = in6_size"
    and "if ipv6 then pton6 net ip = Some a \<and> length a = 16 \<and> ntop6 net a = ip
         else pton4 net ip = Some a \<and> length a = 4 \<and> ntop4 net a = ip"
    and "t = SockAddr_new net garbage ip port ipv6 \<or> t = SockAddr_copy garbage' (SockAddr_new net garbage ip port ipv6)"
  shows "ip_str net t = ip \<and> sa_port t = port \<and> sa_family t = (if ipv6 then AF_INET6 else AF_INET) \<and> sa_ipv6 t = ipv6"
proof (cases ipv6)
  case True
  then have a: "pton6 net ip = Some a" "length a = 16" "ntop6 net a = ip" using assms(3) by simp_all
  note f = new6_fields[OF a(1,2) assms(1) refl, of port]
  have "t = SockAddr_new net garbage ip port True"
    using assms(4) True f(4) by (auto simp: SockAddr_copy_def)
  then show ?thesis using True a(3) f by (simp add: ip_str_def sa_port_def sa_family_def)
next
  case False
  then have a: "pton4 net ip = Some a" "length a = 4" "ntop4 net a = ip" using assms(3) by simp_all
  let ?s = "SockAddr_new net garbage ip port False"
  note f = new4_fields[OF a(1,2) assms(1) refl, of port]
  have c: "get_at pos n (sa_mem (SockAddr_copy garbage' ?s)) = get_at pos n (sa_mem ?s)" if "pos + n \<le> in_size" for pos n
    by (rule copy_fields[OF f(4) assms(2) that])
  have "get_at 4 4 (sa_mem t) = a" "get_at 2 2 (sa_mem t) = be16 port" "get_at 0 2 (sa_mem t) = le16 AF_INET" "sa_ipv6 t = False"
    using assms(4) False f c[of 4 4] c[of 2 2] c[of 0 2] by (auto simp: in_size_def SockAddr_copy_def)
  then show ?thesis using False a(3) by (simp add: ip_str_def sa_port_def sa_family_def)
qed

definition toy_inet :: inet where
  "toy_inet = \<lparr>pton4 = (\<lambda>s. if s = ''1.2.3.4'' then Some [1, 2, 3, 4] else None), pton6 = (\<lambda>_. None),
     ntop4 = (\<lambda>bs. if bs = [1, 2, 3, 4] then ''1.2.3.4'' else ''0.0.0.0''), ntop6 = (\<lambda>_. ''::'')\<rparr>"

theorem address_roundtrip_witness:
  "ip_str toy_inet (SockAddr_copy (replicate 28 7) (SockAddr_new toy_inet (replicate 28 9) ''1.2.3.4'' 8080 False)) = ''1.2.3.4''"
  using address_roundtrip[of "replicate 28 9" "replicate 28 7" False toy_inet "''1.2.3.4''" "[1, 2, 3, 4]"
      "SockAddr_copy (replicate 28 7) (SockAddr_new toy_inet (replicate 28 9) ''1.2.3.4'' 8080 False)" 8080]
  by (simp add: toy_inet_def in6_size_def)

text \<open>\<open>Socket::accept\<close> loses the address of every IPv4 peer: the kernel's \<open>sockaddr_in\<close> is taken for a
  \<open>sockaddr_in6\<close>, so the address accepted for any IPv4 peer is of the IPv6 kind, prints as the
  zero IPv6 address, and keeps only the port; peers with the same port are indistinguishable.\<close>

theorem accept_loses_ipv4_peer:
  assumes "length ip4 = 4" and "0 \<le> res"
  shows "\<exists>a'. Socket_accept fd (res, in_bytes port ip4) addr s = (res, a', sys_call (SysAccept fd) s) \<and>
    ip_str net a' = ntop6 net (replicate 16 0) \<and> sa_port a' = port \<and> sa_ipv6 a' \<and> sa_family a' = AF_INET"
proof -
  note f = in_bytes_fields[OF assms(1), of port]
  have "put_at 0 (take in_size (in_bytes port ip4)) (replicate in6_size 0) = in_bytes port ip4 @ replicate 12 0"
    using f(1) by (simp add: put_at_def in6_size_def in_size_def)
  then show ?thesis
    using assms(2) f(2,3,5) 
    by (simp add: Socket_accept_def SocketUtil_acceptSocket_def setSockAddr6_def ip_str_def sa_port_def sa_family_def)
qed

theorem accept_loses_ipv4_peer_witness:
  "\<exists>a'. Socket_accept 5 (9, in_bytes 4242 [10, 0, 0, 1]) \<lparr>sa_mem = [], sa_ipv6 = False\<rparr> Epoll_new =
      (9, a', sys_call (SysAccept 5) Epoll_new) \<and> ip_str toy_inet a' = ''::'' \<and> sa_port a' = 4242"
  using accept_loses_ipv4_peer[of "[10, 0, 0, 1]" 9 5 4242 "\<lparr>sa_mem = [], sa_ipv6 = False\<rparr>" Epoll_new toy_inet]
  by (auto simp: toy_inet_def)

end
