(* ===== verification/Connectors.thy ===== *)
theory Connectors
  imports ConnSystem SockAddrs
begin

text \<open>
  \<open>src/stnl/Connector.h\<close> and \<open>Connector.cpp\<close>: the connect state machine with its retries. The
  loop's state is extended by the fields of its connector; the results of the kernel, the
  addresses of new objects, the clock and the new-connection callback are arguments
  (\<open>conn_kernel\<close>).
\<close>

section \<open>State\<close>

datatype connector_state = C_DISCONNECTED | C_CONNECTING | C_CONNECTED

definition RetryDelayMs :: int where "RetryDelayMs = 500"
definition MaxRetryDelayMs :: int where "MaxRetryDelayMs = 30000"

text \<open>\<open>kc_given\<close>: the descriptors handed to the new-connection callback, for the properties.\<close>

record kloop = wloop +
  kc_serverAddr :: sockaddr
  kc_channel :: "ptr option"
  kc_state :: connector_state
  kc_connect :: bool
  kc_retryDelayMs :: int
  kc_given :: "int list"

record 'w conn_kernel =
  ke_socket :: "'w \<Rightarrow> int"
  ke_connect :: "'w \<Rightarrow> int"
  ke_soerror :: "int \<Rightarrow> 'w \<Rightarrow> int"
  ke_chan :: "'w \<Rightarrow> ptr"
  ke_timer :: "'w \<Rightarrow> ptr"
  ke_now :: "'w \<Rightarrow> timestamp"
  ke_rnd :: "rat \<Rightarrow> rat"
  ke_new :: "int \<Rightarrow> 'w \<Rightarrow> 'w result"

definition Connector_new :: "sockaddr \<Rightarrow> wloop \<Rightarrow> kloop" where
  "Connector_new serverAddr s = wloop.extend s
     \<lparr>kc_serverAddr = serverAddr, kc_channel = None, kc_state = C_DISCONNECTED, kc_connect = False,
      kc_retryDelayMs = RetryDelayMs, kc_given = []\<rparr>"

section \<open>Error numbers\<close>

definition EINTR :: int where "EINTR = 4"
definition EAGAIN :: int where "EAGAIN = 11"
definition EADDRINUSE :: int where "EADDRINUSE = 98"
definition EADDRNOTAVAIL :: int where "EADDRNOTAVAIL = 99"
definition ENETUNREACH :: int where "ENETUNREACH = 101"
definition EISCONN :: int where "EISCONN = 106"
definition ECONNREFUSED :: int where "ECONNREFUSED = 111"
definition EINPROGRESS :: int where "EINPROGRESS = 115"

lemmas errnos = EINTR_def EAGAIN_def EADDRINUSE_def EADDRNOTAVAIL_def ENETUNREACH_def EISCONN_def
  ECONNREFUSED_def EINPROGRESS_def

datatype connect_class = GoOn | TryAgain | GiveUp

definition connect_class_of :: "int \<Rightarrow> connect_class" where
  "connect_class_of savedErrno =
     (if savedErrno \<in> {0, EINPROGRESS, EINTR, EISCONN} then GoOn
      else if savedErrno \<in> {EAGAIN, EADDRINUSE, EADDRNOTAVAIL, ECONNREFUSED, ENETUNREACH} then TryAgain
      else GiveUp)"

section \<open>Operations\<close>

definition Connector_connecting :: "('z kloop_scheme) conn_kernel \<Rightarrow> int \<Rightarrow> 'z kloop_scheme \<Rightarrow> 'z kloop_scheme result" where
  "Connector_connecting K sockfd s0 =
     (let s = s0\<lparr>kc_state := C_CONNECTING\<rparr>; p = ke_chan K s in
      assert_c (kc_channel s = None)
       (check BadAlloc (rx_chans s p = None)
        (let ch = (Channel_make sockfd)\<lparr>ch_writeCb := Some CbConnectorWrite, ch_errorCb := Some CbConnectorError\<rparr>
         in enableWrite p (Channel_put p ch (s\<lparr>kc_channel := Some p\<rparr>)))))"

definition Connector_retry :: "('z kloop_scheme) conn_kernel \<Rightarrow> int \<Rightarrow> 'z kloop_scheme \<Rightarrow> 'z kloop_scheme result" where
  "Connector_retry K sockfd s0 =
     (let s = (SocketUtil_closeSocket sockfd s0)\<lparr>kc_state := C_DISCONNECTED\<rparr> in
      if kc_connect s
      then bindr (runAfter (ke_rnd K) True (ke_now K s) (ke_timer K s) (of_int (kc_retryDelayMs s) / 1000)
                   (Some FnConnectorStart) s)
            (\<lambda>(tid, s1). Inr (s1\<lparr>kc_retryDelayMs := min (kc_retryDelayMs s1 * 2) MaxRetryDelayMs\<rparr>))
      else Inr s)"

definition Connector_connect :: "('z kloop_scheme) conn_kernel \<Rightarrow> 'z kloop_scheme \<Rightarrow> 'z kloop_scheme result" where
  "Connector_connect K s0 =
     (case SocketUtil_createNonblockSocket (ke_socket K s0) (sa_family (kc_serverAddr s0)) s0 of
        (sockfd, s1) \<Rightarrow>
      case SocketUtil_connectSocket sockfd (if ke_connect K s1 = 0 then 0 else - 1) (getSockAddr (kc_serverAddr s1)) s1 of
        (ret, s) \<Rightarrow>
      let savedErrno = (if ret = 0 then 0 else ke_connect K s1) in
      case connect_class_of savedErrno of
        GoOn \<Rightarrow> Connector_connecting K sockfd s
      | TryAgain \<Rightarrow> Connector_retry K sockfd s
      | GiveUp \<Rightarrow> Inr (SocketUtil_closeSocket sockfd s))"

definition startInLoop :: "('z kloop_scheme) conn_kernel \<Rightarrow> bool \<Rightarrow> 'z kloop_scheme \<Rightarrow> 'z kloop_scheme result" where
  "startInLoop K inLoop s =
     assertInLoopThread inLoop
      (assert_c (kc_state s = C_DISCONNECTED) (if kc_connect s then Connector_connect K s else Inr s))"

definition removeAndResetChannel :: "bool \<Rightarrow> 'z kloop_scheme \<Rightarrow> (int \<times> 'z kloop_scheme) result" where
  "removeAndResetChannel inLoop s =
     (case kc_channel s of
        None \<Rightarrow> Inl DanglingPointer
      | Some p \<Rightarrow> bindr (disableAll p s) (\<lambda>s1. bindr (Channel_remove p s1) (\<lambda>s2. bindr (deref (rx_chans s2) p)
          (\<lambda>ch. Inr (ch_fd ch, queueInLoop inLoop FnConnectorResetChannel s2)))))"

definition resetChannel :: "'z kloop_scheme \<Rightarrow> 'z kloop_scheme" where
  "resetChannel s =
     (case kc_channel s of None \<Rightarrow> s | Some p \<Rightarrow> (Channel_destroy p s)\<lparr>kc_channel := None\<rparr>)"

definition stopInLoop :: "('z kloop_scheme) conn_kernel \<Rightarrow> bool \<Rightarrow> 'z kloop_scheme \<Rightarrow> 'z kloop_scheme result" where
  "stopInLoop K inLoop s =
     assertInLoopThread inLoop
      (if kc_state s = C_CONNECTING
       then bindr (removeAndResetChannel inLoop (s\<lparr>kc_state := C_DISCONNECTED\<rparr>)) (\<lambda>(sockfd, s1). Connector_retry K sockfd s1)
       else Inr s)"

definition Connector_start :: "('z kloop_scheme) conn_kernel \<Rightarrow> bool \<Rightarrow> 'z kloop_scheme \<Rightarrow> 'z kloop_scheme result" where
  "Connector_start K inLoop s =
     runInLoop (\<lambda>_. startInLoop K inLoop) inLoop (Some FnConnectorStart) (s\<lparr>kc_connect := True\<rparr>)"

definition Connector_restart :: "('z kloop_scheme) conn_kernel \<Rightarrow> bool \<Rightarrow> 'z kloop_scheme \<Rightarrow> 'z kloop_scheme result" where
  "Connector_restart K inLoop s =
     assertInLoopThread inLoop
      (startInLoop K inLoop (s\<lparr>kc_state := C_DISCONNECTED, kc_retryDelayMs := RetryDelayMs, kc_connect := True\<rparr>))"

definition Connector_stop :: "bool \<Rightarrow> 'z kloop_scheme \<Rightarrow> 'z kloop_scheme" where
  "Connector_stop inLoop s = queueInLoop inLoop FnConnectorStop (s\<lparr>kc_connect := False\<rparr>)"

definition Connector_handleWrite :: "('z kloop_scheme) conn_kernel \<Rightarrow> 'z kloop_scheme \<Rightarrow> 'z kloop_scheme result" where
  "Connector_handleWrite K s =
     (if kc_state s = C_CONNECTING
      then bindr (removeAndResetChannel True s) (\<lambda>(sockfd, s1).
        let err = ke_soerror K sockfd s1 in
        if err \<noteq> 0 then Connector_retry K sockfd s1
        else if isSelfConnect sockfd then Connector_retry K sockfd s1
        else let s2 = s1\<lparr>kc_state := C_CONNECTED\<rparr> in
             if kc_connect s2 then ke_new K sockfd s2
             else Inr (SocketUtil_closeSocket sockfd s2))
      else assert_c (kc_state s = C_DISCONNECTED) (Inr s))"

definition Connector_handleError :: "('z kloop_scheme) conn_kernel \<Rightarrow> 'z kloop_scheme \<Rightarrow> 'z kloop_scheme result" where
  "Connector_handleError K s =
     (if kc_state s = C_CONNECTING
      then bindr (removeAndResetChannel True s) (\<lambda>(sockfd, s1). Connector_retry K sockfd s1)
      else Inr s)"

definition connector_callback :: "('z kloop_scheme) conn_kernel \<Rightarrow> callback \<Rightarrow> 'z kloop_scheme \<Rightarrow> 'z kloop_scheme result" where
  "connector_callback K cb s =
     (case cb of
        CbConnectorWrite \<Rightarrow> Connector_handleWrite K s
      | CbConnectorError \<Rightarrow> Connector_handleError K s
      | _ \<Rightarrow> Inr s)"

definition connector_exec :: "('z kloop_scheme) conn_kernel \<Rightarrow> task \<Rightarrow> 'z kloop_scheme \<Rightarrow> 'z kloop_scheme result" where
  "connector_exec K f s =
     (case f of
        FnConnectorStart \<Rightarrow> startInLoop K True s
      | FnConnectorStop \<Rightarrow> stopInLoop K True s
      | FnConnectorResetChannel \<Rightarrow> Inr (resetChannel s)
      | _ \<Rightarrow> Inr s)"

text \<open>The callback of the properties notes the descriptor it was given.\<close>

definition hand_over :: "int \<Rightarrow> 'z kloop_scheme \<Rightarrow> 'z kloop_scheme result" where
  "hand_over fd s = Inr (s\<lparr>kc_given := kc_given s @ [fd]\<rparr>)"

section \<open>Frames\<close>

definition closes :: "int \<Rightarrow> syscall list \<Rightarrow> nat" where
  "closes fd tr = length (filter (\<lambda>k. k = SysClose fd) tr)"

lemma closes_simps [simp]:
  "closes fd [] = 0" "closes fd (tr @ tr') = closes fd tr + closes fd tr'"
  "closes fd (k # tr) = (if k = SysClose fd then 1 else 0) + closes fd tr"
  by (simp_all add: closes_def)

definition kc_same :: "'z kloop_scheme \<Rightarrow> 'z kloop_scheme \<Rightarrow> bool" where
  "kc_same s t \<longleftrightarrow> kc_channel t = kc_channel s \<and> kc_state t = kc_state s \<and> kc_connect t = kc_connect s \<and>
     kc_retryDelayMs t = kc_retryDelayMs s \<and> kc_given t = kc_given s \<and> kc_serverAddr t = kc_serverAddr s"

lemma kc_same_more: "tloop.more t = tloop.more s \<Longrightarrow> kc_same s t"
  by (cases s; cases t) (simp add: kc_same_def)

lemma insertInLoop_keeps:
  assumes "insertInLoop True now p s = Inr t"
  shows "tloop.more t = tloop.more s" and "rx_chans t = rx_chans s" and "rx_channelMap t = rx_channelMap s"
    and "\<exists>tr. rx_trace t = rx_trace s @ tr \<and> closes fd tr = 0"
  using assms
  by (auto simp: insertInLoop_def tq_insert_def resetTimerfd_def assertInLoopThread_def bindr_eq_Inr sys_call_def
      split: if_splits)

lemma runAfter_keeps:
  assumes "tq_inv vec s" and "runAfter rnd True now p delay cb s = Inr (tid, t)"
  shows "tloop.more t = tloop.more s" and "rx_chans t = rx_chans s" and "rx_channelMap t = rx_channelMap s"
    and "closes fd (rx_trace t) = closes fd (rx_trace s)" and "el_pending t = el_pending s"
    and "tq_inv vec t" and "\<exists>e tm. (e, p) \<in> set (tq_timers t) \<and> tq_heap t p = Some tm \<and> tm_callback tm = cb"
proof -
  obtain e where "runAt True now p e cb s = Inr (tid, t)"
    using assms(2) by (auto simp: runAfter_def bindr_eq_Inr)
  then obtain u where new: "Timer_new p cb e 0 s = Inr (tid, u)" and ins: "insertInLoop True now p u = Inr t"
    by (auto simp: runAt_def TimerQueue_insert_def bindr_eq_Inr runInLoop_def)
  have free: "tq_heap s p = None" using new by (auto simp: Timer_new_def)
  obtain u' where u: "Timer_new p cb e 0 s = Inr ((tq_count s + 1, p), u')" "tq_inv (p # vec) u'"
    "u' = s\<lparr>tq_count := tq_count s + 1, tq_heap := (tq_heap s)(p \<mapsto>
      \<lparr>tm_callback = cb, tm_expiration = e, tm_interval = 0, tm_repeat = (0 > (0::rat)),
       tm_id = (tq_count s + 1, p)\<rparr>)\<rparr>"
    using Timer_new_ok[OF assms(1) free] by blast
  have uu: "u = u'" using new u(1) by simp
  note k = insertInLoop_keeps[OF ins]
  note o = ok_resD[OF insertInLoop_frame[OF u(2)[folded uu]] ins]
  show "tloop.more t = tloop.more s" "rx_chans t = rx_chans s" "rx_channelMap t = rx_channelMap s"
    using k(1-3) uu u(3) by simp_all
  obtain tr where "rx_trace t = rx_trace u @ tr" "closes fd tr = 0" using k(4) by blast
  then show "closes fd (rx_trace t) = closes fd (rx_trace s)" using uu u(3) by simp
  show "el_pending t = el_pending s" "tq_inv vec t" using o uu u(3) by simp_all
  show "\<exists>e tm. (e, p) \<in> set (tq_timers t) \<and> tq_heap t p = Some tm \<and> tm_callback tm = cb"
    using o uu u(3) by auto
qed

text \<open>\<open>retry\<close>: the descriptor is closed and, if connecting is still wanted, a timer is set.\<close>

definition retry_post :: "('z kloop_scheme) conn_kernel \<Rightarrow> int \<Rightarrow> 'z kloop_scheme \<Rightarrow> 'z kloop_scheme \<Rightarrow> bool" where
  "retry_post K sockfd s t \<longleftrightarrow> kc_state t = C_DISCONNECTED \<and> kc_channel t = kc_channel s \<and> kc_connect t = kc_connect s \<and>
     kc_given t = kc_given s \<and> rx_chans t = rx_chans s \<and> el_pending t = el_pending s \<and>
     (\<forall>fd. closes fd (rx_trace t) = closes fd (rx_trace s) + (if fd = sockfd then 1 else 0)) \<and>
     (if kc_connect s
      then kc_retryDelayMs t = min (kc_retryDelayMs s * 2) MaxRetryDelayMs \<and>
        (\<exists>e p tm. (e, p) \<in> set (tq_timers t) \<and> tq_heap t p = Some tm \<and> tm_callback tm = Some FnConnectorStart)
      else kc_retryDelayMs t = kc_retryDelayMs s \<and> tq_timers t = tq_timers s)"

lemma tq_inv_fields [simp]:
  "tq_inv vec (s\<lparr>kc_state := st\<rparr>) = tq_inv vec s" "tq_inv vec (s\<lparr>kc_connect := b\<rparr>) = tq_inv vec s"
  by (simp_all add: tq_inv_def)

lemma runAfter_env:
  assumes "tq_inv vec s"
  shows "ok_res (\<lambda>_. True) (runAfter rnd True now p delay cb s)"
proof -
  have "ok_res (\<lambda>_. True) (runAt True now p e cb s)" for e
  proof (cases "tq_heap s p")
    case None
    obtain u where u: "Timer_new p cb e 0 s = Inr ((tq_count s + 1, p), u)" "tq_inv (p # vec) u"
      using Timer_new_ok[OF assms None] by blast
    have "ok_res (\<lambda>_. True) (bindr (insertInLoop True now p u) (\<lambda>s2. Inr ((tq_count s + 1, p), s2)))"
      by (rule ok_res_bindr[OF insertInLoop_frame[OF u(2)]]) simp
    then show ?thesis using u(1) by (simp add: runAt_def TimerQueue_insert_def runInLoop_def)
  next
    case (Some tm)
    then show ?thesis by (simp add: runAt_def TimerQueue_insert_def Timer_new_def env_fault_def)
  qed
  then show ?thesis unfolding runAfter_def by (intro ok_res_bindr[OF addTime_ok])
qed

lemma retry_ok:
  assumes inv: "tq_inv vec s"
  shows "ok_res (retry_post K sockfd s) (Connector_retry K sockfd s)"
proof -
  let ?s = "(SocketUtil_closeSocket sockfd s)\<lparr>kc_state := C_DISCONNECTED\<rparr>"
  have f: "kc_connect ?s = kc_connect s" "rx_trace ?s = rx_trace s @ [SysClose sockfd]" "rx_chans ?s = rx_chans s"
    "el_pending ?s = el_pending s" "tq_timers ?s = tq_timers s" "kc_given ?s = kc_given s" "kc_channel ?s = kc_channel s"
    "kc_retryDelayMs ?s = kc_retryDelayMs s"
    by (simp_all add: SocketUtil_closeSocket_def sys_call_def)
  have i: "tq_inv vec ?s" using inv by (simp add: SocketUtil_closeSocket_def)
  show ?thesis
  proof (cases "kc_connect s")
    case False
    then have "Connector_retry K sockfd s = Inr ?s" using f(1) by (simp add: Connector_retry_def)
    then show ?thesis using False f by (simp add: retry_post_def)
  next
    case True
    let ?r = "runAfter (ke_rnd K) True (ke_now K ?s) (ke_timer K ?s) (of_int (kc_retryDelayMs ?s) / 1000) (Some FnConnectorStart) ?s"
    have eq: "Connector_retry K sockfd s =
        bindr ?r (\<lambda>(tid, s1). Inr (s1\<lparr>kc_retryDelayMs := min (kc_retryDelayMs s1 * 2) MaxRetryDelayMs\<rparr>))"
      using True f(1) by (simp add: Connector_retry_def)
    show ?thesis
      unfolding eq
    proof (rule ok_res_bindr[OF runAfter_env[OF i]])
      fix x assume r: "?r = Inr x"
      obtain tid t where x: "x = (tid, t)" by (cases x)
      note k = runAfter_keeps[OF i r[unfolded x]]
      have "kc_same ?s t" by (rule kc_same_more[OF k(1)])
      then show "ok_res (retry_post K sockfd s) (case x of (tid, s1) \<Rightarrow>
          Inr (s1\<lparr>kc_retryDelayMs := min (kc_retryDelayMs s1 * 2) MaxRetryDelayMs\<rparr>))"
        using k(2,4,5,7) x f True by (simp add: kc_same_def retry_post_def) blast
    qed
  qed
qed

section \<open>One attempt\<close>

text \<open>The channel of an attempt while the kernel connects: registered for writing only.\<close>

definition connector_watching :: "ptr \<Rightarrow> channel \<Rightarrow> 'z kloop_scheme \<Rightarrow> bool" where
  "connector_watching p ch s \<longleftrightarrow> rx_inv s \<and> kc_state s = C_CONNECTING \<and> kc_channel s = Some p \<and>
     rx_chans s p = Some ch \<and> ch_state ch = ADDED \<and> ch_writeCb ch = Some CbConnectorWrite \<and>
     ch_errorCb ch = Some CbConnectorError \<and> ch_readCb ch = None \<and> ch_closeCb ch = None"

definition idle_channel :: "channel \<Rightarrow> channel" where
  "idle_channel ch = ch\<lparr>ch_requested := 0, ch_state := NEW\<rparr>"

lemma idle_channel_simps [simp]:
  "ch_fd (idle_channel ch) = ch_fd ch" "ch_state (idle_channel ch) = NEW"
  "ch_returned (idle_channel ch) = ch_returned ch" "ch_writeCb (idle_channel ch) = ch_writeCb ch"
  "ch_readCb (idle_channel ch) = ch_readCb ch" "ch_errorCb (idle_channel ch) = ch_errorCb ch"
  "ch_closeCb (idle_channel ch) = ch_closeCb ch"
  by (simp_all add: idle_channel_def)

definition detached :: "ptr \<Rightarrow> channel \<Rightarrow> 'z kloop_scheme \<Rightarrow> 'z kloop_scheme" where
  "detached p ch s = queueInLoop True FnConnectorResetChannel
     (s\<lparr>rx_chans := (rx_chans s)(p \<mapsto> idle_channel ch), rx_channelMap := (rx_channelMap s)(ch_fd ch := None),
        rx_trace := rx_trace s @ [SysEpollCtl CtlDel (ch_fd ch) 0 p]\<rparr>)"

lemma queueInLoop_kc [simp]:
  "kc_channel (queueInLoop b f s) = kc_channel s" "kc_state (queueInLoop b f s) = kc_state s"
  "kc_connect (queueInLoop b f s) = kc_connect s" "kc_retryDelayMs (queueInLoop b f s) = kc_retryDelayMs s"
  "kc_given (queueInLoop b f s) = kc_given s" "kc_serverAddr (queueInLoop b f s) = kc_serverAddr s"
  "tq_timers (queueInLoop b f s) = tq_timers s" "tq_heap (queueInLoop b f s) = tq_heap s"
  "tq_active (queueInLoop b f s) = tq_active s"
  by (simp_all add: queueInLoop_def queue_push_def wakeup_def sys_call_def)

lemma detached_simps [simp]:
  "kc_channel (detached p ch s) = kc_channel s" "kc_state (detached p ch s) = kc_state s"
  "kc_connect (detached p ch s) = kc_connect s" "kc_retryDelayMs (detached p ch s) = kc_retryDelayMs s"
  "kc_given (detached p ch s) = kc_given s" "tq_timers (detached p ch s) = tq_timers s"
  "rx_chans (detached p ch s) = (rx_chans s)(p \<mapsto> idle_channel ch)"
  "el_pending (detached p ch s) = el_pending s @ [FnConnectorResetChannel]"
  "closes fd (rx_trace (detached p ch s)) = closes fd (rx_trace s)"
  "tq_inv vec (detached p ch s) = tq_inv vec s"
  by (simp_all add: detached_def tq_inv_def)

lemma remove_reset:
  assumes inv: "rx_inv s" and ch: "kc_channel s = Some p" "rx_chans s p = Some ch" "ch_state ch = ADDED"
  shows "removeAndResetChannel True s = Inr (ch_fd ch, detached p ch s)"
proof -
  let ?a = "request_result p ch 0 s"
  have dis: "disableAll p s = Inr ?a"
    using rx_request_law[OF inv ch(2)] by (simp add: disableAll_def kNoneEvent_def)
  have chan: "rx_chans ?a p = Some (requested_with 0 ch)" by (simp add: request_result_def)
  show ?thesis
    using dis ch Channel_remove_eq[OF chan]
    by (simp add: removeAndResetChannel_def request_result_def requested_with_def detached_def idle_channel_def)
qed

text \<open>How an attempt may end: handed over, closed on a cancelled success, or closed and retried.\<close>

definition settled :: "int \<Rightarrow> int \<Rightarrow> bool \<Rightarrow> 'z kloop_scheme \<Rightarrow> 'z kloop_scheme \<Rightarrow> bool" where
  "settled fd err write_event s t \<longleftrightarrow>
     (if write_event \<and> err = 0
      then kc_state t = C_CONNECTED \<and> tq_timers t = tq_timers s \<and> kc_retryDelayMs t = kc_retryDelayMs s \<and>
           (if kc_connect s
            then kc_given t = kc_given s @ [fd] \<and> (\<forall>g. closes g (rx_trace t) = closes g (rx_trace s))
            else kc_given t = kc_given s \<and>
              (\<forall>g. closes g (rx_trace t) = closes g (rx_trace s) + (if g = fd then 1 else 0)))
      else kc_state t = C_DISCONNECTED \<and> kc_given t = kc_given s \<and>
           (\<forall>g. closes g (rx_trace t) = closes g (rx_trace s) + (if g = fd then 1 else 0)) \<and>
           (if kc_connect s
            then kc_retryDelayMs t = min (kc_retryDelayMs s * 2) MaxRetryDelayMs \<and>
              (\<exists>e q tm. (e, q) \<in> set (tq_timers t) \<and> tq_heap t q = Some tm \<and> tm_callback tm = Some FnConnectorStart)
            else kc_retryDelayMs t = kc_retryDelayMs s \<and> tq_timers t = tq_timers s))"

lemma retry_settles:
  assumes "tq_inv vec s" and "\<not> (w \<and> err = 0)"
  shows "ok_res (\<lambda>t. settled fd err w s t \<and> kc_state t \<noteq> C_CONNECTING \<and>
      rx_chans t = (rx_chans s)(p \<mapsto> idle_channel ch) \<and> el_pending t = el_pending s @ [FnConnectorResetChannel])
    (Connector_retry K fd (detached p ch s))"
  by (rule ok_res_mono[OF retry_ok[where vec = vec]]) (use assms in \<open>auto simp: retry_post_def settled_def\<close>)

abbreviation settled_at :: "ptr \<Rightarrow> channel \<Rightarrow> int \<Rightarrow> bool \<Rightarrow> 'z kloop_scheme \<Rightarrow> 'z kloop_scheme \<Rightarrow> bool" where
  "settled_at p ch err w s t \<equiv> settled (ch_fd ch) err w s t \<and> kc_state t \<noteq> C_CONNECTING \<and>
      rx_chans t = (rx_chans s)(p \<mapsto> idle_channel ch) \<and> el_pending t = el_pending s @ [FnConnectorResetChannel]"

lemma handleWrite_settles:
  assumes w: "connector_watching p ch s" and tq: "tq_inv vec s" and err: "\<forall>u. ke_soerror K (ch_fd ch) u = err"
    and new: "ke_new K = hand_over"
  shows "ok_res (settled_at p ch err True s) (Connector_handleWrite K s)"
proof -
  have rr: "removeAndResetChannel True s = Inr (ch_fd ch, detached p ch s)"
    by (rule remove_reset) (use w in \<open>simp_all add: connector_watching_def\<close>)
  have st: "kc_state s = C_CONNECTING" using w by (simp add: connector_watching_def)
  show ?thesis
  proof (cases "err = 0")
    case True
    then show ?thesis
      using rr st err new by (simp add: Connector_handleWrite_def isSelfConnect_def hand_over_def settled_def
          SocketUtil_closeSocket_def sys_call_def)
  next
    case False
    have "Connector_handleWrite K s = Connector_retry K (ch_fd ch) (detached p ch s)"
      using rr st err False by (simp add: Connector_handleWrite_def)
    then show ?thesis using retry_settles[OF tq, of True err "ch_fd ch" p ch K] False by simp
  qed
qed

lemma handleError_settles:
  assumes w: "connector_watching p ch s" and tq: "tq_inv vec s"
  shows "ok_res (settled_at p ch err False s) (Connector_handleError K s)"
proof -
  have rr: "removeAndResetChannel True s = Inr (ch_fd ch, detached p ch s)"
    by (rule remove_reset) (use w in \<open>simp_all add: connector_watching_def\<close>)
  have "Connector_handleError K s = Connector_retry K (ch_fd ch) (detached p ch s)"
    using rr w by (simp add: Connector_handleError_def connector_watching_def)
  then show ?thesis using retry_settles[OF tq, of False err "ch_fd ch" p ch K] by simp
qed

lemma handle_if_skip: "rx_chans s p = Some c \<Longrightarrow> cb c = None \<Longrightarrow> handle_if test cb run p s = Inr s"
  by (simp add: handle_if_def call_cb_def)

text \<open>C8. A round of events on a connecting descriptor, be it a write event, an error or both, settles the
  attempt exactly once. Without an error the descriptor is handed to the new-connection callback (or
  closed, if \<open>stop\<close> came first) and no timer is set; otherwise it is closed once and, if connecting is
  still wanted, a retry timer is queued and the delay doubles up to its maximum. Either way the
  connector's channel has left the selector and its reset is queued.\<close>

theorem attempt_settles:
  assumes w: "connector_watching p ch s" and tq: "tq_inv vec s" and err: "\<forall>u. ke_soerror K (ch_fd ch) u = err"
    and new: "ke_new K = hand_over" and ev: "wants_write (ch_returned ch) \<or> wants_error (ch_returned ch)"
  shows "ok_res (\<lambda>t. settled (ch_fd ch) err (wants_write (ch_returned ch)) s t \<and>
      rx_chans t = (rx_chans s)(p \<mapsto> idle_channel ch) \<and> el_pending t = el_pending s @ [FnConnectorResetChannel])
    (Channel_handleEvents (connector_callback K) p s)"
proof -
  let ?run = "connector_callback K" and ?w = "wants_write (ch_returned ch)"
  have chs: "rx_chans s p = Some ch" "ch_writeCb ch = Some CbConnectorWrite" "ch_errorCb ch = Some CbConnectorError"
    "ch_readCb ch = None" "ch_closeCb ch = None"
    using w by (simp_all add: connector_watching_def)
  have rest: "bindr (handle_if wants_read ch_readCb ?run p t) (handle_if wants_close ch_closeCb ?run p) = Inr t"
    if "settled_at p ch err b s t" for b t
    using that chs by (simp add: handle_if_skip)
  have after: "handle_if wants_error ch_errorCb ?run p t = Inr t" if "settled_at p ch err b s t" for b t
    using that chs by (simp add: handle_if_def call_cb_def connector_callback_def Connector_handleError_def)
  show ?thesis
  proof (cases ?w)
    case True
    have go: "handle_if wants_write ch_writeCb ?run p s = Connector_handleWrite K s"
      using chs True by (simp add: handle_if_def call_cb_def connector_callback_def)
    show ?thesis
      unfolding Channel_handleEvents_def go
      by (rule ok_res_bindr[OF handleWrite_settles[OF w tq err new]])
        (simp add: after[where b = True] rest[where b = True] True)
  next
    case False
    have skip: "handle_if wants_write ch_writeCb ?run p s = Inr s" using chs False by (simp add: handle_if_def)
    have go: "handle_if wants_error ch_errorCb ?run p s = Connector_handleError K s"
      using chs False ev by (simp add: handle_if_def call_cb_def connector_callback_def)
    show ?thesis
      unfolding Channel_handleEvents_def skip bindr_simps go
      by (rule ok_res_bindr[OF handleError_settles[OF w tq, where err = err]])
        (simp add: rest[where b = False] False)
  qed
qed

section \<open>Starting\<close>

definition kernel_says :: "('z kloop_scheme) conn_kernel \<Rightarrow> int \<Rightarrow> int \<Rightarrow> ptr \<Rightarrow> bool" where
  "kernel_says K fd e p \<longleftrightarrow> (\<forall>u. ke_socket K u = fd \<and> ke_connect K u = e \<and> ke_chan K u = p)"

lemma connecting_ok:
  assumes inv: "rx_inv s" and none: "kc_channel s = None" and free: "rx_chans s p = None"
    and fd: "\<forall>q d. rx_chans s q = Some d \<longrightarrow> ch_fd d \<noteq> fd" and k: "kernel_says K n e p"
  shows "\<exists>t ch. Connector_connecting K fd s = Inr t \<and> connector_watching p ch t \<and> ch_fd ch = fd \<and> ch_returned ch = 0 \<and>
    tq_timers t = tq_timers s \<and> tq_heap t = tq_heap s \<and> tq_active t = tq_active s \<and> kc_connect t = kc_connect s \<and>
    el_pending t = el_pending s \<and> kc_given t = kc_given s \<and> kc_retryDelayMs t = kc_retryDelayMs s \<and>
    cx_conns t = cx_conns s \<and> cx_refs t = cx_refs s \<and> cx_log t = cx_log s \<and> kloop.more t = kloop.more s"
proof -
  let ?ch = "(Channel_make fd)\<lparr>ch_writeCb := Some CbConnectorWrite, ch_errorCb := Some CbConnectorError\<rparr>"
  let ?s = "s\<lparr>kc_state := C_CONNECTING, kc_channel := Some p\<rparr>"
  let ?a = "Channel_put p ?ch ?s"
  have "rx_inv ?s" by (rule rx_inv_cong[OF inv]) simp_all
  then have inv1: "rx_inv ?a" by (rule rx_inv_put_new) (use free fd in simp_all)
  have c: "rx_chans ?a p = Some ?ch" by simp
  let ?t = "request_result p ?ch kWriteEvent ?a"
  have req: "enableWrite p ?a = Inr ?t"
    using rx_request_law(1)[OF inv1 c] by (simp add: enableWrite_def)
  have "Connector_connecting K fd s = Inr ?t"
    using none free k req by (simp add: Connector_connecting_def kernel_says_def)
  moreover have "connector_watching p (requested_with kWriteEvent ?ch) ?t"
    using rx_request_law(2)[OF inv1 c]
    by (simp add: connector_watching_def request_result_def Channel_put_def Channel_make_def)
  ultimately show ?thesis
    by (intro exI[of _ ?t] exI[of _ "requested_with kWriteEvent ?ch"]) (simp add: request_result_def Channel_put_def)
qed

lemma start_connects:
  assumes inv: "rx_inv s" and none: "kc_channel s = None" and free: "rx_chans s p = None"
    and fd: "\<forall>q d. rx_chans s q = Some d \<longrightarrow> ch_fd d \<noteq> fd" and k: "kernel_says K fd e p"
    and idle: "kc_state s = C_DISCONNECTED" and go: "connect_class_of e = GoOn"
  shows "\<exists>t ch. Connector_start K True s = Inr t \<and> connector_watching p ch t \<and> ch_fd ch = fd \<and> ch_returned ch = 0 \<and>
    tq_timers t = tq_timers s \<and> tq_heap t = tq_heap s \<and> tq_active t = tq_active s \<and> kc_connect t \<and>
    el_pending t = el_pending s \<and> kc_given t = kc_given s \<and> kc_retryDelayMs t = kc_retryDelayMs s \<and>
    cx_conns t = cx_conns s \<and> cx_refs t = cx_refs s \<and> cx_log t = cx_log s \<and> kloop.more t = kloop.more s"
proof -
  let ?s = "sys_call (SysConnect fd (get_at 0 in6_size (getSockAddr (kc_serverAddr s))))
      (sys_call (SysSocket fd (sa_family (kc_serverAddr s))) (s\<lparr>kc_connect := True\<rparr>))"
  have "rx_inv (s\<lparr>kc_connect := True\<rparr>)" by (rule rx_inv_cong[OF inv]) simp_all
  then have "rx_inv ?s" by (intro rx_inv_sys_call) simp_all
  moreover have "kc_channel ?s = None" using none by (simp add: sys_call_def)
  ultimately obtain t ch where t: "Connector_connecting K fd ?s = Inr t" "connector_watching p ch t" "ch_fd ch = fd"
      "ch_returned ch = 0" "tq_timers t = tq_timers ?s" "tq_heap t = tq_heap ?s" "tq_active t = tq_active ?s" "kc_connect t = kc_connect ?s"
      "el_pending t = el_pending ?s" "kc_given t = kc_given ?s" "kc_retryDelayMs t = kc_retryDelayMs ?s"
      "cx_conns t = cx_conns ?s" "cx_refs t = cx_refs ?s" "cx_log t = cx_log ?s" "kloop.more t = kloop.more ?s"
    using connecting_ok[of ?s p fd K fd e] free fd k by auto
  have "connect_class_of 0 = GoOn" by (simp add: connect_class_of_def)
  then have "Connector_start K True s = Connector_connecting K fd ?s"
    using k idle go
    by (simp add: Connector_start_def runInLoop_def startInLoop_def assertInLoopThread_def Connector_connect_def
        SocketUtil_createNonblockSocket_def SocketUtil_createSocket_def SocketUtil_connectSocket_def kernel_says_def
        sys_call_def)
  then show ?thesis using t by (intro exI[of _ t] exI[of _ ch]) (simp add: sys_call_def)
qed

lemma restart_is_start: "Connector_restart K True s =
    Connector_start K True (s\<lparr>kc_state := C_DISCONNECTED, kc_retryDelayMs := RetryDelayMs\<rparr>)"
  by (simp add: Connector_restart_def Connector_start_def assertInLoopThread_def runInLoop_def)

text \<open>C21. The retry timer is not cancelled: after a \<open>stop\<close> and a \<open>start\<close> during the back-off, it finds
  the connector already connecting and its assertion fails.
\<close>

theorem restart_hits_stale_retry:
  assumes inv: "rx_inv s" and off: "kc_state s = C_DISCONNECTED" and p: "kc_channel s = Some p"
    and ch: "rx_chans s p = Some ch" "ch_state ch = NEW" and pend: "el_pending s = [FnConnectorResetChannel]"
    and timer: "(e, q) \<in> set (tq_timers s) \<and> tq_heap s q = Some tm \<and> tm_callback tm = Some FnConnectorStart"
    and k: "kernel_says K fd n p" and go: "connect_class_of n = GoOn"
    and fd: "\<forall>q d. rx_chans s q = Some d \<longrightarrow> q \<noteq> p \<longrightarrow> ch_fd d \<noteq> fd"
  shows "\<exists>u t. doPendingFunctions (connector_exec K) (Connector_stop True s) = Inr u \<and>
    Connector_start K True u = Inr t \<and> (e, q) \<in> set (tq_timers t) \<and> tq_heap t q = Some tm \<and>
    (case tm_callback tm of None \<Rightarrow> False | Some f \<Rightarrow> connector_exec K f t = Inl AssertFailed)"
proof -
  let ?s0 = "(Connector_stop True s)\<lparr>el_calling := True, el_pending := []\<rparr>"
  let ?u = "resetChannel ?s0\<lparr>el_calling := False\<rparr>"
  have fs: "el_pending (Connector_stop True s) = [FnConnectorResetChannel, FnConnectorStop]"
    using pend by (simp add: Connector_stop_def)
  have reset: "resetChannel ?s0 = (Channel_destroy p ?s0)\<lparr>kc_channel := None\<rparr>"
    using p by (simp add: resetChannel_def Connector_stop_def)
  have st: "kc_state (resetChannel ?s0) = C_DISCONNECTED"
    unfolding reset using off by (simp add: Connector_stop_def Channel_destroy_def)
  have run: "doPendingFunctions (connector_exec K) (Connector_stop True s) = Inr (?u)"
    unfolding doPending_eq[OF fs] using st
    by (simp add: connector_exec_def stopInLoop_def assertInLoopThread_def)
  have "rx_inv (Connector_stop True s)"
    unfolding Connector_stop_def by (rule rx_inv_queueInLoop, rule rx_inv_cong[OF inv]) simp_all
  then have "rx_inv ?s0" by (rule rx_inv_cong) simp_all
  then have "rx_inv (Channel_destroy p ?s0)" by (rule rx_inv_destroy) (use ch in \<open>simp_all add: Connector_stop_def\<close>)
  then have inv': "rx_inv ?u" unfolding reset by (rule rx_inv_cong) simp_all
  have u: "kc_channel ?u = None" "rx_chans ?u = (rx_chans s)(p := None)" "kc_state ?u = C_DISCONNECTED"
      "tq_timers ?u = tq_timers s" "tq_heap ?u = tq_heap s"
    unfolding reset using off by (simp_all add: Connector_stop_def Channel_destroy_def)
  have free: "rx_chans ?u p = None" by (simp add: u(2))
  have others: "\<forall>q d. rx_chans ?u q = Some d \<longrightarrow> ch_fd d \<noteq> fd" using fd by (simp add: u(2))
  note sc = start_connects[OF inv' u(1) free others k u(3) go]
  obtain t c where t: "Connector_start K True ?u = Inr t" "connector_watching p c t" "tq_timers t = tq_timers ?u"
      "tq_heap t = tq_heap ?u"
    using sc by (elim exE conjE) (rule that, assumption+)
  have "connector_exec K FnConnectorStart t = Inl AssertFailed"
    using t(2) by (simp add: connector_exec_def startInLoop_def assertInLoopThread_def connector_watching_def)
  with run t u timer show ?thesis by auto
qed

section \<open>Witnesses\<close>

lemma watching_returned:
  assumes "connector_watching p ch s"
  shows "connector_watching p (ch\<lparr>ch_returned := e\<rparr>) (Channel_put p (ch\<lparr>ch_returned := e\<rparr>) s)"
proof -
  have c: "rx_inv s" "rx_chans s p = Some ch" using assms by (simp_all add: connector_watching_def)
  have wf: "rx_wf (Channel_put p (ch\<lparr>ch_returned := e\<rparr>) s)"
    by (rule rx_wf_put_same[OF rx_inv_wf[OF c(1)] c(2)]) simp_all
  have "rx_inv (Channel_put p (ch\<lparr>ch_returned := e\<rparr>) s)"
    by (rule rx_inv_keep[OF c(1) wf c(2), where c' = "ch\<lparr>ch_returned := e\<rparr>"]) simp_all
  then show ?thesis using assms by (simp add: connector_watching_def Channel_put_def)
qed

definition toy_server :: sockaddr where
  "toy_server = SockAddr_new toy_inet (replicate 28 0) ''1.2.3.4'' 8080 False"

definition toy_kernel :: "int \<Rightarrow> ('z kloop_scheme) conn_kernel" where
  "toy_kernel err = \<lparr>ke_socket = (\<lambda>_. 9), ke_connect = (\<lambda>_. EINPROGRESS), ke_soerror = (\<lambda>_ _. err),
     ke_chan = (\<lambda>_. 7), ke_timer = (\<lambda>_. 8), ke_now = (\<lambda>_. 1000), ke_rnd = (\<lambda>x. x), ke_new = hand_over\<rparr>"

lemma toy_kernel_simps [simp]:
  "kernel_says (toy_kernel err) 9 EINPROGRESS 7" "ke_soerror (toy_kernel err) fd u = err"
  "ke_new (toy_kernel err) = hand_over"
  by (simp_all add: toy_kernel_def kernel_says_def)

definition idle_connector :: kloop where
  "idle_connector = Connector_new toy_server no_conns"

lemma idle_connector_fields:
  "rx_inv idle_connector" "tq_inv [] idle_connector" "kc_channel idle_connector = None"
  "rx_chans idle_connector = Map.empty" "kc_state idle_connector = C_DISCONNECTED" "tq_timers idle_connector = []"
  "tq_heap idle_connector = Map.empty" "tq_active idle_connector = {}" "kc_given idle_connector = []"
  "el_pending idle_connector = []" "kc_retryDelayMs idle_connector = 500"
proof -
  show "rx_inv idle_connector"
    by (rule rx_inv_cong[OF rx_inv_new])
      (simp_all add: idle_connector_def Connector_new_def no_conns_def raw_loop_def tloop.defs wloop.defs)
qed (simp_all add: idle_connector_def Connector_new_def no_conns_def raw_loop_def tloop.defs wloop.defs tq_inv_def
    RetryDelayMs_def)

lemma one_attempt:
  "\<exists>s ch. connector_watching 7 ch (s :: kloop) \<and> tq_inv [] s \<and> ch_fd ch = 9 \<and> ch_returned ch = e \<and> kc_connect s \<and>
    kc_given s = [] \<and> kc_retryDelayMs s = 500 \<and> el_pending s = []"
proof -
  have go: "connect_class_of EINPROGRESS = GoOn" by (simp add: connect_class_of_def)
  have none: "\<forall>q d. rx_chans idle_connector q = Some d \<longrightarrow> ch_fd d \<noteq> 9" by (simp add: idle_connector_fields)
  note i = idle_connector_fields
  have free: "rx_chans idle_connector 7 = None" by (simp add: i)
  note sc = start_connects[OF i(1,3) free none toy_kernel_simps(1)[of 0] i(5) go]
  obtain t :: kloop and ch where t: "connector_watching 7 ch t" "ch_fd ch = 9" "tq_timers t = tq_timers idle_connector"
      "tq_heap t = tq_heap idle_connector" "tq_active t = tq_active idle_connector" "kc_connect t"
      "el_pending t = el_pending idle_connector" "kc_given t = kc_given idle_connector"
      "kc_retryDelayMs t = kc_retryDelayMs idle_connector"
    using sc by (elim exE conjE) (rule that, assumption+)
  let ?c = "ch\<lparr>ch_returned := e\<rparr>" and ?u = "Channel_put 7 (ch\<lparr>ch_returned := e\<rparr>) t"
  have "connector_watching 7 ?c ?u" by (rule watching_returned[OF t(1)])
  moreover have "tq_inv [] ?u" using t(3-5) i(6-8) by (simp add: tq_inv_def Channel_put_def)
  moreover have "ch_fd ?c = 9" "ch_returned ?c = e" "kc_connect ?u" "kc_given ?u = []" "kc_retryDelayMs ?u = 500" "el_pending ?u = []"
    using t i by (simp_all add: Channel_put_def)
  ultimately show ?thesis by blast
qed

theorem attempt_settles_witness:
  "\<exists>s ch. connector_watching 7 ch (s :: kloop) \<and>
     ok_res (\<lambda>t. kc_given t = [9] \<and> kc_state t = C_CONNECTED)
       (Channel_handleEvents (connector_callback (toy_kernel 0)) 7 s)"
proof -
  obtain s :: kloop and ch where s: "connector_watching 7 ch s" "tq_inv [] s" "ch_fd ch = 9" "ch_returned ch = POLLOUT"
      "kc_connect s" "kc_given s = []"
    using one_attempt[of POLLOUT] by blast
  have w: "wants_write (ch_returned ch)" using s(4) by (simp add: wants_write_def POLLOUT_def)
  have "ok_res (\<lambda>t. settled (ch_fd ch) 0 (wants_write (ch_returned ch)) s t \<and>
      rx_chans t = (rx_chans s)(7 \<mapsto> idle_channel ch) \<and> el_pending t = el_pending s @ [FnConnectorResetChannel])
    (Channel_handleEvents (connector_callback (toy_kernel 0)) 7 s)"
    by (rule attempt_settles[OF s(1,2)]) (use w in simp_all)
  then have "ok_res (\<lambda>t. kc_given t = [9] \<and> kc_state t = C_CONNECTED)
       (Channel_handleEvents (connector_callback (toy_kernel 0)) 7 s)"
    by (rule ok_res_mono) (use w s in \<open>simp add: settled_def\<close>)
  with s(1) show ?thesis by blast
qed

definition backing_off :: kloop where
  "backing_off = idle_connector\<lparr>kc_channel := Some 7, rx_chans := [7 \<mapsto> Channel_make 9], kc_connect := True,
     el_pending := [FnConnectorResetChannel], tq_timers := [(501000, 8)],
     tq_heap := [8 \<mapsto> \<lparr>tm_callback = Some FnConnectorStart, tm_expiration = 501000, tm_interval = 0,
       tm_repeat = False, tm_id = (1, 8)\<rparr>]\<rparr>"

theorem restart_hits_stale_retry_witness:
  "\<exists>u t. doPendingFunctions (connector_exec (toy_kernel 0)) (Connector_stop True backing_off) = Inr u \<and>
    Connector_start (toy_kernel 0) True u = Inr t \<and> connector_exec (toy_kernel 0) FnConnectorStart t = Inl AssertFailed"
proof -
  have "rx_inv (Channel_put 7 (Channel_make 9) idle_connector)"
    by (rule rx_inv_put_new) (simp_all add: idle_connector_fields)
  then have inv: "rx_inv backing_off"
    by (rule rx_inv_cong) (simp_all add: backing_off_def idle_connector_fields)
  have go: "connect_class_of EINPROGRESS = GoOn" by (simp add: connect_class_of_def)
  let ?tm = "\<lparr>tm_callback = Some FnConnectorStart, tm_expiration = 501000, tm_interval = 0,
       tm_repeat = False, tm_id = (1, 8)\<rparr>"
  have "\<exists>u t. doPendingFunctions (connector_exec (toy_kernel 0)) (Connector_stop True backing_off) = Inr u \<and>
    Connector_start (toy_kernel 0) True u = Inr t \<and> (501000, 8) \<in> set (tq_timers t) \<and> tq_heap t 8 = Some ?tm \<and>
    (case tm_callback ?tm of None \<Rightarrow> False | Some f \<Rightarrow> connector_exec (toy_kernel 0) f t = Inl AssertFailed)"
    by (rule restart_hits_stale_retry[OF inv, where p = 7 and ch = "Channel_make 9" and fd = 9 and n = EINPROGRESS])
      (simp_all add: backing_off_def idle_connector_fields go)
  then show ?thesis by auto
qed


end
