(* ===== verification/Threads.thy ===== *)
theory Threads
  imports Loops
begin

text \<open>
  \<open>src/stnl/Thread.h\<close>, \<open>Thread.cpp\<close>, \<open>CountDownLatch.h\<close>, \<open>EventLoopThread\<close> and
  \<open>EventLoopThreadPool\<close>. Two threads take part in a start-up: the starter, which runs
  \<open>EventLoopThread::startLoop\<close> and later the destructor, and the worker, which runs
  \<open>Thread::threadFuncWarper\<close> and \<open>EventLoopThread::threadFunc\<close>. Each has a program counter; a
  region under a mutex is one step, a condition variable is the set of threads blocked on it.
\<close>

section \<open>Thread and EventLoopThread\<close>

datatype starter_pc = S_Idle | S_Spawned | S_Assigned | S_Blocked1 | S_Woken1 | S_Started
  | S_Blocked2 | S_Woken2 | S_Returned | S_Join | S_End

datatype worker_pc = W_None | W_Begin | W_Notify | W_Func | W_Built | W_Set | W_Looping | W_Left | W_Done

record elthread =
  th_running :: bool
  th_joinable :: bool
  th_tid :: bool
  th_loop :: "ptr option"
  th_ret :: "ptr option"
  th_ev :: eventloop
  th_pc :: starter_pc
  th_worker :: worker_pc

definition EventLoopThread_new :: "eventloop \<Rightarrow> elthread" where
  "EventLoopThread_new ev = \<lparr>th_running = False, th_joinable = False, th_tid = False, th_loop = None,
     th_ret = None, th_ev = ev, th_pc = S_Idle, th_worker = W_None\<rparr>"

text \<open>\<open>Thread::start\<close>: the constructor of \<open>std::thread\<close> starts the worker before it is assigned.\<close>

definition Thread_spawn :: "elthread \<Rightarrow> elthread result" where
  "Thread_spawn s =
     assert_c (\<not> th_running s)
      (assert_c (\<not> th_joinable s)
        (Inr (s\<lparr>th_running := True, th_worker := W_Begin, th_pc := S_Spawned\<rparr>)))"

definition Thread_assign :: "elthread \<Rightarrow> elthread" where
  "Thread_assign s = s\<lparr>th_joinable := True, th_pc := S_Assigned\<rparr>"

definition Thread_wait :: "elthread \<Rightarrow> elthread" where
  "Thread_wait s = s\<lparr>th_pc := S_Blocked1\<rparr>"

definition Thread_join :: "elthread \<Rightarrow> elthread result option" where
  "Thread_join s =
     (if \<not> th_running s then Some (Inl AssertFailed)
      else if \<not> th_joinable s then Some (Inr (s\<lparr>th_pc := S_End\<rparr>))
      else if th_worker s = W_Done then Some (Inr (s\<lparr>th_joinable := False, th_pc := S_End\<rparr>))
      else None)"

text \<open>\<open>startLoop\<close> after \<open>thread_.start()\<close>: a wait with a predicate.\<close>

definition startLoop_wait :: "elthread \<Rightarrow> elthread" where
  "startLoop_wait s =
     (if th_loop s \<noteq> None then s\<lparr>th_ret := th_loop s, th_pc := S_Returned\<rparr> else s\<lparr>th_pc := S_Blocked2\<rparr>)"

text \<open>\<open>~EventLoopThread\<close>, and \<open>~Thread\<close> detaching where the loop is gone.\<close>

definition EventLoopThread_delete :: "elthread \<Rightarrow> elthread" where
  "EventLoopThread_delete s =
     (if th_loop s \<noteq> None
      then s\<lparr>th_ev := EventLoop_quit False (th_ev s), th_pc := S_Join\<rparr>
      else s\<lparr>th_joinable := th_joinable s \<and> \<not> th_running s, th_pc := S_End\<rparr>)"

definition starter_next :: "elthread \<Rightarrow> elthread result option" where
  "starter_next s =
     (case th_pc s of
        S_Idle \<Rightarrow> Some (Thread_spawn s)
      | S_Spawned \<Rightarrow> Some (Inr (Thread_assign s))
      | S_Assigned \<Rightarrow> Some (Inr (Thread_wait s))
      | S_Blocked1 \<Rightarrow> None
      | S_Woken1 \<Rightarrow> Some (Inr (s\<lparr>th_pc := S_Started\<rparr>))
      | S_Started \<Rightarrow> Some (Inr (startLoop_wait s))
      | S_Blocked2 \<Rightarrow> None
      | S_Woken2 \<Rightarrow> Some (Inr (startLoop_wait s))
      | S_Returned \<Rightarrow> Some (Inr (EventLoopThread_delete s))
      | S_Join \<Rightarrow> Thread_join s
      | S_End \<Rightarrow> None)"

text \<open>\<open>notify_one\<close> on the two condition variables, which only the starter waits on.\<close>

definition notify1 :: "elthread \<Rightarrow> elthread" where
  "notify1 s = (if th_pc s = S_Blocked1 then s\<lparr>th_pc := S_Woken1\<rparr> else s)"

definition notify2 :: "elthread \<Rightarrow> elthread" where
  "notify2 s = (if th_pc s = S_Blocked2 then s\<lparr>th_pc := S_Woken2\<rparr> else s)"

definition threadFuncWarper :: "elthread \<Rightarrow> elthread" where
  "threadFuncWarper s =
     (if th_worker s = W_Begin then s\<lparr>th_tid := th_joinable s, th_worker := W_Notify\<rparr>
      else notify1 (s\<lparr>th_worker := W_Func\<rparr>))"

definition threadFunc :: "ptr \<Rightarrow> elthread \<Rightarrow> elthread result option" where
  "threadFunc p s =
     (case th_worker s of
        W_Func \<Rightarrow> Some (Inr (s\<lparr>th_worker := W_Built\<rparr>))
      | W_Built \<Rightarrow> Some (Inr (notify2 (s\<lparr>th_loop := Some p, th_worker := W_Set\<rparr>)))
      | W_Set \<Rightarrow> Some (bindr (loop_enter (th_ev s)) (\<lambda>e. Inr (s\<lparr>th_ev := e, th_worker := W_Looping\<rparr>)))
      | W_Looping \<Rightarrow>
          if el_running (th_ev s) then None
          else Some (Inr (s\<lparr>th_ev := (th_ev s)\<lparr>el_looping := False\<rparr>, th_worker := W_Left\<rparr>))
      | W_Left \<Rightarrow> Some (Inr (s\<lparr>th_loop := None, th_worker := W_Done\<rparr>))
      | _ \<Rightarrow> None)"

definition worker_next :: "ptr \<Rightarrow> elthread \<Rightarrow> elthread result option" where
  "worker_next p s =
     (if th_worker s \<in> {W_Begin, W_Notify} then Some (Inr (threadFuncWarper s)) else threadFunc p s)"

text \<open>Steps of the pair; a spurious wakeup is a step of its own, which an execution may not have.\<close>

inductive th_step :: "bool \<Rightarrow> ptr \<Rightarrow> elthread \<Rightarrow> elthread \<Rightarrow> bool" for spurious :: bool and p :: ptr where
  th_starter: "starter_next s = Some (Inr t) \<Longrightarrow> th_step spurious p s t"
| th_worker: "worker_next p s = Some (Inr t) \<Longrightarrow> th_step spurious p s t"
| th_spurious1: "spurious \<Longrightarrow> th_pc s = S_Blocked1 \<Longrightarrow> th_step spurious p s (s\<lparr>th_pc := S_Woken1\<rparr>)"
| th_spurious2: "spurious \<Longrightarrow> th_pc s = S_Blocked2 \<Longrightarrow> th_step spurious p s (s\<lparr>th_pc := S_Woken2\<rparr>)"

inductive_cases th_stepE: "th_step spurious p s t"

definition th_start :: "elthread \<Rightarrow> bool" where
  "th_start s \<longleftrightarrow> (\<exists>ev. \<not> el_running ev \<and> \<not> el_looping ev \<and> s = EventLoopThread_new ev)"

section \<open>The invariant of a start-up\<close>

fun before_return :: "starter_pc \<Rightarrow> bool" where
  "before_return S_Returned = False" | "before_return S_Join = False" | "before_return S_End = False"
| "before_return _ = True"

fun before_set :: "worker_pc \<Rightarrow> bool" where
  "before_set W_Set = False" | "before_set W_Looping = False" | "before_set W_Left = False"
| "before_set W_Done = False" | "before_set _ = True"

fun before_notify :: "worker_pc \<Rightarrow> bool" where
  "before_notify W_None = True" | "before_notify W_Begin = True" | "before_notify W_Notify = True"
| "before_notify _ = False"

text \<open>What holds at each program counter of the worker, and of the starter.\<close>

definition worker_at :: "ptr \<Rightarrow> elthread \<Rightarrow> bool" where
  "worker_at p s =
     (let idle = (\<not> el_running (th_ev s) \<and> \<not> el_looping (th_ev s)) in
      case th_worker s of
        W_None \<Rightarrow> idle \<and> th_loop s = None \<and> th_pc s = S_Idle
      | W_Set \<Rightarrow> idle \<and> th_loop s = Some p \<and> th_pc s \<noteq> S_Idle
      | W_Looping \<Rightarrow> th_loop s = Some p \<and> th_pc s \<noteq> S_Idle \<and> (before_return (th_pc s) \<longrightarrow> el_running (th_ev s))
      | W_Left \<Rightarrow> th_loop s = Some p \<and> \<not> before_return (th_pc s)
      | W_Done \<Rightarrow> th_loop s = None \<and> \<not> before_return (th_pc s)
      | _ \<Rightarrow> idle \<and> th_loop s = None \<and> th_pc s \<noteq> S_Idle)"

definition starter_at :: "ptr \<Rightarrow> elthread \<Rightarrow> bool" where
  "starter_at p s =
     (case th_pc s of
        S_Idle \<Rightarrow> \<not> th_running s \<and> \<not> th_joinable s
      | S_Blocked2 \<Rightarrow> th_running s \<and> before_set (th_worker s)
      | S_Returned \<Rightarrow> th_running s \<and> \<not> before_set (th_worker s) \<and> th_ret s = Some p
      | S_Join \<Rightarrow> th_running s \<and> \<not> before_set (th_worker s) \<and> th_ret s = Some p
      | S_End \<Rightarrow> th_running s \<and> \<not> before_set (th_worker s) \<and> th_ret s = Some p
      | _ \<Rightarrow> th_running s)"

definition th_inv :: "bool \<Rightarrow> ptr \<Rightarrow> elthread \<Rightarrow> bool" where
  "th_inv b p s \<longleftrightarrow> worker_at p s \<and> starter_at p s \<and>
     (\<not> b \<and> th_pc s = S_Woken2 \<longrightarrow> \<not> before_set (th_worker s))"

lemmas th_inv_defs = th_inv_def worker_at_def starter_at_def

lemmas th_next_defs = starter_next_def worker_next_def Thread_spawn_def Thread_assign_def Thread_wait_def
  Thread_join_def startLoop_wait_def EventLoopThread_delete_def notify1_def notify2_def threadFuncWarper_def
  threadFunc_def loop_enter_def

lemma quit_simps [simp]:
  "el_running (EventLoop_quit b e) = False" "el_looping (EventLoop_quit b e) = el_looping e"
  by (simp_all add: EventLoop_quit_def wakeup_def sys_call_def)

lemma th_starter_inv: "starter_next s = Some (Inr t) \<Longrightarrow> th_inv b p s \<Longrightarrow> th_inv b p t"
  by (cases "th_pc s"; cases "th_worker s"; clarsimp simp: th_inv_defs th_next_defs split: if_splits)

lemma th_worker_inv: "worker_next p s = Some (Inr t) \<Longrightarrow> th_inv b p s \<Longrightarrow> th_inv b p t"
  by (cases "th_worker s"; cases "th_pc s"; clarsimp simp: th_inv_defs th_next_defs bindr_eq_Inr split: if_splits)

lemma th_wake_inv: "b \<Longrightarrow> th_inv b p s \<Longrightarrow> th_pc s = S_Blocked1 \<Longrightarrow> th_inv b p (s\<lparr>th_pc := S_Woken1\<rparr>)"
  "b \<Longrightarrow> th_inv b p s \<Longrightarrow> th_pc s = S_Blocked2 \<Longrightarrow> th_inv b p (s\<lparr>th_pc := S_Woken2\<rparr>)"
  by (cases "th_worker s"; simp add: th_inv_defs)+

interpretation starts: invariant_system th_start "th_step b p" "th_inv b p"
proof
  fix s assume "th_start s"
  then show "th_inv b p s" by (auto simp: th_start_def EventLoopThread_new_def th_inv_defs)
next
  fix s t assume st: "th_step b p s t" and i: "th_inv b p s"
  from st show "th_inv b p t"
    by (cases rule: th_step.cases) (use i in \<open>simp_all add: th_starter_inv th_worker_inv th_wake_inv\<close>)
qed

lemma th_no_fault: "th_inv b p s \<Longrightarrow> starter_next s \<noteq> Some (Inl e) \<and> worker_next p s \<noteq> Some (Inl e)"
  by (cases "th_pc s"; cases "th_worker s"; simp add: th_inv_defs th_next_defs)

section \<open>The two waits\<close>

text \<open>
  \<open>inevitable\<close>: every maximal execution from the state comes to a goal. Before \<open>startLoop\<close>
  returns no program counter goes back, so \<open>th_rank\<close> falls with each step.
\<close>

inductive inevitable :: "('s \<Rightarrow> 's \<Rightarrow> bool) \<Rightarrow> ('s \<Rightarrow> bool) \<Rightarrow> 's \<Rightarrow> bool"
  for step :: "'s \<Rightarrow> 's \<Rightarrow> bool" and goal :: "'s \<Rightarrow> bool" where
  inev_now: "goal s \<Longrightarrow> inevitable step goal s"
| inev_step: "\<exists>t. step s t \<Longrightarrow> (\<And>t. step s t \<Longrightarrow> inevitable step goal t) \<Longrightarrow> inevitable step goal s"

lemma inevitable_reaches: "inevitable step goal s \<Longrightarrow> \<exists>t. step\<^sup>*\<^sup>* s t \<and> goal t"
proof (induction rule: inevitable.induct)
  case (inev_step s)
  then show ?case by (meson converse_rtranclp_into_rtranclp)
qed auto

fun starter_rank :: "starter_pc \<Rightarrow> nat" where
  "starter_rank S_Idle = 8" | "starter_rank S_Spawned = 7" | "starter_rank S_Assigned = 6"
| "starter_rank S_Blocked1 = 5" | "starter_rank S_Woken1 = 4" | "starter_rank S_Started = 3"
| "starter_rank S_Blocked2 = 2" | "starter_rank S_Woken2 = 1" | "starter_rank _ = 0"

fun worker_rank :: "worker_pc \<Rightarrow> nat" where
  "worker_rank W_None = 8" | "worker_rank W_Begin = 7" | "worker_rank W_Notify = 6" | "worker_rank W_Func = 5"
| "worker_rank W_Built = 4" | "worker_rank W_Set = 3" | "worker_rank W_Looping = 2" | "worker_rank W_Left = 1"
| "worker_rank W_Done = 0"

definition th_rank :: "elthread \<Rightarrow> nat" where
  "th_rank s = starter_rank (th_pc s) + worker_rank (th_worker s)"

definition returned_loop :: "ptr \<Rightarrow> elthread \<Rightarrow> bool" where
  "returned_loop p s \<longleftrightarrow> th_pc s = S_Returned \<and> th_ret s = Some p"

text \<open>
  \<open>missed\<close>: the worker has notified while the starter was on its way to the first wait.
  \<open>committed\<close>: the starter was blocked in time, or is beyond the first wait.
\<close>

definition missed :: "elthread \<Rightarrow> bool" where
  "missed s \<longleftrightarrow> th_pc s \<in> {S_Spawned, S_Assigned, S_Blocked1} \<and> \<not> before_notify (th_worker s)"

definition committed :: "elthread \<Rightarrow> bool" where
  "committed s \<longleftrightarrow> th_pc s = S_Blocked1 \<and> before_notify (th_worker s) \<or>
     th_pc s \<in> {S_Woken1, S_Started, S_Blocked2, S_Woken2}"

lemma committed_moves:
  assumes "th_inv False p s" and "committed s"
  shows "\<exists>t. th_step False p s t"
proof -
  have "(\<exists>t. starter_next s = Some (Inr t)) \<or> (\<exists>t. worker_next p s = Some (Inr t))"
    using assms by (cases "th_pc s"; cases "th_worker s"; simp add: th_inv_defs th_next_defs committed_def)
  then show ?thesis by (auto intro: th_step.intros)
qed

lemma committed_starter:
  "starter_next s = Some (Inr t) \<Longrightarrow> th_inv False p s \<Longrightarrow> committed s \<Longrightarrow>
   th_rank t < th_rank s \<and> (committed t \<or> returned_loop p t)"
  by (cases "th_pc s"; cases "th_worker s";
      clarsimp simp: th_inv_defs th_next_defs committed_def th_rank_def returned_loop_def split: if_splits)

lemma committed_worker:
  "worker_next p s = Some (Inr t) \<Longrightarrow> th_inv False p s \<Longrightarrow> committed s \<Longrightarrow>
   th_rank t < th_rank s \<and> (committed t \<or> returned_loop p t)"
  by (cases "th_pc s"; cases "th_worker s";
      clarsimp simp: th_inv_defs th_next_defs committed_def th_rank_def returned_loop_def bindr_eq_Inr split: if_splits)

lemma committed_step:
  "th_step False p s t \<Longrightarrow> th_inv False p s \<Longrightarrow> committed s \<Longrightarrow> th_rank t < th_rank s \<and> (committed t \<or> returned_loop p t)"
  by (erule th_stepE) (simp_all add: committed_starter committed_worker)

lemma committed_inevitable:
  "th_inv False p s \<Longrightarrow> committed s \<Longrightarrow> inevitable (th_step False p) (returned_loop p) s"
proof (induction "th_rank s" arbitrary: s rule: less_induct)
  case less
  show ?case
  proof (rule inev_step)
    show "\<exists>t. th_step False p s t" by (rule committed_moves[OF less.prems])
    fix t assume t: "th_step False p s t"
    note c = committed_step[OF t less.prems]
    have "th_inv False p t" by (rule starts.step_inv[OF t less.prems(1)])
    with c less.hyps[of t] show "inevitable (th_step False p) (returned_loop p) t"
      by (auto intro: inev_now)
  qed
qed

lemma missed_starter: "starter_next s = Some (Inr t) \<Longrightarrow> missed s \<Longrightarrow> missed t"
  by (cases "th_pc s"; cases "th_worker s"; clarsimp simp: th_next_defs missed_def)

lemma missed_worker: "worker_next p s = Some (Inr t) \<Longrightarrow> missed s \<Longrightarrow> missed t"
  by (cases "th_pc s"; cases "th_worker s"; clarsimp simp: th_next_defs missed_def bindr_eq_Inr split: if_splits)

lemma missed_step: "th_step False p s t \<Longrightarrow> missed s \<Longrightarrow> missed t"
  by (erule th_stepE) (simp_all add: missed_starter missed_worker)

lemma missed_steps: "(th_step False p)\<^sup>*\<^sup>* s t \<Longrightarrow> missed s \<Longrightarrow> missed t"
  by (induction rule: rtranclp_induct) (simp_all add: missed_step)

lemma starter_steps: "starter_next s = Some (Inr t) \<Longrightarrow> inevitable (th_step b p) g t \<Longrightarrow>
    \<exists>u. (th_step b p)\<^sup>*\<^sup>* s u \<and> g u"
  by (meson converse_rtranclp_into_rtranclp inevitable_reaches th_starter)

text \<open>A starter that has not yet blocked, before a worker that has not yet notified.\<close>

lemma undecided_returns:
  assumes i: "th_inv False p s" and u: "th_pc s \<in> {S_Idle, S_Spawned, S_Assigned}" "before_notify (th_worker s)"
  shows "\<exists>t. (th_step False p)\<^sup>*\<^sup>* s t \<and> returned_loop p t"
proof -
  have blocked: "\<exists>t. (th_step False p)\<^sup>*\<^sup>* a t \<and> returned_loop p t"
    if "th_inv False p a" "th_pc a = S_Assigned" "before_notify (th_worker a)" for a
  proof (rule starter_steps)
    show n: "starter_next a = Some (Inr (Thread_wait a))" using that by (simp add: starter_next_def)
    show "inevitable (th_step False p) (returned_loop p) (Thread_wait a)"
      by (rule committed_inevitable[OF th_starter_inv[OF n that(1)]]) (use that in \<open>simp add: committed_def Thread_wait_def\<close>)
  qed
  have assigned: "\<exists>t. (th_step False p)\<^sup>*\<^sup>* a t \<and> returned_loop p t"
    if a: "th_inv False p a" "th_pc a = S_Spawned" "before_notify (th_worker a)" for a
  proof -
    have n: "starter_next a = Some (Inr (Thread_assign a))" using a by (simp add: starter_next_def)
    have "\<exists>t. (th_step False p)\<^sup>*\<^sup>* (Thread_assign a) t \<and> returned_loop p t"
      by (rule blocked[OF th_starter_inv[OF n a(1)]]) (use a in \<open>simp_all add: Thread_assign_def\<close>)
    then show ?thesis using th_starter[OF n] by (meson converse_rtranclp_into_rtranclp)
  qed
  show ?thesis
  proof (cases "th_pc s = S_Idle")
    case True
    then obtain a where a: "starter_next s = Some (Inr a)" "th_pc a = S_Spawned" "before_notify (th_worker a)"
      using i by (cases "th_worker s") (auto simp: th_inv_defs starter_next_def Thread_spawn_def)
    have "\<exists>t. (th_step False p)\<^sup>*\<^sup>* a t \<and> returned_loop p t" by (rule assigned[OF th_starter_inv[OF a(1) i] a(2,3)])
    then show ?thesis using th_starter[OF a(1)] by (meson converse_rtranclp_into_rtranclp)
  next
    case False
    then show ?thesis using u assigned[OF i] blocked[OF i] by auto
  qed
qed

text \<open>C11. \<open>startLoop\<close> can still return the worker's loop exactly when the notification of \<open>Thread::start\<close>,
  whose wait has no predicate, has not come before the starter blocked; once the starter was blocked in
  time, every execution returns it (the second wait, which has a predicate, misses nothing), and no
  assertion of the two threads fails.\<close>

theorem start_loop_returns_iff:
  assumes r: "reach th_start (th_step False p) s" and b: "before_return (th_pc s)"
  shows "((\<exists>t. (th_step False p)\<^sup>*\<^sup>* s t \<and> returned_loop p t) \<longleftrightarrow> \<not> missed s) \<and>
    (committed s \<longrightarrow> inevitable (th_step False p) (returned_loop p) s) \<and>
    (\<forall>e. starter_next s \<noteq> Some (Inl e) \<and> worker_next p s \<noteq> Some (Inl e))"
proof (intro conjI impI)
  have i: "th_inv False p s" by (rule starts.reach_inv[OF r])
  show "committed s \<Longrightarrow> inevitable (th_step False p) (returned_loop p) s" by (rule committed_inevitable[OF i])
  show "\<forall>e. starter_next s \<noteq> Some (Inl e) \<and> worker_next p s \<noteq> Some (Inl e)" using th_no_fault[OF i] by blast
  have "missed t \<Longrightarrow> \<not> returned_loop p t" for t by (auto simp: missed_def returned_loop_def)
  then have never: "missed s \<Longrightarrow> \<not> (\<exists>t. (th_step False p)\<^sup>*\<^sup>* s t \<and> returned_loop p t)"
    using missed_steps by blast
  have "missed s \<or> committed s \<or> th_pc s \<in> {S_Idle, S_Spawned, S_Assigned} \<and> before_notify (th_worker s)"
    using b i by (cases "th_pc s"; cases "th_worker s"; simp add: missed_def committed_def th_inv_defs)
  then have "\<not> missed s \<Longrightarrow> \<exists>t. (th_step False p)\<^sup>*\<^sup>* s t \<and> returned_loop p t"
    using undecided_returns[OF i] inevitable_reaches[OF committed_inevitable[OF i]] by blast
  with never show "(\<exists>t. (th_step False p)\<^sup>*\<^sup>* s t \<and> returned_loop p t) = (\<not> missed s)" by blast
qed

definition waiting_loop :: eventloop where
  "waiting_loop = idle_loop\<lparr>el_looping := False, el_running := False\<rparr>"

text \<open>The worker may win the race.\<close>

theorem start_loop_returns_iff_witness:
  "\<exists>s. reach th_start (th_step False 7) s \<and> th_pc s = S_Spawned \<and> missed s \<and>
    \<not> (\<exists>t. (th_step False 7)\<^sup>*\<^sup>* s t \<and> returned_loop 7 t)"
proof -
  let ?s0 = "EventLoopThread_new waiting_loop"
  let ?s1 = "?s0\<lparr>th_running := True, th_worker := W_Begin, th_pc := S_Spawned\<rparr>"
  let ?s2 = "?s1\<lparr>th_worker := W_Notify\<rparr>" and ?s3 = "?s1\<lparr>th_worker := W_Func\<rparr>"
  have "reach th_start (th_step False 7) ?s0"
    by (rule reach_start, unfold th_start_def, rule exI[of _ waiting_loop]) (simp add: waiting_loop_def)
  then have "reach th_start (th_step False 7) ?s1"
    by (rule reach_step) (rule th_starter, simp add: starter_next_def Thread_spawn_def EventLoopThread_new_def)
  then have "reach th_start (th_step False 7) ?s2"
    by (rule reach_step) (rule th_worker, simp add: worker_next_def threadFuncWarper_def EventLoopThread_new_def)
  then have r: "reach th_start (th_step False 7) ?s3"
    by (rule reach_step)
      (rule th_worker, simp add: worker_next_def threadFuncWarper_def notify1_def EventLoopThread_new_def)
  have m: "missed ?s3" by (simp add: missed_def)
  have "before_return (th_pc ?s3)" by simp
  from start_loop_returns_iff[OF r this] m have "\<not> (\<exists>t. (th_step False 7)\<^sup>*\<^sup>* ?s3 t \<and> returned_loop 7 t)" by blast
  then show ?thesis using r m by (intro exI[of _ ?s3]) simp
qed

section \<open>The destructor\<close>

text \<open>
  Between the notification and the entry of \<open>loop()\<close>, \<open>quit()\<close> is lost (\<open>loop_enter\<close> sets
  \<open>running_\<close> again), so the destructor joins a worker that never ends.
\<close>

definition hanging :: "elthread \<Rightarrow> bool" where
  "hanging s \<longleftrightarrow> th_pc s = S_Join \<and> th_running s \<and> th_joinable s \<and>
     (th_worker s = W_Set \<or> th_worker s = W_Looping \<and> el_running (th_ev s))"

lemma hanging_step: "th_step b p s t \<Longrightarrow> hanging s \<Longrightarrow> hanging t"
  by (erule th_stepE) (auto simp: hanging_def th_next_defs bindr_eq_Inr split: if_splits)

theorem early_destructor_hangs:
  assumes r: "reach th_start (th_step b p) s" and s: "th_pc s = S_Returned" "th_worker s = W_Set" "th_joinable s"
  shows "\<exists>u. starter_next s = Some (Inr u) \<and> th_pc u = S_Join \<and> (\<forall>t. (th_step b p)\<^sup>*\<^sup>* u t \<longrightarrow> th_pc t = S_Join)"
proof -
  have i: "th_inv b p s" by (rule starts.reach_inv[OF r])
  let ?u = "EventLoopThread_delete s"
  have u: "hanging ?u" using i s by (simp add: th_inv_defs hanging_def EventLoopThread_delete_def)
  have "hanging t" if "(th_step b p)\<^sup>*\<^sup>* ?u t" for t
    using that by (induction rule: rtranclp_induct) (use u hanging_step in blast)+
  then show ?thesis using s(1) u by (auto simp: starter_next_def hanging_def)
qed

section \<open>CountDownLatch\<close>

record latch =
  la_count :: int
  la_blocked :: "nat set"
  la_woken :: "nat set"
  la_passed :: "nat set"

definition CountDownLatch_new :: "int \<Rightarrow> latch" where
  "CountDownLatch_new count = \<lparr>la_count = count, la_blocked = {}, la_woken = {}, la_passed = {}\<rparr>"

definition latch_wait :: "nat \<Rightarrow> latch \<Rightarrow> latch" where
  "latch_wait i s =
     (if la_count s = 0 then s\<lparr>la_passed := insert i (la_passed s), la_woken := la_woken s - {i}\<rparr>
      else s\<lparr>la_blocked := insert i (la_blocked s), la_woken := la_woken s - {i}\<rparr>)"

definition countDown :: "latch \<Rightarrow> latch result" where
  "countDown s =
     check SignedOverflow (- 2147483648 < la_count s)
      (let s1 = s\<lparr>la_count := la_count s - 1\<rparr> in
       Inr (if la_count s1 = 0 then s1\<lparr>la_woken := la_woken s1 \<union> la_blocked s1, la_blocked := {}\<rparr> else s1))"

definition getCount :: "latch \<Rightarrow> int" where
  "getCount s = la_count s"

inductive latch_step :: "latch \<Rightarrow> latch \<Rightarrow> bool" where
  la_wait: "i \<notin> la_blocked s \<Longrightarrow> i \<notin> la_passed s \<Longrightarrow> latch_step s (latch_wait i s)"
| la_count_down: "countDown s = Inr t \<Longrightarrow> latch_step s t"
| la_spurious: "i \<in> la_blocked s \<Longrightarrow>
    latch_step s (s\<lparr>la_blocked := la_blocked s - {i}, la_woken := insert i (la_woken s)\<rparr>)"

definition latch_inv :: "latch \<Rightarrow> bool" where
  "latch_inv s \<longleftrightarrow> (la_count s = 0 \<longrightarrow> la_blocked s = {}) \<and> (la_passed s \<noteq> {} \<longrightarrow> la_count s \<le> 0)"

interpretation latches: invariant_system "\<lambda>s. \<exists>n. s = CountDownLatch_new n" latch_step latch_inv
proof
  fix s t assume "latch_step s t" "latch_inv s"
  then show "latch_inv t"
    by (cases rule: latch_step.cases) (auto simp: latch_inv_def latch_wait_def countDown_def check_def split: if_splits)
qed (auto simp: CountDownLatch_new_def latch_inv_def)

text \<open>The predicate of the wait makes the difference to \<open>Thread::start\<close>: nobody is left blocked at zero.\<close>

theorem latch_releases:
  assumes "reach (\<lambda>s. \<exists>n. s = CountDownLatch_new n) latch_step s" and "getCount s = 0" and "i \<in> la_woken s"
  shows "la_blocked s = {} \<and> i \<in> la_passed (latch_wait i s) \<and> (\<forall>j. j \<notin> la_blocked (latch_wait j s))"
  using latches.reach_inv[OF assms(1)] assms(2,3) by (auto simp: latch_inv_def latch_wait_def getCount_def)

section \<open>EventLoopThreadPool\<close>

text \<open>A loop is its pointer; \<open>start_loop i\<close> is what \<open>startLoop\<close> of the \<open>i\<close>-th thread returns.\<close>

record pool =
  po_mainLoop :: ptr
  po_threadNums :: int
  po_loops :: "ptr list"
  po_nextLoopIndex :: int

definition EventLoopThreadPool_new :: "ptr \<Rightarrow> int \<Rightarrow> pool" where
  "EventLoopThreadPool_new mainLoop threadNums =
     \<lparr>po_mainLoop = mainLoop, po_threadNums = threadNums, po_loops = [], po_nextLoopIndex = 0\<rparr>"

definition setThreadNums :: "int \<Rightarrow> pool \<Rightarrow> pool" where
  "setThreadNums n pl = pl\<lparr>po_threadNums := n\<rparr>"

definition EventLoopThreadPool_start :: "(int \<Rightarrow> ptr) \<Rightarrow> pool \<Rightarrow> pool" where
  "EventLoopThreadPool_start start_loop pl =
     foldl (\<lambda>p i. p\<lparr>po_loops := po_loops p @ [start_loop i]\<rparr>) pl [0 .. po_threadNums pl - 1]"

definition getNextLoop :: "pool \<Rightarrow> (ptr \<times> pool) result" where
  "getNextLoop pl =
     (if po_loops pl = [] then Inr (po_mainLoop pl, pl)
      else check OutOfBounds (0 \<le> po_nextLoopIndex pl \<and> po_nextLoopIndex pl < int (length (po_loops pl)))
       (let loop = po_loops pl ! nat (po_nextLoopIndex pl); i = po_nextLoopIndex pl + 1 in
        check SignedOverflow (i \<le> 2147483647)
         (Inr (loop, pl\<lparr>po_nextLoopIndex := (if int (length (po_loops pl)) \<le> i then 0 else i)\<rparr>))))"

fun next_loops :: "nat \<Rightarrow> pool \<Rightarrow> (ptr list \<times> pool) result" where
  "next_loops 0 pl = Inr ([], pl)"
| "next_loops (Suc n) pl = bindr (getNextLoop pl) (\<lambda>(l, p1). bindr (next_loops n p1) (\<lambda>(ls, p2). Inr (l # ls, p2)))"

definition round_robin :: "pool \<Rightarrow> nat \<Rightarrow> ptr" where
  "round_robin pl k = (if po_loops pl = [] then po_mainLoop pl
     else po_loops pl ! ((nat (po_nextLoopIndex pl) + k) mod length (po_loops pl)))"

definition pool_inv :: "pool \<Rightarrow> bool" where
  "pool_inv pl \<longleftrightarrow> length (po_loops pl) \<le> 2147483647 \<and> 0 \<le> po_nextLoopIndex pl \<and>
     (po_loops pl \<noteq> [] \<longrightarrow> po_nextLoopIndex pl < int (length (po_loops pl)))"

lemma pool_start_eq: "EventLoopThreadPool_start f pl =
    pl\<lparr>po_loops := po_loops pl @ map f [0 .. po_threadNums pl - 1]\<rparr>"
proof -
  have "foldl (\<lambda>p i. p\<lparr>po_loops := po_loops p @ [f i]\<rparr>) pl is = pl\<lparr>po_loops := po_loops pl @ map f is\<rparr>" for "is"
    by (induction "is" arbitrary: pl) simp_all
  then show ?thesis by (simp add: EventLoopThreadPool_start_def)
qed

lemma pool_started_inv: "n \<le> 2147483647 \<Longrightarrow> pool_inv (EventLoopThreadPool_start f (setThreadNums n (EventLoopThreadPool_new m k)))"
  by (auto simp: pool_start_eq setThreadNums_def EventLoopThreadPool_new_def pool_inv_def)

lemma getNextLoop_eq:
  assumes "pool_inv pl"
  shows "\<exists>p1. getNextLoop pl = Inr (round_robin pl 0, p1) \<and> pool_inv p1 \<and> (\<forall>k. round_robin p1 k = round_robin pl (Suc k))"
proof (cases "po_loops pl = []")
  case True
  then show ?thesis using assms by (simp add: getNextLoop_def round_robin_def)
next
  case False
  let ?i = "nat (po_nextLoopIndex pl)" and ?n = "length (po_loops pl)"
  let ?p = "pl\<lparr>po_nextLoopIndex := (if int ?n \<le> po_nextLoopIndex pl + 1 then 0 else po_nextLoopIndex pl + 1)\<rparr>"
  have i: "0 \<le> po_nextLoopIndex pl" "?i < ?n" "?n \<le> 2147483647" using assms False by (auto simp: pool_inv_def)
  have b: "po_nextLoopIndex pl < int ?n" "po_nextLoopIndex pl \<le> 2147483646" using i by linarith+
  then have "getNextLoop pl = Inr (round_robin pl 0, ?p)"
    using False i by (simp add: getNextLoop_def round_robin_def Let_def)
  moreover have "pool_inv ?p" using i False by (auto simp: pool_inv_def)
  moreover have "nat (po_nextLoopIndex ?p) = Suc ?i mod ?n"
    using i by (auto simp: mod_Suc)
  then have "round_robin ?p k = round_robin pl (Suc k)" for k
    using False by (simp add: round_robin_def mod_simps)
  ultimately show ?thesis by blast
qed

text \<open>C34. Successive calls of \<open>getNextLoop\<close> return what the reference gives: the loops of the pool in turn,
  from the current index and wrapping round, or the main loop of an empty pool; the index stays in
  bounds.\<close>

theorem next_loops_round_robin:
  assumes "pool_inv pl"
  shows "\<exists>p'. next_loops n pl = Inr (map (round_robin pl) [0..<n], p') \<and> pool_inv p'"
  using assms
proof (induction n arbitrary: pl)
  case (Suc n)
  obtain p1 where p1: "getNextLoop pl = Inr (round_robin pl 0, p1)" "pool_inv p1"
      "\<forall>k. round_robin p1 k = round_robin pl (Suc k)"
    using getNextLoop_eq[OF Suc.prems] by blast
  obtain p2 where p2: "next_loops n p1 = Inr (map (round_robin p1) [0..<n], p2)" "pool_inv p2"
    using Suc.IH[OF p1(2)] by blast
  have "map (round_robin pl) [0..<Suc n] = round_robin pl 0 # map (round_robin p1) [0..<n]"
    using p1(3) by (simp add: upt_conv_Cons map_Suc_upt[symmetric] del: upt_Suc)
  then show ?case using p1 p2 by simp
qed simp

theorem next_loops_round_robin_witness:
  "\<exists>p'. next_loops 4 (EventLoopThreadPool_start (\<lambda>i. nat i + 20) (setThreadNums 3 (EventLoopThreadPool_new 9 0))) =
    Inr ([20, 21, 22, 20], p')"
proof -
  let ?p = "EventLoopThreadPool_start (\<lambda>i. nat i + 20) (setThreadNums 3 (EventLoopThreadPool_new 9 0))"
  have "pool_inv ?p" by (rule pool_started_inv) simp
  from next_loops_round_robin[OF this, of 4] obtain q where "next_loops 4 ?p = Inr (map (round_robin ?p) [0..<4], q)" by blast
  moreover have "[0..<4] = [0, 1, 2, 3 :: nat]" by (simp add: upt_rec)
  moreover have "po_loops ?p = [20, 21, 22]" "po_nextLoopIndex ?p = 0"
    by (simp_all add: pool_start_eq setThreadNums_def EventLoopThreadPool_new_def upto.simps)
  ultimately show ?thesis by (simp add: round_robin_def)
qed


end
