(* ===== verification/Servers.thy ===== *)
theory Servers
  imports ConnSystem SockAddrs "HOL-Library.List_Lexorder" "HOL-Library.Char_ord"
begin

text \<open>
  \<open>src/stnl/TcpServer.h\<close> and \<open>TcpServer.cpp\<close>: the acceptor with its spare descriptor, and the
  server's map from names to connections. Here the server has no loop threads (see ServerPool; \<open>threadNums\<close> is 0,
  the default), so every connection lives in the server's own loop.
\<close>

section \<open>State\<close>

text \<open>
  \<open>cx_refs\<close> is the set of connections \<open>connections_\<close> holds. What the kernel answers to
  \<open>accept\<close> (with the peer's address), the \<open>errno\<close> it leaves, its second answer and the
  new spare descriptor are the fields of \<open>accept_env\<close>.
\<close>

record sloop = wloop +
  sv_listenFd :: int
  sv_listenChannel :: ptr
  sv_idleFd :: int
  sv_name :: string
  sv_connections :: "string \<Rightarrow> ptr option"
  sv_connectionCb :: bool
  sv_messageCb :: bool
  sv_writeCompleteCb :: bool

record accept_env =
  ac_outcome :: "int \<times> byte list"
  ac_errno :: int
  ac_again :: int
  ac_open :: int

definition EMFILE :: int where "EMFILE = 24"

section \<open>Acceptor\<close>

definition Acceptor_new :: "int \<Rightarrow> ptr \<Rightarrow> int \<Rightarrow> sockaddr \<Rightarrow> 'z sloop_scheme \<Rightarrow> 'z sloop_scheme result" where
  "Acceptor_new listenFd p idleFd addr s0 =
     (case SocketUtil_createNonblockSocket listenFd (sa_family addr) s0 of
        (fd, s) \<Rightarrow>
      check BadAlloc (rx_chans s p = None)
       (let s1 = Channel_put p (Channel_make fd) (s\<lparr>sv_listenFd := fd, sv_listenChannel := p\<rparr>);
            s2 = (sys_call (SysOpenNull idleFd) s1)\<lparr>sv_idleFd := idleFd\<rparr>
        in assert_c (0 \<le> idleFd)
            (let s3 = Channel_put p ((Channel_make fd)\<lparr>ch_readCb := Some CbAcceptorRead\<rparr>) s2
             in Inr (Socket_bindAddress fd addr (Socket_setPortReuse fd True (Socket_setAddrReuse fd True s3))))))"

text \<open>The body of the destructor, then the channel and the socket, which it closes.\<close>

definition Acceptor_delete :: "'z sloop_scheme \<Rightarrow> 'z sloop_scheme result" where
  "Acceptor_delete s =
     bindr (disableAll (sv_listenChannel s) s)
      (\<lambda>s1. bindr (Channel_remove (sv_listenChannel s1) s1)
        (\<lambda>s2. let s3 = sys_call (SysClose (sv_idleFd s2)) s2
              in Inr (Socket_delete (sv_listenFd s3) (Channel_destroy (sv_listenChannel s3) s3))))"

definition Acceptor_listen :: "'z sloop_scheme \<Rightarrow> 'z sloop_scheme result" where
  "Acceptor_listen s = enableRead (sv_listenChannel s) (Socket_listen (sv_listenFd s) s)"

definition Acceptor_handleRead :: "(int \<Rightarrow> sockaddr \<Rightarrow> 'z sloop_scheme \<Rightarrow> 'z sloop_scheme result) option \<Rightarrow>
    accept_env \<Rightarrow> sockaddr \<Rightarrow> 'z sloop_scheme \<Rightarrow> 'z sloop_scheme result" where
  "Acceptor_handleRead cb A client_addr s =
     (case Socket_accept (sv_listenFd s) (ac_outcome A) client_addr s of
        (connect_fd, addr, s1) \<Rightarrow>
          if 0 \<le> connect_fd
          then (case cb of Some f \<Rightarrow> f connect_fd addr s1 | None \<Rightarrow> Inr (SocketUtil_closeSocket connect_fd s1))
          else if ac_errno A = EMFILE
          then let s2 = sys_call (SysClose (sv_idleFd s1)) s1;
                   s3 = (sys_call (SysAccept (sv_listenFd s2)) s2)\<lparr>sv_idleFd := ac_again A\<rparr>;
                   s4 = sys_call (SysClose (sv_idleFd s3)) s3
               in Inr ((sys_call (SysOpenNull (ac_open A)) s4)\<lparr>sv_idleFd := ac_open A\<rparr>)
          else Inr s1)"

section \<open>The map of connections\<close>

text \<open>\<open>snprintf\<close> into a buffer of 64 bytes.\<close>

definition connection_name :: "inet \<Rightarrow> string \<Rightarrow> sockaddr \<Rightarrow> string" where
  "connection_name net name peer =
     name @ take 63 (''-'' @ ip_str net peer @ '':'' @ dec (unat (sa_port peer)))"

definition connections_put :: "string \<Rightarrow> ptr \<Rightarrow> 'z sloop_scheme \<Rightarrow> 'z sloop_scheme result" where
  "connections_put name p s =
     (case sv_connections s name of
        None \<Rightarrow> Inr (s\<lparr>sv_connections := (sv_connections s)(name \<mapsto> p), cx_refs := insert p (cx_refs s)\<rparr>)
      | Some q \<Rightarrow> drop_ref q
          (s\<lparr>sv_connections := (sv_connections s)(name \<mapsto> p), cx_refs := insert p (cx_refs s - {q})\<rparr>))"

text \<open>\<open>erase(name)\<close>; the connection \<open>p\<close> is kept alive by the caller's pointer.\<close>

definition connections_erase :: "string \<Rightarrow> ptr \<Rightarrow> 'z sloop_scheme \<Rightarrow> 'z sloop_scheme result" where
  "connections_erase name p s =
     (case sv_connections s name of
        None \<Rightarrow> Inr s
      | Some q \<Rightarrow>
          let s1 = s\<lparr>sv_connections := (sv_connections s)(name := None), cx_refs := cx_refs s - {q}\<rparr>
          in if q = p then Inr s1 else drop_ref q s1)"

section \<open>TcpServer\<close>

definition newConnectionCallback :: "('z sloop_ext wloop_scheme) conn_env \<Rightarrow> inet \<Rightarrow> bool \<Rightarrow> ptr \<Rightarrow> int \<Rightarrow>
    sockaddr \<Rightarrow> 'z sloop_scheme \<Rightarrow> 'z sloop_scheme result" where
  "newConnectionCallback E net inLoop p socketFd peerAddr s =
     assertInLoopThread inLoop
      (let connectionName = connection_name net (sv_name s) peerAddr in
       bindr (TcpConnection_new p connectionName socketFd s)
        (\<lambda>s1. bindr (connections_put connectionName p s1)
          (\<lambda>s2. bindr (set_callbacks p (sv_connectionCb s2) (sv_messageCb s2) (sv_writeCompleteCb s2) CloseOwner s2)
            (runInLoop (\<lambda>_. connectionEstablish E p) inLoop (Some (FnEstablish p))))))"

definition removeConnectionInLoop :: "bool \<Rightarrow> ptr \<Rightarrow> 'z sloop_scheme \<Rightarrow> 'z sloop_scheme result" where
  "removeConnectionInLoop inLoop p s =
     assertInLoopThread inLoop
      (bindr (deref (cx_conns s) p)
        (\<lambda>c. bindr (connections_erase (cn_name c) p s) (\<lambda>s1. Inr (queueInLoop inLoop (FnDestroy p) s1))))"

definition removeConnection :: "bool \<Rightarrow> ptr \<Rightarrow> 'z sloop_scheme \<Rightarrow> 'z sloop_scheme result" where
  "removeConnection inLoop p s =
     runInLoop (\<lambda>_. removeConnectionInLoop inLoop p) inLoop (Some (FnRemoveConnection p)) s"

definition server_close :: "closecb \<Rightarrow> ptr \<Rightarrow> 'z sloop_scheme \<Rightarrow> 'z sloop_scheme result" where
  "server_close cb p s = (case cb of CloseOwner \<Rightarrow> removeConnection True p s | CloseDetached \<Rightarrow> owner_close False cb p s)"

definition TcpServer_new :: "int \<Rightarrow> ptr \<Rightarrow> int \<Rightarrow> sockaddr \<Rightarrow> string \<Rightarrow> wloop \<Rightarrow> sloop result" where
  "TcpServer_new listenFd p idleFd listenAddr name s =
     Acceptor_new listenFd p idleFd listenAddr (wloop.extend s
       \<lparr>sv_listenFd = -1, sv_listenChannel = 0, sv_idleFd = -1, sv_name = name, sv_connections = Map.empty,
        sv_connectionCb = False, sv_messageCb = False, sv_writeCompleteCb = False\<rparr>)"

definition set_server_callbacks :: "bool \<Rightarrow> bool \<Rightarrow> bool \<Rightarrow> 'z sloop_scheme \<Rightarrow> 'z sloop_scheme" where
  "set_server_callbacks ccb mcb wcb s = s\<lparr>sv_connectionCb := ccb, sv_messageCb := mcb, sv_writeCompleteCb := wcb\<rparr>"

definition TcpServer_start :: "bool \<Rightarrow> 'z sloop_scheme \<Rightarrow> 'z sloop_scheme result" where
  "TcpServer_start inLoop s =
     bindr (runInLoop (\<lambda>_. Acceptor_listen) inLoop (Some FnListen) s) loop_enter"

text \<open>The destructor: each connection is taken out of the map, torn down and released.\<close>

definition close_one :: "('z sloop_ext wloop_scheme) conn_env \<Rightarrow> string \<Rightarrow> 'z sloop_scheme \<Rightarrow> 'z sloop_scheme result" where
  "close_one E name s =
     (case sv_connections s name of
        None \<Rightarrow> Inr s
      | Some p \<Rightarrow>
          bindr (connectionDestory E p (s\<lparr>sv_connections := (sv_connections s)(name := None), cx_refs := cx_refs s - {p}\<rparr>))
            (drop_ref p))"

definition TcpServer_delete :: "('z sloop_ext wloop_scheme) conn_env \<Rightarrow> bool \<Rightarrow> 'z sloop_scheme \<Rightarrow> 'z sloop_scheme result" where
  "TcpServer_delete E inLoop s =
     assertInLoopThread inLoop
      (bindr (fold_res (close_one E) (sorted_list_of_set (dom (sv_connections s))) s) Acceptor_delete)"

section \<open>The map keeps what it is told\<close>

definition sv_inv :: "'z sloop_scheme \<Rightarrow> bool" where
  "sv_inv s \<longleftrightarrow> cx_refs s = ran (sv_connections s) \<and>
     (\<forall>n p. sv_connections s n = Some p \<longrightarrow> (\<exists>c. cx_conns s p = Some c \<and> cn_name c = n))"

lemma sv_inv_name: "sv_inv s \<Longrightarrow> sv_connections s n = Some p \<Longrightarrow> cx_conns s p = Some c \<Longrightarrow> cn_name c = n"
proof -
  assume a: "sv_inv s" "sv_connections s n = Some p" "cx_conns s p = Some c"
  then obtain d where "cx_conns s p = Some d" "cn_name d = n" unfolding sv_inv_def by blast
  with a(3) show ?thesis by simp
qed

lemma sv_inv_entry:
  assumes "sv_inv s" and "p \<in> cx_refs s" and "cx_conns s p = Some c"
  shows "sv_connections s (cn_name c) = Some p"
proof -
  obtain n where n: "sv_connections s n = Some p" using assms(1,2) by (auto simp: sv_inv_def ran_def)
  from sv_inv_name[OF assms(1) n assms(3)] n show ?thesis by simp
qed

lemma ran_remove:
  assumes "m n = Some p" and "\<forall>k. m k = Some p \<longrightarrow> k = n"
  shows "ran (m(n := None)) = ran m - {p}"
proof (intro equalityI subsetI)
  fix x assume "x \<in> ran (m(n := None))"
  then obtain k where "(m(n := None)) k = Some x" by (auto simp: ran_def)
  then have k: "k \<noteq> n" "m k = Some x" by (simp_all split: if_splits)
  with assms(2) show "x \<in> ran m - {p}" by (auto intro: ranI)
next
  fix x assume "x \<in> ran m - {p}"
  then obtain k where k: "m k = Some x" "x \<noteq> p" by (auto simp: ran_def)
  with assms(1) have "k \<noteq> n" by auto
  with k have "(m(n := None)) k = Some x" by simp
  then show "x \<in> ran (m(n := None))" by (rule ranI)
qed

lemma sv_inv_erase:
  assumes i: "sv_inv s" and p: "p \<in> cx_refs s" "cx_conns s p = Some c"
  shows "sv_inv (s\<lparr>sv_connections := (sv_connections s)(cn_name c := None), cx_refs := cx_refs s - {p}\<rparr>)"
proof -
  have "\<forall>k. sv_connections s k = Some p \<longrightarrow> k = cn_name c" using sv_inv_name[OF i _ p(2)] by blast
  from ran_remove[of "sv_connections s", OF sv_inv_entry[OF i p] this] i show ?thesis by (auto simp: sv_inv_def)
qed

text \<open>
  As long as no two connections have the same name, the server is the owner that \<open>ConnSystem\<close>
  assumes: a new connection is opened as \<open>conn_open\<close> says and one that closes is given up as
  \<open>owner_erase\<close> says, and the map has exactly the connections it holds.
\<close>

lemma accept_is_open:
  assumes "sv_connections s (connection_name net (sv_name s) peer) = None"
  shows "newConnectionCallback E net True p fd peer s =
    conn_open E True p (connection_name net (sv_name s) peer) fd (sv_connectionCb s) (sv_messageCb s)
      (sv_writeCompleteCb s) (s\<lparr>sv_connections := (sv_connections s)(connection_name net (sv_name s) peer \<mapsto> p)\<rparr>)"
proof -
  let ?n = "connection_name net (sv_name s) peer"
  let ?u = "\<lambda>s. s\<lparr>sv_connections := (sv_connections s)(?n \<mapsto> p)\<rparr>"
  have "TcpConnection_new p ?n fd (?u s) = bindr (TcpConnection_new p ?n fd s) (\<lambda>t. Inr (?u t))"
    by (cases "NetBuffer_new InitialBufferSize")
      (simp_all add: TcpConnection_new_def check_def bindr_def put_conn_def Channel_put_def sys_call_def)
  moreover have "connections_put ?n p t = Inr ((?u t)\<lparr>cx_refs := insert p (cx_refs (?u t))\<rparr>)" 
      "sv_connectionCb t = sv_connectionCb s" "sv_messageCb t = sv_messageCb s" "sv_writeCompleteCb t = sv_writeCompleteCb s"
    if "TcpConnection_new p ?n fd s = Inr t" for t
    using that assms by (auto simp: TcpConnection_new_def connections_put_def bindr_eq_Inr check_def put_conn_def
        Channel_put_def sys_call_def split: if_splits)
  ultimately show ?thesis
    by (cases "TcpConnection_new p ?n fd s")
      (simp_all add: newConnectionCallback_def assertInLoopThread_def conn_open_def)
qed

lemma remove_is_erase:
  assumes i: "sv_inv s" and p: "p \<in> cx_refs s" "cx_conns s p = Some c"
  shows "removeConnection True p s =
    owner_erase True p (s\<lparr>sv_connections := (sv_connections s)(cn_name c := None)\<rparr>)"
  using sv_inv_entry[OF assms] p(2)
  by (simp add: removeConnection_def runInLoop_def removeConnectionInLoop_def assertInLoopThread_def
      connections_erase_def owner_erase_def)

section \<open>Two clients with the same source port\<close>

lemma unwatched_fd:
  assumes "rx_inv s" and "\<forall>q ch. rx_chans s q = Some ch \<longrightarrow> ch_fd ch \<noteq> fd"
  shows "rx_channelMap s fd = None"
proof (cases "rx_channelMap s fd")
  case (Some q)
  from rx_wf_mapD[OF rx_inv_wf[OF assms(1)] this] assms(2) show ?thesis by auto
qed

definition anonymous_name :: "inet \<Rightarrow> string \<Rightarrow> 16 word \<Rightarrow> string" where
  "anonymous_name net name port = name @ take 63 (''-'' @ ntop6 net (replicate 16 0) @ '':'' @ dec (unat port))"

lemma ipv4_name:
  assumes "length ip4 = 4" and "0 \<le> res"
  shows "\<exists>a. Socket_accept lfd (res, in_bytes port ip4) addr s = (res, a, sys_call (SysAccept lfd) s) \<and>
    connection_name net name a = anonymous_name net name port"
proof -
  from accept_loses_ipv4_peer[OF assms, of lfd port addr s net]
  obtain a where "Socket_accept lfd (res, in_bytes port ip4) addr s = (res, a, sys_call (SysAccept lfd) s)"
      "ip_str net a = ntop6 net (replicate 16 0)" "sa_port a = port" by blast
  then show ?thesis by (auto simp: connection_name_def anonymous_name_def)
qed

text \<open>C19. All IPv4 peers print the same address, so the name of a connection is that of any other whose
  peer has the same port. Accepting such a peer destroys the earlier connection while it is registered:
  its application is not told, its entry stays in the selector with a dangling pointer, and the next
  connection that gets its descriptor fails an assertion.\<close>

theorem same_port_destroys_connection:
  assumes inv: "rx_inv s" and q: "sv_connections s (anonymous_name net (sv_name s) port) = Some q"
    and c: "cx_conns s q = Some c" "rx_chans s q = Some ch" "ch_fd ch = cn_fd c" "ch_state ch = ADDED"
    and held: "q \<notin> set (concat (map held (el_pending s)))"
    and peer: "length ip4 = 4" "0 \<le> fd" "ac_outcome A = (fd, in_bytes port ip4)"
    and free: "cx_conns s p = None" "rx_chans s p = None" "\<forall>r d. rx_chans s r = Some d \<longrightarrow> ch_fd d \<noteq> fd"
    and quiet: "\<forall>u. ce_app E (AppConnection p) u = []"
  shows "\<exists>t. Acceptor_handleRead (Some (newConnectionCallback E net True p)) A addr s = Inr t \<and>
    cx_conns t q = None \<and> rx_chans t q = None \<and> rx_channelMap t (cn_fd c) = Some q \<and>
    (\<forall>st. (AppConnection q, st) \<in> set (cx_log t) \<longrightarrow> (AppConnection q, st) \<in> set (cx_log s)) \<and>
    (\<forall>E' r peer'. cx_conns t r = None \<and> rx_chans t r = None \<and>
       sv_connections t (connection_name net (sv_name t) peer') = None \<longrightarrow>
       newConnectionCallback E' net True r (cn_fd c) peer' t = Inl AssertFailed)"
proof -
  let ?n = "anonymous_name net (sv_name s) port"
  obtain b where b: "NetBuffer_new InitialBufferSize = Inr b"
    using NetBuffer_new_ok[of InitialBufferSize] by (auto simp: InitialBufferSize_def vec_max_def)
  obtain a where a: "Socket_accept (sv_listenFd s) (fd, in_bytes port ip4) addr s =
      (fd, a, sys_call (SysAccept (sv_listenFd s)) s)" "connection_name net (sv_name s) a = ?n"
    using ipv4_name[OF peer(1,2)] by blast
  have pq: "p \<noteq> q" using free(1) c(1) by auto
  have fds: "fd \<noteq> cn_fd c" using free(3) c(2,3) by auto
  have unw: "rx_channelMap s fd = None" by (rule unwatched_fd[OF inv free(3)])
  have w: "rx_channelMap s (cn_fd c) = Some q" using rx_wf_chanD[OF rx_inv_wf[OF inv] c(2)] c(3,4) by simp
  have kr: "kReadEvent \<noteq> kNoneEvent" by (simp add: kReadEvent_def kNoneEvent_def event_consts)
  have "\<exists>t. Acceptor_handleRead (Some (newConnectionCallback E net True p)) A addr s = Inr t \<and>
    cx_conns t q = None \<and> rx_chans t q = None \<and> rx_channelMap t (cn_fd c) = Some q \<and>
    (\<forall>st. (AppConnection q, st) \<in> set (cx_log t) \<longrightarrow> (AppConnection q, st) \<in> set (cx_log s))"
    using pq fds unw w a b q c held free quiet peer(2,3)
    by (simp add: Acceptor_handleRead_def newConnectionCallback_def assertInLoopThread_def TcpConnection_new_def
        connections_put_def drop_ref_def unreferenced_def TcpConnection_delete_def set_callbacks_def runInLoop_def
        connectionEstablish_def enableRead_def Channel_request_def Channel_update_def Epoll_updateChannel_def
        Epoll_update_def Channel_put_def Channel_destroy_def put_conn_def conn_channel_def Channel_make_def sys_call_def
        connectionCallback_def notify_def)
  then obtain t where t: "Acceptor_handleRead (Some (newConnectionCallback E net True p)) A addr s = Inr t"
    "cx_conns t q = None" "rx_chans t q = None" "rx_channelMap t (cn_fd c) = Some q"
    "\<forall>st. (AppConnection q, st) \<in> set (cx_log t) \<longrightarrow> (AppConnection q, st) \<in> set (cx_log s)" by blast
  have "newConnectionCallback E' net True r (cn_fd c) peer' t = Inl AssertFailed"
    if "cx_conns t r = None" "rx_chans t r = None" "sv_connections t (connection_name net (sv_name t) peer') = None" for E' r peer'
    using that t(4) b
    by (simp add: newConnectionCallback_def assertInLoopThread_def TcpConnection_new_def
        connections_put_def set_callbacks_def runInLoop_def
        connectionEstablish_def enableRead_def Channel_request_def Channel_update_def Epoll_updateChannel_def
        Channel_put_def put_conn_def conn_channel_def Channel_make_def sys_call_def)
  with t show ?thesis by blast
qed

section \<open>Out of descriptors\<close>

text \<open>The spare descriptor lets one waiting connection be accepted and closed.\<close>

theorem emfile_turns_away_one:
  assumes "ac_outcome A = (res, peer)" and "res < 0" and "ac_errno A = EMFILE"
  shows "\<exists>t. Acceptor_handleRead cb A addr s = Inr t \<and> sv_idleFd t = ac_open A \<and> cx_conns t = cx_conns s \<and>
    sv_connections t = sv_connections s \<and>
    rx_trace t = rx_trace s @ [SysAccept (sv_listenFd s), SysClose (sv_idleFd s), SysAccept (sv_listenFd s),
      SysClose (ac_again A), SysOpenNull (ac_open A)]"
  using assms
  by (simp add: Acceptor_handleRead_def Socket_accept_def SocketUtil_acceptSocket_def sys_call_def)

section \<open>A small server\<close>

definition idle_server :: sloop where
  "idle_server = wloop.extend no_conns
     \<lparr>sv_listenFd = 5, sv_listenChannel = 4, sv_idleFd = 6, sv_name = ''s'', sv_connections = Map.empty,
      sv_connectionCb = True, sv_messageCb = True, sv_writeCompleteCb = False\<rparr>"

definition server_env :: "sloop conn_env" where
  "server_env = (application False (\<lambda>_ _. 0) (\<lambda>_. Inr) (\<lambda>_ _. []))\<lparr>ce_close := server_close\<rparr>"

definition first_peer :: sockaddr where
  "first_peer = \<lparr>sa_mem = in_bytes 4242 [10, 0, 0, 1] @ replicate 12 0, sa_ipv6 = True\<rparr>"

lemma idle_server_fields:
  "rx_chans idle_server = Map.empty" "rx_channelMap idle_server = Map.empty" "cx_conns idle_server = Map.empty"
  "cx_refs idle_server = {}" "cx_log idle_server = []" "el_pending idle_server = []" "sv_connections idle_server = Map.empty"
  "sv_name idle_server = ''s''" "sv_connectionCb idle_server" "sv_listenFd idle_server = 5" "rx_trace idle_server = []"
  by (simp_all add: idle_server_def no_conns_def raw_loop_def tloop.defs wloop.defs)

lemma one_entry_eq [simp]: "[k \<mapsto> a] = [k \<mapsto> b] \<longleftrightarrow> a = b"
  by (metis fun_upd_same option.inject)

lemma one_client:
  "\<exists>s c ch. rx_inv (s :: sloop) \<and> sv_inv s \<and> sv_connections s (anonymous_name toy_inet ''s'' 4242) = Some 20 \<and> sv_name s = ''s'' \<and>
    cx_conns s = [20 \<mapsto> c] \<and> rx_chans s = [20 \<mapsto> ch] \<and> ch_fd ch = 9 \<and> cn_fd c = 9 \<and> ch_state ch = ADDED \<and>
    el_pending s = [] \<and> cx_refs s = {20} \<and> sv_connections s = [anonymous_name toy_inet ''s'' 4242 \<mapsto> 20] \<and>
    cn_name c = anonymous_name toy_inet ''s'' 4242"
proof -
  let ?n = "anonymous_name toy_inet ''s'' 4242"
  let ?s = "idle_server\<lparr>sv_connections := [?n \<mapsto> 20]\<rparr>"
  let ?o = "conn_open server_env True 20 ?n 9 True True False ?s"
  note i = idle_server_fields
  have kr: "kReadEvent \<noteq> kNoneEvent" by (simp add: kReadEvent_def kNoneEvent_def event_consts)
  have "rx_inv ?s" by (rule rx_inv_cong[OF rx_inv_new]) (simp_all add: i)
  then have "conns_inv ?s" by (simp add: conns_inv_def i)
  then have "sys_inv [] ?s" by (simp add: sys_inv_def life_def conn_view_def i)
  then have "ok_res (sys_inv []) ?o"
    by (intro ok_res_mono[OF conn_open_ok]) (simp_all add: i app_ok_def server_env_def application_def)
  moreover have "\<exists>t c ch. ?o = Inr t \<and> cx_conns t = [20 \<mapsto> c] \<and> rx_chans t = [20 \<mapsto> ch] \<and> ch_fd ch = 9 \<and> cn_fd c = 9 \<and>
      ch_state ch = ADDED \<and> el_pending t = [] \<and> cx_refs t = {20} \<and> sv_connections t = [?n \<mapsto> 20] \<and> cn_name c = ?n \<and>
      sv_name t = ''s''"
    by (simp add: conn_open_def TcpConnection_new_def fresh_buffer_new i set_callbacks_def runInLoop_def
        connectionEstablish_def enableRead_def Channel_request_def Channel_update_def Epoll_updateChannel_def
        Epoll_update_def Channel_put_def put_conn_def conn_channel_def Channel_make_def sys_call_def
        connectionCallback_def notify_def application_def server_env_def)
  then obtain t c ch where t: "?o = Inr t" "cx_conns t = [20 \<mapsto> c]" "rx_chans t = [20 \<mapsto> ch]" "ch_fd ch = 9" "cn_fd c = 9"
      "ch_state ch = ADDED" "el_pending t = []" "cx_refs t = {20}" "sv_connections t = [?n \<mapsto> 20]" "cn_name c = ?n"
      "sv_name t = ''s''"
    by (elim exE conjE) (rule that, assumption+)
  ultimately have "rx_inv t" by simp
  moreover have "sv_inv t" using t by (auto simp: sv_inv_def)
  ultimately show ?thesis using t by (intro exI[of _ t] exI[of _ c] exI[of _ ch]) simp
qed

theorem same_port_destroys_connection_witness:
  "\<exists>(s :: sloop) t c. cx_conns s 20 = Some c \<and> cn_fd c = 9 \<and>
    Acceptor_handleRead (Some (newConnectionCallback server_env toy_inet True 21))
      \<lparr>ac_outcome = (10, in_bytes 4242 [10, 0, 0, 2]), ac_errno = 0, ac_again = 0, ac_open = 0\<rparr> first_peer s = Inr t \<and>
    cx_conns t 20 = None \<and> rx_channelMap t 9 = Some 20"
proof -
  obtain s :: sloop and c ch where s: "rx_inv s" "sv_connections s (anonymous_name toy_inet ''s'' 4242) = Some 20"
      "sv_name s = ''s''" "cx_conns s = [20 \<mapsto> c]" "rx_chans s = [20 \<mapsto> ch]" "ch_fd ch = 9" "cn_fd c = 9" "ch_state ch = ADDED"
      "el_pending s = []"
    using one_client by (elim exE conjE) (rule that, assumption+)
  let ?A = "\<lparr>ac_outcome = (10, in_bytes 4242 [10, 0, 0, 2]), ac_errno = 0, ac_again = 0, ac_open = 0\<rparr>"
  have q: "sv_connections s (anonymous_name toy_inet (sv_name s) 4242) = Some 20" using s(2,3) by simp
  have quiet: "\<forall>u. ce_app server_env (AppConnection 21) u = []" by (simp add: server_env_def application_def)
  have at: "cx_conns s 20 = Some c" "rx_chans s 20 = Some ch" "ch_fd ch = cn_fd c" "ch_state ch = ADDED"
      "20 \<notin> set (concat (map held (el_pending s)))" "length ([10, 0, 0, 2] :: byte list) = 4" "0 \<le> (10 :: int)"
      "ac_outcome ?A = (10, in_bytes 4242 [10, 0, 0, 2])" "cx_conns s 21 = None" "rx_chans s 21 = None"
      "\<forall>r d. rx_chans s r = Some d \<longrightarrow> ch_fd d \<noteq> 10"
    using s by simp_all
  note sd = same_port_destroys_connection[OF s(1) q at quiet, of first_peer]
  obtain t where "Acceptor_handleRead (Some (newConnectionCallback server_env toy_inet True 21)) ?A first_peer s = Inr t"
      "cx_conns t 20 = None" "rx_channelMap t (cn_fd c) = Some 20"
    using sd by (elim exE conjE) (rule that, assumption+)
  with s show ?thesis by (intro exI[of _ s] exI[of _ t] exI[of _ c]) simp
qed


end
