(* ===== verification/Clients.thy ===== *)
theory Clients
  imports Connectors
begin

text \<open>
  \<open>src/stnl/TcpClient.h\<close> and \<open>TcpClient.cpp\<close>: a connector and at most one connection in the
  same loop. The client lives in the loop's state; \<open>cl_connector\<close> says whether the connector
  object still exists, since functions bound to a raw pointer to it may be queued.
\<close>

section \<open>State\<close>

record cloop = kloop +
  cl_name :: string
  cl_connection :: "ptr option"
  cl_retry :: bool
  cl_connect :: bool
  cl_connectionCb :: bool
  cl_messageCb :: bool
  cl_writeCompleteCb :: bool
  cl_connector :: bool

definition TcpClient_new :: "sockaddr \<Rightarrow> string \<Rightarrow> wloop \<Rightarrow> cloop" where
  "TcpClient_new addr name s = kloop.extend (Connector_new addr s)
     \<lparr>cl_name = name, cl_connection = None, cl_retry = False, cl_connect = True,
      cl_connectionCb = True, cl_messageCb = True, cl_writeCompleteCb = False, cl_connector = True\<rparr>"

definition enableRetry :: "'z cloop_scheme \<Rightarrow> 'z cloop_scheme" where
  "enableRetry s = s\<lparr>cl_retry := True\<rparr>"

text \<open>The default message callback empties the buffer it is given; the default connection
  callback only writes a log line.\<close>

definition defaultMessageCallback :: "ptr \<Rightarrow> conn_call list" where
  "defaultMessageCallback p = [CcRetrieveAll p]"

section \<open>Operations\<close>

definition client_connection_name :: "inet \<Rightarrow> string \<Rightarrow> sockaddr \<Rightarrow> string" where
  "client_connection_name net name peer = name @ take 31 (ip_str net peer @ '':'' @ dec (unat (sa_port peer)))"

text \<open>\<open>connection_ = conn\<close>: the pointer held before is released.\<close>

definition set_connection :: "ptr \<Rightarrow> 'z cloop_scheme \<Rightarrow> 'z cloop_scheme result" where
  "set_connection p s =
     (let s1 = s\<lparr>cl_connection := Some p, cx_refs := insert p (cx_refs s - set_option (cl_connection s))\<rparr> in
      case cl_connection s of None \<Rightarrow> Inr s1 | Some q \<Rightarrow> drop_ref q s1)"

definition TcpClient_newConnection :: "('z cloop_ext kloop_scheme) conn_env \<Rightarrow> inet \<Rightarrow> byte list option \<Rightarrow> byte list \<Rightarrow>
    ptr \<Rightarrow> int \<Rightarrow> 'z cloop_scheme \<Rightarrow> 'z cloop_scheme result" where
  "TcpClient_newConnection E net peer garbage p socketFd s =
     (let connectionName = client_connection_name net (cl_name s) (SocketUtil_getPeerAddr peer garbage) in
      bindr (TcpConnection_new p connectionName socketFd s)
       (\<lambda>s1. bindr (set_callbacks p (cl_connectionCb s1) (cl_messageCb s1) (cl_writeCompleteCb s1) CloseOwner s1)
         (\<lambda>s2. bindr (set_connection p s2) (connectionEstablish E p))))"

definition TcpClient_removeConnection :: "('z cloop_ext kloop_scheme) conn_kernel \<Rightarrow> bool \<Rightarrow> ptr \<Rightarrow>
    'z cloop_scheme \<Rightarrow> 'z cloop_scheme result" where
  "TcpClient_removeConnection K inLoop p s =
     assertInLoopThread inLoop
      (assert_c (cl_connection s = Some p)
        (let s1 = s\<lparr>cl_connection := None, cx_refs := cx_refs s - {p}\<rparr>;
             s2 = queueInLoop inLoop (FnDestroy p) s1
         in if cl_retry s2 \<and> cl_connect s2 then Connector_restart K inLoop s2 else Inr s2))"

text \<open>The free function \<open>stnl::removeConnection\<close>, which \<open>~TcpClient\<close> installs.\<close>

definition detached_removeConnection :: "ptr \<Rightarrow> 'z wloop_scheme \<Rightarrow> 'z wloop_scheme result" where
  "detached_removeConnection p s = Inr (queueInLoop True (FnDestroy p) s)"

definition client_close :: "('z cloop_ext kloop_scheme) conn_kernel \<Rightarrow> closecb \<Rightarrow> ptr \<Rightarrow>
    'z cloop_scheme \<Rightarrow> 'z cloop_scheme result" where
  "client_close K cb p s =
     (case cb of CloseOwner \<Rightarrow> TcpClient_removeConnection K True p s
      | CloseDetached \<Rightarrow> detached_removeConnection p s)"

definition TcpClient_connect :: "('z cloop_ext kloop_scheme) conn_kernel \<Rightarrow> bool \<Rightarrow> 'z cloop_scheme \<Rightarrow> 'z cloop_scheme result" where
  "TcpClient_connect K inLoop s = Connector_start K inLoop (s\<lparr>cl_connect := True\<rparr>)"

definition TcpClient_disconnect :: "bool \<Rightarrow> 'z cloop_scheme \<Rightarrow> 'z cloop_scheme result" where
  "TcpClient_disconnect inLoop s =
     (let s1 = s\<lparr>cl_connect := False\<rparr> in
      case cl_connection s1 of None \<Rightarrow> Inr s1 | Some p \<Rightarrow> TcpConnection_shutdown inLoop p s1)"

definition TcpClient_stop :: "bool \<Rightarrow> 'z cloop_scheme \<Rightarrow> 'z cloop_scheme" where
  "TcpClient_stop inLoop s = Connector_stop inLoop (s\<lparr>cl_connect := False\<rparr>)"

text \<open>
  The connector goes with its last shared pointer. Only a retry timer holds another one
  (\<open>shared_from_this\<close>); \<open>start\<close>, \<open>stop\<close> and the reset of the channel bind the raw pointer.
\<close>

definition connector_shared :: "'z tloop_scheme \<Rightarrow> bool" where
  "connector_shared s \<longleftrightarrow> (\<exists>p \<in> set (map snd (tq_timers s)).
     case tq_heap s p of None \<Rightarrow> False | Some tm \<Rightarrow> tm_callback tm = Some FnConnectorStart)"

definition Connector_release :: "'z cloop_scheme \<Rightarrow> 'z cloop_scheme" where
  "Connector_release s =
     (if connector_shared s then s
      else (case kc_channel s of None \<Rightarrow> s | Some p \<Rightarrow> (Channel_destroy p s)\<lparr>kc_channel := None\<rparr>)\<lparr>cl_connector := False\<rparr>)"

definition TcpClient_delete :: "bool \<Rightarrow> 'z cloop_scheme \<Rightarrow> 'z cloop_scheme result" where
  "TcpClient_delete inLoop s =
     (case cl_connection s of
        Some p \<Rightarrow>
          bindr (runInLoop (\<lambda>_. setCloseCallback p CloseDetached) inLoop (Some (FnSetCloseCallback p)) s)
           (\<lambda>s1. bindr (if p \<notin> set (concat (map held (el_pending s))) then TcpConnection_forceClose inLoop p s1 else Inr s1)
             (\<lambda>s2. bindr (drop_ref p (s2\<lparr>cl_connection := None, cx_refs := cx_refs s2 - {p}\<rparr>))
               (\<lambda>s3. Inr (Connector_release s3))))
      | None \<Rightarrow> Inr (Connector_release (Connector_stop inLoop s)))"

text \<open>The functions queued for the connector, and those for the connection.\<close>

definition client_exec :: "('z cloop_ext kloop_scheme) conn_env \<Rightarrow> ('z cloop_ext kloop_scheme) conn_kernel \<Rightarrow>
    (task \<Rightarrow> 'z cloop_scheme \<Rightarrow> conn_call list) \<Rightarrow> task \<Rightarrow> 'z cloop_scheme \<Rightarrow> 'z cloop_scheme result" where
  "client_exec E K user f s =
     (if f \<in> {FnConnectorStart, FnConnectorStop, FnConnectorResetChannel}
      then if cl_connector s then connector_exec K f s else Inl DanglingPointer
      else conn_exec E user f s)"

section \<open>The destructor while connecting\<close>

lemma queueInLoop_cl [simp]:
  "cl_connection (queueInLoop b f s) = cl_connection s" "cl_retry (queueInLoop b f s) = cl_retry s"
  "cl_connect (queueInLoop b f s) = cl_connect s" "kloop.more (queueInLoop b f s) = kloop.more s"
  "cx_refs (queueInLoop b f s) = cx_refs s"
  by (simp_all add: queueInLoop_def queue_push_def wakeup_def sys_call_def)

text \<open>C20. A client destroyed while it connects takes the connector's channel with it: the kernel still
  watches the descriptor with a pointer to the destroyed channel, the next event on it dereferences
  that pointer, and the queued \<open>stopInLoop\<close> is bound to the destroyed connector.\<close>

theorem destructor_dangles:
  assumes w: "connector_watching p ch s" and none: "cl_connection s = None" "\<not> connector_shared s" "el_pending s = []"
  shows "\<exists>t. TcpClient_delete True s = Inr t \<and> rx_chans t p = None \<and>
    interest (rx_trace t) (ch_fd ch) = Some (ch_requested ch, p) \<and>
    (\<forall>e act. select_one (p, e) (t, act) = Inl DanglingPointer) \<and>
    (\<forall>E K user. doPendingFunctions (client_exec E K user) t = Inl DanglingPointer)"
proof -
  let ?s = "Connector_stop True s"
  let ?t = "((Channel_destroy p ?s)\<lparr>kc_channel := None\<rparr>)\<lparr>cl_connector := False\<rparr>"
  have c: "rx_inv s" "rx_chans s p = Some ch" "ch_state ch = ADDED" "kc_channel s = Some p"
    using w by (simp_all add: connector_watching_def)
  have "\<not> connector_shared ?s" using none(2) by (simp add: connector_shared_def Connector_stop_def)
  moreover have "cl_connection ?s = None" "kc_channel ?s = Some p" using none c(4) by (simp_all add: Connector_stop_def)
  ultimately have del: "TcpClient_delete True s = Inr ?t"
    using none(1) by (simp add: TcpClient_delete_def Connector_release_def)
  have "rx_channelMap s (ch_fd ch) = Some p" using rx_wf_chanD[OF rx_inv_wf[OF c(1)] c(2)] c(3) by simp
  then have "expected s (ch_fd ch) = Some (ch_requested ch, p)" using c(2,3) by (simp add: expected_def)
  then have "interest (rx_trace s) (ch_fd ch) = Some (ch_requested ch, p)" using rx_inv_wf[OF c(1)] by (simp add: rx_wf_def)
  then have int: "interest (rx_trace ?t) (ch_fd ch) = Some (ch_requested ch, p)"
    by (simp add: Connector_stop_def queueInLoop_def queue_push_def wakeup_def)
  have gone: "rx_chans ?t p = None" by simp
  have "el_pending ?t = [FnConnectorStop]" using none(3) by (simp add: Connector_stop_def Channel_destroy_def)
  then have "doPendingFunctions (client_exec E K user) ?t = Inl DanglingPointer" for E K user
    by (simp add: doPending_eq client_exec_def)
  moreover have "select_one (p, e) (?t, act) = Inl DanglingPointer" for e act
    using gone by (simp add: select_one_def)
  ultimately show ?thesis using del int gone by blast
qed

section \<open>Reconnecting\<close>

lemma cl_connection_more: "kloop.more t = kloop.more s \<Longrightarrow> cl_connection t = cl_connection s"
  for s t :: "'z cloop_scheme"
  by (cases s; cases t) simp

text \<open>
  A connection goes down through \<open>handleClose\<close>: with \<open>retry\<close> and \<open>connect\<close> set the connector
  starts over, otherwise it is left as it was.
\<close>

lemma client_goes_down:
  assumes inv: "rx_inv s" and c: "cx_conns s q = Some c" "rx_chans s q = Some ch"
    and up: "conn_up c" "cn_closeCb c = Some CloseOwner"
    and E: "ce_close E = client_close K" "\<forall>u. ce_app E (AppConnection q) u = []"
  shows "\<exists>u. conn_handleClose E q s = TcpClient_removeConnection K True q u \<and> rx_inv u \<and>
    rx_chans u = (rx_chans s)(q \<mapsto> requested_with 0 ch) \<and> cl_connection u = cl_connection s \<and> cl_retry u = cl_retry s \<and>
    cl_connect u = cl_connect s \<and> kc_channel u = kc_channel s \<and> kc_state u = kc_state s \<and> el_pending u = el_pending s \<and>
    cx_refs u = cx_refs s \<and> cx_conns u = (cx_conns s)(q \<mapsto> c\<lparr>cn_state := DISCONNECTED\<rparr>)"
proof -
  let ?d = "c\<lparr>cn_state := DISCONNECTED\<rparr>"
  let ?a = "put_conn q ?d s"
  let ?b = "request_result q ch 0 ?a"
  let ?l = "if cn_connectionCb c then ?b\<lparr>cx_log := cx_log ?b @ [(AppConnection q, DISCONNECTED)]\<rparr> else ?b"
  have rx: "rx_inv ?a" "rx_chans ?a q = Some ch" using inv c by simp_all
  have dis: "disableAll q ?a = Inr ?b" using rx_request_law[OF rx] by (simp add: disableAll_def kNoneEvent_def)
  have cb: "connectionCallback E q ?b = Inr ?l" using E(2) by (simp add: connectionCallback_def notify_def)
  have "conn_handleClose E q s = TcpClient_removeConnection K True q ?l"
    using c up dis cb E(1)
    by (auto simp: conn_handleClose_def setSocketState_def conn_up_def client_close_def)
  moreover have "rx_inv ?b" by (rule rx_request_law(2)[OF rx])
  then have "rx_inv ?l" by (auto intro: rx_inv_cong)
  ultimately show ?thesis by (intro exI[of _ ?l]) (simp add: request_result_def put_conn_def)
qed

text \<open>C16. When the peer closes a client's connection, the client gives its pointer up and queues the
  destruction; with \<open>retry\<close> and \<open>connect\<close> set its connector starts over, watching a new descriptor
  with the initial delay, and otherwise the connector is left alone.\<close>

theorem client_reconnects:
  assumes inv: "rx_inv s" and c: "cx_conns s q = Some c" "rx_chans s q = Some ch"
    and up: "conn_up c" "cn_closeCb c = Some CloseOwner" "cl_connection s = Some q"
    and E: "ce_close E = client_close K" "\<forall>u. ce_app E (AppConnection q) u = []"
    and idle: "kc_channel s = None" and k: "kernel_says K fd n p" and go: "connect_class_of n = GoOn"
    and free: "rx_chans s p = None" "\<forall>r d. rx_chans s r = Some d \<longrightarrow> ch_fd d \<noteq> fd"
  shows "\<exists>t. conn_handleClose E q s = Inr t \<and> cl_connection t = None \<and> q \<notin> cx_refs t \<and>
    el_pending t = el_pending s @ [FnDestroy q] \<and>
    (if cl_retry s \<and> cl_connect s
     then kc_connect t \<and> kc_retryDelayMs t = RetryDelayMs \<and> (\<exists>d. connector_watching p d t \<and> ch_fd d = fd)
     else kc_channel t = None \<and> kc_state t = kc_state s)"
proof -
  obtain u where u: "conn_handleClose E q s = TcpClient_removeConnection K True q u" "rx_inv u"
      "rx_chans u = (rx_chans s)(q \<mapsto> requested_with 0 ch)" "cl_connection u = cl_connection s" "cl_retry u = cl_retry s"
      "cl_connect u = cl_connect s" "kc_channel u = kc_channel s" "kc_state u = kc_state s" "el_pending u = el_pending s"
      "cx_refs u = cx_refs s" "cx_conns u = (cx_conns s)(q \<mapsto> c\<lparr>cn_state := DISCONNECTED\<rparr>)"
    using client_goes_down[OF inv c up(1,2) E] by (elim exE conjE) (rule that, assumption+)
  let ?v = "queueInLoop True (FnDestroy q) (u\<lparr>cl_connection := None, cx_refs := cx_refs u - {q}\<rparr>)"
  have cl: "cl_retry ?v = cl_retry s" "cl_connect ?v = cl_connect s" "cl_connection ?v = None"
    using u by simp_all
  have rem: "conn_handleClose E q s = (if cl_retry s \<and> cl_connect s then Connector_restart K True ?v else Inr ?v)"
    using u(1,4) up(3) cl by (simp add: TcpClient_removeConnection_def assertInLoopThread_def)
  show ?thesis
  proof (cases "cl_retry s \<and> cl_connect s")
    case False
    then show ?thesis using rem cl u idle by auto
  next
    case True
    let ?w = "?v\<lparr>kc_state := C_DISCONNECTED, kc_retryDelayMs := RetryDelayMs\<rparr>"
    have "rx_inv (u\<lparr>cl_connection := None, cx_refs := cx_refs u - {q}\<rparr>)" by (rule rx_inv_cong[OF u(2)]) simp_all
    then have "rx_inv ?v" by simp
    then have iw: "rx_inv ?w" by (rule rx_inv_cong) simp_all
    have pq: "p \<noteq> q" using free(1) c(2) by auto
    have w: "kc_channel ?w = None" "rx_chans ?w p = None" "kc_state ?w = C_DISCONNECTED"
      using u idle free(1) pq by simp_all
    have others: "\<forall>r d. rx_chans ?w r = Some d \<longrightarrow> ch_fd d \<noteq> fd" using u(3) free(2) c(2) by auto
    note sc = start_connects[OF iw w(1,2) others k w(3) go]
    obtain t d where t: "Connector_start K True ?w = Inr t" "connector_watching p d t" "ch_fd d = fd" "kc_connect t"
        "el_pending t = el_pending ?w" "kc_retryDelayMs t = kc_retryDelayMs ?w" "cx_refs t = cx_refs ?w"
        "kloop.more t = kloop.more ?w"
      using sc by (elim exE conjE) (rule that, assumption+)
    have "cl_connection t = cl_connection ?w" using cl_connection_more[OF t(8)] .
    then have "cl_connection t = None" using cl(3) by simp
    moreover have "conn_handleClose E q s = Inr t" using rem True restart_is_start t(1) by metis
    moreover have "el_pending t = el_pending s @ [FnDestroy q]" "kc_retryDelayMs t = RetryDelayMs" "q \<notin> cx_refs t"
      using t(5-7) u(9) by simp_all
    ultimately show ?thesis using t(2-4) True by auto
  qed
qed

section \<open>A small client\<close>

text \<open>A client without a connection takes one over as its owner.\<close>

lemma client_new_is_open:
  assumes "cl_connection s = None"
  shows "TcpClient_newConnection E net peer garbage p fd s =
    conn_open E True p (client_connection_name net (cl_name s) (SocketUtil_getPeerAddr peer garbage)) fd
      (cl_connectionCb s) (cl_messageCb s) (cl_writeCompleteCb s) (s\<lparr>cl_connection := Some p\<rparr>)"
proof -
  let ?n = "client_connection_name net (cl_name s) (SocketUtil_getPeerAddr peer garbage)"
  let ?u = "\<lambda>s :: 'a cloop_scheme. s\<lparr>cl_connection := Some p\<rparr>"
  have new: "TcpConnection_new p ?n fd (?u s) = bindr (TcpConnection_new p ?n fd s) (\<lambda>t. Inr (?u t))"
    by (cases "NetBuffer_new InitialBufferSize")
      (simp_all add: TcpConnection_new_def check_def bindr_def put_conn_def Channel_put_def sys_call_def)
  have rest: "bindr (set_callbacks p (cl_connectionCb t) (cl_messageCb t) (cl_writeCompleteCb t) CloseOwner t) (set_connection p) =
      set_callbacks p (cl_connectionCb s) (cl_messageCb s) (cl_writeCompleteCb s) CloseOwner
        ((?u t)\<lparr>cx_refs := insert p (cx_refs (?u t))\<rparr>)"
    if "TcpConnection_new p ?n fd s = Inr t" for t
    using that assms by (auto simp: TcpConnection_new_def bindr_eq_Inr check_def put_conn_def set_callbacks_def
        set_connection_def Channel_put_def sys_call_def split: if_splits)
  show ?thesis
  proof (cases "TcpConnection_new p ?n fd s")
    case (Inl e)
    then show ?thesis using new by (simp add: TcpClient_newConnection_def conn_open_def)
  next
    case (Inr t)
    have "TcpClient_newConnection E net peer garbage p fd s =
        bindr (bindr (set_callbacks p (cl_connectionCb t) (cl_messageCb t) (cl_writeCompleteCb t) CloseOwner t) (set_connection p))
          (connectionEstablish E p)"
      using Inr by (simp add: TcpClient_newConnection_def bindr_def split: sum.splits)
    moreover have "runInLoop (\<lambda>_. connectionEstablish E p) True (Some (FnEstablish p)) = connectionEstablish E p"
      by (rule ext) (simp add: runInLoop_def)
    ultimately show ?thesis using Inr new rest[OF Inr] by (simp add: conn_open_def)
  qed
qed

definition idle_client :: cloop where
  "idle_client = enableRetry (TcpClient_new toy_server ''c'' no_conns)"

definition client_kernel :: "('z kloop_scheme) conn_kernel" where
  "client_kernel = (toy_kernel 0)\<lparr>ke_socket := (\<lambda>_. 11)\<rparr>"

definition client_env :: "cloop conn_env" where
  "client_env = (application False (\<lambda>_ _. 0) (\<lambda>_. Inr) (\<lambda>_ _. []))\<lparr>ce_close := client_close client_kernel\<rparr>"

lemma idle_client_fields:
  "rx_inv idle_client" "rx_chans idle_client = Map.empty" "rx_channelMap idle_client = Map.empty"
  "cx_conns idle_client = Map.empty" "cx_refs idle_client = {}" "el_pending idle_client = []" "cx_log idle_client = []"
  "cl_connection idle_client = None" "cl_retry idle_client" "cl_connect idle_client" "kc_channel idle_client = None"
  "kc_state idle_client = C_DISCONNECTED" "tq_timers idle_client = []" "cl_connectionCb idle_client"
  "cl_messageCb idle_client" "\<not> cl_writeCompleteCb idle_client"
proof -
  show "rx_inv idle_client"
    by (rule rx_inv_cong[OF rx_inv_new])
      (simp_all add: idle_client_def enableRetry_def TcpClient_new_def Connector_new_def no_conns_def raw_loop_def
        tloop.defs wloop.defs kloop.defs)
qed (simp_all add: idle_client_def enableRetry_def TcpClient_new_def Connector_new_def no_conns_def raw_loop_def
    tloop.defs wloop.defs kloop.defs)

theorem destructor_dangles_witness:
  "\<exists>(s :: cloop) t. kc_state s = C_CONNECTING \<and> TcpClient_delete True s = Inr t \<and>
    doPendingFunctions (client_exec client_env (toy_kernel 0) (\<lambda>_ _. [])) t = Inl DanglingPointer"
proof -
  note i = idle_client_fields
  have go: "connect_class_of EINPROGRESS = GoOn" by (simp add: connect_class_of_def)
  have free: "rx_chans idle_client 7 = None" "\<forall>q d. rx_chans idle_client q = Some d \<longrightarrow> ch_fd d \<noteq> 9" by (simp_all add: i)
  note sc = start_connects[OF i(1,11) free toy_kernel_simps(1)[of 0] i(12) go]
  obtain s :: cloop and d where s: "connector_watching 7 d s" "tq_timers s = tq_timers idle_client"
      "el_pending s = el_pending idle_client" "kloop.more s = kloop.more idle_client"
    using sc by (elim exE conjE) (rule that, assumption+)
  have "cl_connection s = cl_connection idle_client" by (rule cl_connection_more[OF s(4)])
  then have "cl_connection s = None" "\<not> connector_shared s" "el_pending s = []"
    using s(2,3) i by (simp_all add: connector_shared_def)
  from destructor_dangles[OF s(1) this] obtain t where "TcpClient_delete True s = Inr t"
      "\<forall>E K user. doPendingFunctions (client_exec E K user) t = Inl DanglingPointer" by blast
  moreover have "kc_state s = C_CONNECTING" using s(1) by (simp add: connector_watching_def)
  ultimately show ?thesis by blast
qed

theorem client_reconnects_witness:
  "\<exists>(s :: cloop) t. cl_connection s = Some 20 \<and> conn_handleClose client_env 20 s = Inr t \<and> cl_connection t = None \<and>
    kc_retryDelayMs t = 500 \<and> kc_state t = C_CONNECTING"
proof -
  note i = idle_client_fields
  let ?n = "client_connection_name toy_inet ''c'' (SocketUtil_getPeerAddr None (replicate 28 0))"
  let ?s = "idle_client\<lparr>cl_connection := Some 20\<rparr>"
  let ?o = "conn_open client_env True 20 ?n 9 True True False ?s"
  have kr: "kReadEvent \<noteq> kNoneEvent" by (simp add: kReadEvent_def kNoneEvent_def event_consts)
  have "rx_inv ?s" by (rule rx_inv_cong[OF i(1)]) simp_all
  then have "conns_inv ?s" by (simp add: conns_inv_def i)
  then have "sys_inv [] ?s" by (simp add: sys_inv_def life_def conn_view_def i)
  then have "ok_res (sys_inv []) ?o"
    by (intro ok_res_mono[OF conn_open_ok]) (simp_all add: i app_ok_def client_env_def application_def)
  moreover have "\<exists>t c ch. ?o = Inr t \<and> cx_conns t 20 = Some c \<and> rx_chans t = [20 \<mapsto> ch] \<and> ch_fd ch = 9 \<and> cn_state c = CONNECTED \<and>
      cn_closeCb c = Some CloseOwner \<and> cl_connection t = Some 20 \<and> kc_channel t = None \<and> cl_retry t \<and> cl_connect t"
    by (simp add: conn_open_def TcpConnection_new_def fresh_buffer_new i set_callbacks_def runInLoop_def
        connectionEstablish_def enableRead_def Channel_request_def Channel_update_def Epoll_updateChannel_def
        Epoll_update_def Channel_put_def put_conn_def conn_channel_def Channel_make_def sys_call_def
        connectionCallback_def notify_def application_def client_env_def)
      (metis channel.select_convs(1))
  then obtain t c ch where t: "?o = Inr t" "cx_conns t 20 = Some c" "rx_chans t = [20 \<mapsto> ch]" "ch_fd ch = 9"
      "cn_state c = CONNECTED" "cn_closeCb c = Some CloseOwner" "cl_connection t = Some 20" "kc_channel t = None"
      "cl_retry t" "cl_connect t"
    by (elim exE conjE) (rule that, assumption+)
  ultimately have rx: "rx_inv t" by simp
  have go: "connect_class_of EINPROGRESS = GoOn" by (simp add: connect_class_of_def)
  have E: "ce_close client_env = client_close client_kernel" "\<forall>u. ce_app client_env (AppConnection 20) u = []"
    by (simp_all add: client_env_def application_def)
  have at: "cx_conns t 20 = Some c" "rx_chans t 20 = Some ch" "conn_up c" "cn_closeCb c = Some CloseOwner"
      "cl_connection t = Some 20"
    using t by (simp_all add: conn_up_def)
  have k: "kernel_says client_kernel 11 EINPROGRESS 7" by (simp add: kernel_says_def toy_kernel_def client_kernel_def)
  have free: "rx_chans t 7 = None" "\<forall>r d. rx_chans t r = Some d \<longrightarrow> ch_fd d \<noteq> 11" using t(3,4) by simp_all
  note cr = client_reconnects[OF rx at E t(8) k go free]
  obtain u where u: "conn_handleClose client_env 20 t = Inr u" "cl_connection u = None"
      "if cl_retry t \<and> cl_connect t
       then kc_connect u \<and> kc_retryDelayMs u = RetryDelayMs \<and> (\<exists>d. connector_watching 7 d u \<and> ch_fd d = 11)
       else kc_channel u = None \<and> kc_state u = kc_state t"
    using cr by (elim exE conjE) (rule that, assumption+)
  have "kc_retryDelayMs u = 500" "kc_state u = C_CONNECTING"
    using u(3) t(9,10) by (auto simp: RetryDelayMs_def connector_watching_def)
  then show ?thesis using t(7) u(1,2) by blast
qed

end
