(* ===== verification/ServerSystem.thy ===== *)
theory ServerSystem
  imports Servers
begin

text \<open>
  A whole \<open>TcpServer\<close> without loop threads: its acceptor and all its connections in one loop,
  with rounds in which events of the listening channel and of connections are mixed. The property
  is the safety of the system as long as the names of connections do not collide.
\<close>

section \<open>The server's loop\<close>

text \<open>
  What the channels and the queue of a server's loop call: the acceptor's read callback with the
  new-connection callback that is bound to it, the wakeup callback, and those of connections. \<open>acc\<close>
  gives, for the state in which a connection is accepted, the new object's address, the kernel's
  answers and the uninitialised \<open>client_addr\<close>.
\<close>

definition server_callback :: "(ptr \<Rightarrow> int \<Rightarrow> sockaddr \<Rightarrow> 'z sloop_scheme \<Rightarrow> 'z sloop_scheme result) \<Rightarrow>
    ('z sloop_ext wloop_scheme) conn_env \<Rightarrow> ('z sloop_scheme \<Rightarrow> ptr \<times> accept_env \<times> sockaddr) \<Rightarrow>
    (ptr \<Rightarrow> 'z sloop_scheme \<Rightarrow> readv_outcome) \<Rightarrow> (ptr \<Rightarrow> 'z sloop_scheme \<Rightarrow> int) \<Rightarrow> timestamp \<Rightarrow> callback \<Rightarrow>
    'z sloop_scheme \<Rightarrow> 'z sloop_scheme result" where
  "server_callback newConn E acc rd wr receiveTime cb s =
     (case cb of
        CbAcceptorRead \<Rightarrow> (case acc s of (p, A, client_addr) \<Rightarrow> Acceptor_handleRead (Some (newConn p)) A client_addr s)
      | CbWakeupRead \<Rightarrow> Inr (wakeupReadCallback s)
      | _ \<Rightarrow> conn_callback E rd wr receiveTime cb s)"

definition server_exec :: "(ptr \<Rightarrow> 'z sloop_scheme \<Rightarrow> 'z sloop_scheme result) \<Rightarrow> ('z sloop_ext wloop_scheme) conn_env \<Rightarrow>
    (task \<Rightarrow> 'z sloop_scheme \<Rightarrow> conn_call list) \<Rightarrow> task \<Rightarrow> 'z sloop_scheme \<Rightarrow> 'z sloop_scheme result" where
  "server_exec removeConn E user f s =
     (case f of
        FnRemoveConnection p \<Rightarrow> removeConn p s
      | FnListen \<Rightarrow> Acceptor_listen s
      | _ \<Rightarrow> conn_exec E user f s)"

definition server_application :: "(ptr \<Rightarrow> 'z sloop_scheme \<Rightarrow> int) \<Rightarrow> (ptr \<Rightarrow> 'z sloop_scheme \<Rightarrow> 'z sloop_scheme result) \<Rightarrow>
    (app_event \<Rightarrow> 'z sloop_scheme \<Rightarrow> conn_call list) \<Rightarrow> ('z sloop_ext wloop_scheme) conn_env" where
  "server_application wr onwritten app = (application False wr onwritten app)\<lparr>ce_close := server_close\<rparr>"

section \<open>Steps\<close>

datatype 'w server_op =
    SvCall bool conn_call
  | SvRound "(ptr \<times> events) list" timestamp "ptr \<Rightarrow> 'w \<Rightarrow> readv_outcome" "ptr \<Rightarrow> 'w \<Rightarrow> int" "'w \<Rightarrow> ptr \<times> accept_env \<times> sockaddr"
  | SvMark ptr
  | SvPost task
  | SvDelete ptr

definition run_server_op :: "('z sloop_ext wloop_scheme) conn_env \<Rightarrow> inet \<Rightarrow> (task \<Rightarrow> 'z sloop_scheme \<Rightarrow> conn_call list) \<Rightarrow>
    ('z sloop_scheme) server_op \<Rightarrow> 'z sloop_scheme \<Rightarrow> 'z sloop_scheme result" where
  "run_server_op E net user oper s =
     (case oper of
        SvCall inLoop cc \<Rightarrow> run_conn_call E inLoop cc s
      | SvRound evs now rd wr acc \<Rightarrow>
          loop_round (server_callback (newConnectionCallback E net True) E acc rd wr)
            (server_exec (removeConnectionInLoop True) E user) (Some evs, now) s
      | SvMark p \<Rightarrow> setSocketState p DISCONNECTING s
      | SvPost f \<Rightarrow> Inr (queueInLoop False f s)
      | SvDelete p \<Rightarrow> TcpConnection_delete p s)"

text \<open>
  What the environment may do: the kernel hands out descriptors nothing uses, a new object has a new
  address, and no timer is set in the server's loop, so that its descriptor never fires. Calls of
  other threads and hang-ups are as in ConnSystem.
\<close>

definition unused :: "int \<Rightarrow> 'z reactor_scheme \<Rightarrow> bool" where
  "unused fd s \<longleftrightarrow> (\<forall>q ch. rx_chans s q = Some ch \<longrightarrow> ch_fd ch \<noteq> fd)"

definition kernel_fresh :: "'z sloop_scheme \<Rightarrow> ptr \<times> accept_env \<times> sockaddr \<Rightarrow> bool" where
  "kernel_fresh s a \<longleftrightarrow>
     (case a of (p, A, addr) \<Rightarrow> case Socket_accept (sv_listenFd s) (ac_outcome A) addr s of (fd, peer, _) \<Rightarrow>
       (0 \<le> fd \<longrightarrow> cx_conns s p = None \<and> rx_chans s p = None \<and> unused fd s \<and> fd \<noteq> sv_idleFd s) \<and>
       (fd < 0 \<and> ac_errno A = EMFILE \<longrightarrow> unused (ac_again A) s \<and> unused (ac_open A) s))"

text \<open>
  The code's own demand on the peers, the comment above the name in \<open>newConnectionCallback\<close>: the name made from
  a new peer is not that of a connection in the map. \<open>accept\<close> does not promise it; Servers shows that
  IPv4 peers with one source port break it, and what happens then.
\<close>

definition new_peer :: "inet \<Rightarrow> 'z sloop_scheme \<Rightarrow> ptr \<times> accept_env \<times> sockaddr \<Rightarrow> bool" where
  "new_peer net s a \<longleftrightarrow>
     (case a of (p, A, addr) \<Rightarrow> case Socket_accept (sv_listenFd s) (ac_outcome A) addr s of (fd, peer, _) \<Rightarrow>
       0 \<le> fd \<longrightarrow> sv_connections s (connection_name net (sv_name s) peer) = None)"

abbreviation accept_fresh :: "inet \<Rightarrow> 'z sloop_scheme \<Rightarrow> ptr \<times> accept_env \<times> sockaddr \<Rightarrow> bool" where
  "accept_fresh net s a \<equiv> kernel_fresh s a \<and> new_peer net s a"

fun server_op_ok :: "inet \<Rightarrow> 'z sloop_scheme \<Rightarrow> ('z sloop_scheme) server_op \<Rightarrow> bool" where
  "server_op_ok net s (SvCall inLoop cc) \<longleftrightarrow> call_ok s cc \<and> (inLoop \<or> thread_call cc)"
| "server_op_ok net s (SvRound evs now rd wr acc) \<longleftrightarrow> deliverable s evs \<and> io_ok rd wr \<and> (\<forall>s. accept_fresh net s (acc s)) \<and>
     (\<forall>(p, e) \<in> set evs. map_option ch_readCb (rx_chans s p) \<noteq> Some (Some CbTimerRead) \<and>
        (cx_conns s p = None \<or> \<not> (wants_read e \<and> wants_close e)))"
| "server_op_ok net s (SvMark p) \<longleftrightarrow> (\<exists>c. cx_conns s p = Some c \<and> conn_up c)"
| "server_op_ok net s (SvPost f) \<longleftrightarrow> post_ok s f"
| "server_op_ok net s (SvDelete p) \<longleftrightarrow> cx_conns s p \<noteq> None \<and> unreferenced p s"

section \<open>The server as an owner\<close>

fun listener_key :: "int \<times> callback option \<times> callback option \<times> callback option \<times> callback option \<Rightarrow> bool" where
  "listener_key (fd, r, w, e, c) \<longleftrightarrow> r \<in> {Some CbAcceptorRead, Some CbWakeupRead, Some CbTimerRead} \<and> w = None \<and> e = None \<and> c = None"

text \<open>
  What the server keeps: its map holds the connections under their names, the channels that are
  not of connections are the acceptor's and the loop's own, the spare descriptor is not watched, and
  nothing of the server's is queued.
\<close>

definition server_good :: "'z sloop_scheme \<Rightarrow> bool" where
  "server_good s \<longleftrightarrow> cx_refs s = ran (sv_connections s) \<and>
     (\<forall>n p. sv_connections s n = Some p \<longrightarrow> conn_names s p = Some n) \<and>
     (\<forall>p k. chan_keys s p = Some k \<longrightarrow> (conn_names s p = None \<longrightarrow> listener_key k) \<and> fst k \<noteq> sv_idleFd s) \<and>
     (\<forall>f \<in> set (el_pending s). \<not> server_task f)"

lemma server_good_key:
  "server_good s \<Longrightarrow> chan_keys s p = Some k \<Longrightarrow> (conn_names s p = None \<longrightarrow> listener_key k) \<and> fst k \<noteq> sv_idleFd s"
  unfolding server_good_def by blast

lemma server_good_map: "server_good s \<Longrightarrow> sv_inv s"
  by (auto simp: server_good_def sv_inv_def conn_names_def)

lemma server_more:
  assumes "wloop.more t = wloop.more s"
  shows "sv_connections t = sv_connections s" "sv_idleFd t = sv_idleFd s" "sv_name t = sv_name s"
    "sv_listenFd t = sv_listenFd s"
  using assms by (cases s; cases t; simp)+

lemma server_good_ext:
  assumes g: "server_good s" and e: "conn_ext s t"
  shows "server_good t"
proof -
  have "wloop.more t = wloop.more s" using e by (simp add: conn_ext_def)
  note m = server_more[OF this]
  show ?thesis using g e unfolding server_good_def conn_ext_def m posts_def by auto
qed

lemma sys_inv_cong:
  assumes "sys_inv rest s" and "rx_channelMap t = rx_channelMap s" and "rx_trace t = rx_trace s"
    and "rx_chans t = rx_chans s" and "cx_conns t = cx_conns s" and "cx_refs t = cx_refs s" and "el_pending t = el_pending s"
  shows "sys_inv rest t"
proof -
  have c: "conns_inv s" using assms(1) by simp
  have "rx_inv t" by (rule rx_inv_cong[OF conns_inv_rx[OF c]]) (use assms in simp_all)
  then have "conns_inv t" by (rule conns_inv_cong[OF c]) (use assms in simp_all)
  moreover have "conn_view t = conn_view s" by (rule conn_view_cong) (use assms in simp_all)
  ultimately show ?thesis using assms by (simp add: sys_inv_def)
qed

text \<open>The state after \<open>removeConnectionInLoop\<close>, for a connection that is down and held.\<close>

lemma remove_down:
  assumes inv: "sys_inv rest s" and g: "server_good s" and p: "p \<in> cx_refs s" and c: "cx_conns s p = Some c"
    and st: "cn_state c = DISCONNECTED"
  shows "ok_res (\<lambda>t. sys_inv rest t \<and> conn_view t = conn_view s \<and> returned t = returned s \<and> server_good t) (removeConnection True p s)"
proof -
  let ?m = "(sv_connections s)(cn_name c := None)"
  let ?u = "s\<lparr>sv_connections := ?m\<rparr>"
  let ?t = "queueInLoop True (FnDestroy p) (?u\<lparr>cx_refs := cx_refs s - {p}\<rparr>)"
  obtain b where V: "conn_view s p = Some (DISCONNECTED, b)" using view_at[OF c] st by simp
  have u: "sys_inv rest ?u" by (rule sys_inv_cong[OF inv]) simp_all
  have view: "conn_view ?u = conn_view s" by (rule conn_view_cong) simp_all
  have eq: "removeConnection True p s = Inr ?t"
    unfolding remove_is_erase[OF server_good_map[OF g] p c] owner_erase_def by simp
  have "returned ?u = returned s" by (rule returned_cong) simp
  with owner_erase_ok[OF u, of p b True] V view
  have t: "sys_inv rest ?t" "conn_view ?t = conn_view s" "returned ?t = returned s" by (simp_all add: owner_erase_def)
  have names: "conn_names ?t = conn_names s" "chan_keys ?t = chan_keys s"
    by (rule conn_names_cong chan_keys_cong; simp)+
  have one: "\<forall>k. sv_connections s k = Some p \<longrightarrow> k = cn_name c"
    using sv_inv_name[OF server_good_map[OF g] _ c] by blast
  have "ran ?m = ran (sv_connections s) - {p}"
    by (rule ran_remove[OF sv_inv_entry[OF server_good_map[OF g] p c] one])
  then have "cx_refs ?t = ran ?m" using g by (simp add: server_good_def)
  moreover have "sv_connections ?t = ?m" "sv_idleFd ?t = sv_idleFd s" "el_pending ?t = el_pending s @ [FnDestroy p]"
    by (simp_all add: queueInLoop_def queue_push_def wakeup_def sys_call_def)
  ultimately have "server_good ?t"
    using g unfolding server_good_def names by (simp split: if_splits del: split_paired_All)
  with eq t show ?thesis by simp
qed

interpretation servers: conn_owner "server_application wr onwritten app" server_good
proof
  show "app_ok (server_application wr onwritten app)" by (simp add: app_ok_def server_application_def application_def)
  show "server_good s \<Longrightarrow> conn_ext s t \<Longrightarrow> server_good t" for s t :: "'a sloop_scheme" by (rule server_good_ext)
  fix rest and s s0 :: "'a sloop_scheme" and p c cb
  assume inv: "sys_inv rest s" and c: "cx_conns s p = Some c" "cn_state c = DISCONNECTED"
    and "cn_closeCb c = Some cb" and p: "p \<in> cx_refs s" and g0: "server_good s0" and "\<not> conn_down s0 p" and e: "conn_ext s0 s"
  have g: "server_good s" by (rule server_good_ext[OF g0 e])
  obtain b where V: "conn_view s p = Some (DISCONNECTED, b)" using view_at[OF c(1)] c(2) by simp
  let ?q = "queueInLoop True (FnDestroy p) s"
  have "sys_inv rest ?q"
    using life_push_destroy[of "rest @ el_pending s" "cx_refs s" "conn_view s" p b] inv V by (simp add: sys_inv_def)
  moreover have "server_good ?q" by (rule server_good_ext[OF g conn_ext_same]) simp_all
  ultimately show "ok_res (\<lambda>s'. sys_inv rest s' \<and> conn_view s' = conn_view s \<and> returned s' = returned s \<and> server_good s')
      (ce_close (server_application wr onwritten app) cb p s)"
    using remove_down[OF inv g p c] by (cases cb) (simp_all add: server_application_def server_close_def owner_close_def)
qed

section \<open>Events of the listening channel\<close>

text \<open>An active channel that is ready for its turn in the round.\<close>

definition event_ready :: "'z wloop_scheme \<Rightarrow> ptr \<Rightarrow> bool" where
  "event_ready s q \<longleftrightarrow> (\<exists>e. returned s q = Some e \<and>
     (cx_conns s q \<noteq> None \<longrightarrow> view_up (conn_view s q) \<and> \<not> (wants_read e \<and> wants_close e)))"

definition ready_ext :: "'z wloop_scheme \<Rightarrow> 'z wloop_scheme \<Rightarrow> bool" where
  "ready_ext s t \<longleftrightarrow> (\<forall>q. event_ready s q \<longrightarrow> event_ready t q \<and> (cx_conns s q = None \<longrightarrow> cx_conns t q = None))"

lemma ready_ext_refl [simp]: "ready_ext s s"
  by (simp add: ready_ext_def)

lemma ready_ext_trans: "ready_ext s t \<Longrightarrow> ready_ext t u \<Longrightarrow> ready_ext s u"
  by (simp add: ready_ext_def)

lemma event_ready_frame:
  assumes "event_ready s q" and "event_frame p s t" and "q \<noteq> p"
  shows "event_ready t q"
proof -
  have "cx_conns t q = None \<longleftrightarrow> cx_conns s q = None"
    using assms(2) unfolding event_frame_def by (metis domIff)
  then show ?thesis using assms by (auto simp: event_ready_def event_frame_def)
qed

lemma event_ready_opened:
  assumes r: "event_ready s q" and o: "conn_opened p name fd s t" and new: "rx_chans s p = None" and inv: "sys_inv rest s"
  shows "event_ready t q \<and> (cx_conns s q = None \<longrightarrow> cx_conns t q = None)"
proof -
  have ne: "q \<noteq> p" using r new by (auto simp: event_ready_def returned_def)
  then have "conn_names t q = conn_names s q" using o by (simp add: conn_opened_def)
  then have "cx_conns t q = None \<longleftrightarrow> cx_conns s q = None" by (auto simp: conn_names_def)
  then show ?thesis using r o ne by (auto simp: event_ready_def conn_opened_def)
qed

lemma rx_inv_close:
  assumes "rx_inv s" and "unused fd s"
  shows "rx_inv (sys_call (SysClose fd) s)"
proof -
  have "rx_channelMap s fd = None" by (rule unwatched_fd[OF assms(1)]) (use assms(2) in \<open>simp add: unused_def\<close>)
  then have "rx_wf (sys_call (SysClose fd) s)" by (rule rx_wf_close[OF rx_inv_wf[OF assms(1)]])
  then show ?thesis by (rule rx_inv_chans[OF assms(1)]) simp
qed

text \<open>A step that leaves channels, connections and the map alone.\<close>

lemma quiet_ok:
  assumes inv: "sys_inv rest s" and g: "server_good s" and rx: "rx_inv t" and ch: "rx_chans t = rx_chans s"
    and eqs: "cx_conns t = cx_conns s" "cx_refs t = cx_refs s" "el_pending t = el_pending s"
      "sv_connections t = sv_connections s" and idle: "unused (sv_idleFd t) s"
  shows "sys_inv rest t \<and> server_good t \<and> ready_ext s t"
proof (intro conjI)
  have view: "conn_view t = conn_view s" by (rule conn_view_cong) (use ch eqs in simp_all)
  have ret: "returned t = returned s" by (rule returned_cong[OF ch])
  have "conns_inv t" by (rule conns_inv_cong[OF sys_inv_conns[OF inv] rx]) (use ch eqs in simp_all)
  then show "sys_inv rest t" using inv view eqs by (simp add: sys_inv_def)
  have names: "conn_names t = conn_names s" "chan_keys t = chan_keys s"
    by (rule conn_names_cong[OF eqs(1)], rule chan_keys_cong[OF ch])
  have "fst k \<noteq> sv_idleFd t" if k: "chan_keys s p = Some k" for p k
  proof -
    from k obtain c where "rx_chans s p = Some c" "fst k = ch_fd c" by (auto simp: chan_keys_def chan_key_def)
    with idle show ?thesis by (simp add: unused_def)
  qed
  then show "server_good t" using g unfolding server_good_def names eqs by blast
  show "ready_ext s t" using view ret eqs by (simp add: ready_ext_def event_ready_def)
qed

lemma idle_unused:
  assumes "server_good s"
  shows "unused (sv_idleFd s) s"
  unfolding unused_def
proof (intro allI impI)
  fix q ch
  assume "rx_chans s q = Some ch"
  then have "chan_keys s q = Some (chan_key ch)" by (simp add: chan_keys_def)
  with assms have "fst (chan_key ch) \<noteq> sv_idleFd s" unfolding server_good_def by blast
  then show "ch_fd ch \<noteq> sv_idleFd s" by (simp add: chan_key_def)
qed

text \<open>Accepting a connection, or turning one away.\<close>

lemma server_opens:
  assumes inv: "sys_inv [] s" and g: "server_good s" and new: "cx_conns s p = None" "rx_chans s p = None" "unused fd s"
    and fd: "fd \<noteq> sv_idleFd s" and name: "sv_connections s (connection_name net (sv_name s) peer) = None" and app: "app_ok E"
  shows "ok_res (\<lambda>t. sys_inv [] t \<and> server_good t \<and> ready_ext s t)
    (newConnectionCallback E net True p fd peer s)"
proof -
  let ?n = "connection_name net (sv_name s) peer"
  let ?m = "(sv_connections s)(?n \<mapsto> p)"
  let ?u = "s\<lparr>sv_connections := ?m\<rparr>"
  have u: "sys_inv [] ?u" by (rule sys_inv_cong[OF inv]) simp_all
  have "conn_view ?u = conn_view s" by (rule conn_view_cong) simp_all
  moreover have "returned ?u = returned s" by (rule returned_cong) simp
  ultimately have ready: "event_ready ?u q = event_ready s q" for q by (simp add: event_ready_def)
  have keys: "conn_names ?u = conn_names s" "chan_keys ?u = chan_keys s" by (rule conn_names_cong chan_keys_cong; simp)+
  have new': "cx_conns ?u p = None" "rx_chans ?u p = None" "\<forall>q ch. rx_chans ?u q = Some ch \<longrightarrow> ch_fd ch \<noteq> fd"
    using new by (simp_all add: unused_def)
  show ?thesis
    unfolding accept_is_open[OF name]
  proof (rule ok_res_mono[OF conn_open_ok[OF u new' app]])
    fix t
    assume t: "sys_inv [] t \<and> conn_opened p ?n fd ?u t"
    then have o: "conn_opened p ?n fd ?u t" by simp
    then have "wloop.more t = wloop.more ?u" by (simp add: conn_opened_def)
    note m = server_more[OF this]
    have absent: "conn_names s p = None" using new(1) by (simp add: conn_names_def)
    have idle: "fst (chan_key (conn_channel p fd)) \<noteq> sv_idleFd s"
      using fd by (simp add: chan_key_def conn_channel_def Channel_make_def)
    have o': "cx_refs t = insert p (cx_refs s)" "conn_names t = (conn_names s)(p \<mapsto> ?n)"
      "chan_keys t = (chan_keys s)(p \<mapsto> chan_key (conn_channel p fd))" "posts ?u t"
      using o unfolding conn_opened_def keys by simp_all
    have "cx_refs t = ran ?m" using o'(1) g name by (simp add: server_good_def)
    moreover have "conn_names t q = Some n" if "?m n = Some q" for n q
      using that g absent o'(2) unfolding server_good_def by (auto split: if_splits)
    moreover have "(conn_names t q = None \<longrightarrow> listener_key k) \<and> fst k \<noteq> sv_idleFd s" if "chan_keys t q = Some k" for q k
    proof (cases "q = p")
      case True
      then show ?thesis using that o'(2,3) idle by simp
    next
      case False
      then have "chan_keys s q = Some k" using that o'(3) by simp
      from server_good_key[OF g this] False o'(2) show ?thesis by simp
    qed
    moreover have "\<forall>f \<in> set (el_pending t). \<not> server_task f"
      using o'(4) g by (auto simp: posts_def server_good_def)
    ultimately have "server_good t" unfolding server_good_def m by simp
    moreover have "ready_ext s t"
      unfolding ready_ext_def using event_ready_opened[OF _ o new'(2) u] ready by simp
    ultimately show "sys_inv [] t \<and> server_good t \<and> ready_ext s t" using t by simp
  qed
qed

lemma accept_outcome:
  obtains fd peer where "Socket_accept lfd outcome addr s = (fd, peer, sys_call (SysAccept lfd) s)"
  by (cases outcome) (simp add: Socket_accept_def SocketUtil_acceptSocket_def)

lemma turn_away_ok:
  assumes sa: "Socket_accept (sv_listenFd s) (ac_outcome A) addr s = (fd, peer, sys_call (SysAccept (sv_listenFd s)) s)"
    and neg: "fd < 0" and rx: "rx_inv s" and idle: "unused (sv_idleFd s) s"
    and full: "ac_errno A = EMFILE \<longrightarrow> unused (ac_again A) s \<and> unused (ac_open A) s"
  obtains t where "Acceptor_handleRead cb A addr s = Inr t" and "rx_inv t"
    and "t = s\<lparr>rx_trace := rx_trace t, sv_idleFd := sv_idleFd t\<rparr>" and "unused (sv_idleFd t) s"
proof (cases "ac_errno A = EMFILE")
  case True
  then have f: "unused (ac_again A) s" "unused (ac_open A) s" using full by simp_all
  let ?s1 = "sys_call (SysAccept (sv_listenFd s)) s"
  let ?s2 = "sys_call (SysClose (sv_idleFd s)) ?s1"
  let ?s3 = "(sys_call (SysAccept (sv_listenFd s)) ?s2)\<lparr>sv_idleFd := ac_again A\<rparr>"
  let ?s4 = "sys_call (SysClose (ac_again A)) ?s3"
  let ?t = "(sys_call (SysOpenNull (ac_open A)) ?s4)\<lparr>sv_idleFd := ac_open A\<rparr>"
  have "rx_inv ?s1" using rx by (rule rx_inv_sys_call) simp_all
  then have "rx_inv ?s2" by (rule rx_inv_close) (use idle in \<open>simp add: unused_def\<close>)
  then have "rx_inv (sys_call (SysAccept (sv_listenFd s)) ?s2)" by (rule rx_inv_sys_call) simp_all
  then have "rx_inv ?s3" by (rule rx_inv_cong) simp_all
  then have "rx_inv ?s4" by (rule rx_inv_close) (use f in \<open>simp add: unused_def\<close>)
  then have "rx_inv (sys_call (SysOpenNull (ac_open A)) ?s4)" by (rule rx_inv_sys_call) simp_all
  then have "rx_inv ?t" by (rule rx_inv_cong) simp_all
  moreover have "Acceptor_handleRead cb A addr s = Inr ?t"
    using sa neg True by (simp add: Acceptor_handleRead_def sys_call_def)
  ultimately show ?thesis by (intro that[of ?t]) (use f in \<open>simp_all add: sys_call_def\<close>)
next
  case False
  let ?t = "sys_call (SysAccept (sv_listenFd s)) s"
  have "rx_inv ?t" using rx by (rule rx_inv_sys_call) simp_all
  moreover have "Acceptor_handleRead cb A addr s = Inr ?t"
    using sa neg False by (simp add: Acceptor_handleRead_def)
  ultimately show ?thesis by (intro that[of ?t]) (use idle in \<open>simp_all add: sys_call_def\<close>)
qed

lemma accept_ok:
  assumes inv: "sys_inv [] s" and g: "server_good s" and fresh: "accept_fresh net s (p, A, addr)" and app: "app_ok E"
  shows "ok_res (\<lambda>t. sys_inv [] t \<and> server_good t \<and> ready_ext s t)
    (Acceptor_handleRead (Some (newConnectionCallback E net True p)) A addr s)"
proof -
  let ?s1 = "sys_call (SysAccept (sv_listenFd s)) s"
  obtain fd peer where sa: "Socket_accept (sv_listenFd s) (ac_outcome A) addr s = (fd, peer, ?s1)"
    by (rule accept_outcome)
  have rx: "rx_inv s" using inv by simp
  have idle: "unused (sv_idleFd s) s" by (rule idle_unused[OF g])
  show ?thesis
  proof (cases "0 \<le> fd")
    case True
    then have f: "cx_conns ?s1 p = None" "rx_chans ?s1 p = None" "unused fd ?s1" "fd \<noteq> sv_idleFd ?s1"
      "sv_connections ?s1 (connection_name net (sv_name ?s1) peer) = None"
      using fresh sa by (simp_all add: kernel_fresh_def new_peer_def unused_def sys_call_def)
    have "rx_inv ?s1" using rx by (rule rx_inv_sys_call) simp_all
    then have "sys_inv [] ?s1 \<and> server_good ?s1 \<and> ready_ext s ?s1"
      by (rule quiet_ok[OF inv g]) (use idle in \<open>simp_all add: sys_call_def\<close>)
    then have q1: "sys_inv [] ?s1" "server_good ?s1" "ready_ext s ?s1" by simp_all
    have "ok_res (\<lambda>t. sys_inv [] t \<and> server_good t \<and> ready_ext s t) (newConnectionCallback E net True p fd peer ?s1)"
      by (rule ok_res_mono[OF server_opens[OF q1(1,2) f app]]) (use ready_ext_trans[OF q1(3)] in simp)
    then show ?thesis using sa True by (simp add: Acceptor_handleRead_def)
  next
    case False
    then have full: "ac_errno A = EMFILE \<longrightarrow> unused (ac_again A) s \<and> unused (ac_open A) s"
      using fresh sa by (simp add: kernel_fresh_def new_peer_def)
    have neg: "fd < 0" using False by simp
    obtain t where t: "Acceptor_handleRead (Some (newConnectionCallback E net True p)) A addr s = Inr t" "rx_inv t"
      and upd: "t = s\<lparr>rx_trace := rx_trace t, sv_idleFd := sv_idleFd t\<rparr>" and un: "unused (sv_idleFd t) s"
      by (rule turn_away_ok[OF sa neg rx idle full])
    have "sys_inv [] t \<and> server_good t \<and> ready_ext s t"
      by (rule quiet_ok[OF inv g t(2) _ _ _ _ _ un]) (subst upd, simp)+
    with t(1) show ?thesis by simp
  qed
qed

text \<open>An event of a channel that is not a connection's.\<close>

lemma listener_event_ok:
  assumes inv: "sys_inv [] s" and g: "server_good s" and r: "event_ready s p" and c: "cx_conns s p = None"
    and fresh: "\<forall>s. accept_fresh net s (acc s)" and app: "app_ok E"
  shows "ok_res (\<lambda>t. sys_inv [] t \<and> server_good t \<and> ready_ext s t \<and> cx_conns t p = None)
    (Channel_handleEvents (server_callback (newConnectionCallback E net True) E acc rd wr now) p s)"
    (is "ok_res ?Q (Channel_handleEvents ?run p s)")
proof -
  have chan: "\<exists>ch. rx_chans u p = Some ch \<and> listener_key (chan_key ch)"
    if u: "server_good u" "event_ready u p" "cx_conns u p = None" for u
  proof -
    from u(2) obtain ch where ch: "rx_chans u p = Some ch" by (auto simp: event_ready_def returned_def)
    then have "chan_keys u p = Some (chan_key ch)" "conn_names u p = None" using u(3) by (simp_all add: chan_keys_def conn_names_def)
    with server_good_key[OF u(1)] ch show ?thesis by blast
  qed
  obtain ch where ch: "rx_chans s p = Some ch" "listener_key (chan_key ch)" using chan[OF g r c] by blast
  have pass: "handle_if wants_write ch_writeCb ?run p s = Inr s" "handle_if wants_error ch_errorCb ?run p s = Inr s"
    using ch by (simp_all add: handle_if_def call_cb_def chan_key_def)
  have wake: "?Q (wakeupReadCallback s)"
  proof -
    have "rx_inv s" using inv by simp
    then have "rx_inv (wakeupReadCallback s)" unfolding wakeupReadCallback_def by (rule rx_inv_sys_call) simp_all
    then have "sys_inv [] (wakeupReadCallback s) \<and> server_good (wakeupReadCallback s) \<and>
        ready_ext s (wakeupReadCallback s)"
      by (rule quiet_ok[OF inv g]) (use idle_unused[OF g] in \<open>simp_all add: wakeupReadCallback_def sys_call_def\<close>)
    then show ?thesis using c by (simp add: wakeupReadCallback_def)
  qed
  have acc: "ok_res ?Q (?run CbAcceptorRead s)"
  proof -
    obtain q A addr where a: "acc s = (q, A, addr)" by (cases "acc s") auto
    have "accept_fresh net s (q, A, addr)" using fresh a by metis
    note ok = accept_ok[OF inv g this app]
    show ?thesis
      unfolding server_callback_def callback.case a prod.case
      by (rule ok_res_mono[OF ok]) (use r c in \<open>simp add: ready_ext_def\<close>)
  qed
  have rd: "ok_res ?Q (handle_if wants_read ch_readCb ?run p s)"
    using ch acc wake inv g c by (auto simp: handle_if_def call_cb_def chan_key_def server_callback_def conn_callback_def)
  show ?thesis
    unfolding Channel_handleEvents_def pass bindr_simps
  proof (rule ok_res_bindr[OF rd])
    fix t assume t: "?Q t"
    then have "server_good t" "event_ready t p" "cx_conns t p = None" using r by (simp_all add: ready_ext_def)
    from chan[OF this] obtain dh where "rx_chans t p = Some dh" "listener_key (chan_key dh)" by (elim exE conjE)
    then have "handle_if wants_close ch_closeCb ?run p t = Inr t" by (simp add: handle_if_def call_cb_def chan_key_def)
    then show "ok_res ?Q (handle_if wants_close ch_closeCb ?run p t)" using t by simp
  qed
qed

section \<open>Rounds\<close>

lemma server_dispatch_ok:
  assumes "sys_inv [] s" and "server_good s" and "distinct ps" and "\<And>p. p \<in> set ps \<Longrightarrow> event_ready s p"
    and io: "io_ok rd wr" and fresh: "\<forall>s. accept_fresh net s (acc s)"
    and E_def: "E = server_application w onwritten app"
  shows "ok_res (\<lambda>t. sys_inv [] t \<and> server_good t)
    (fold_res (Channel_handleEvents (server_callback (newConnectionCallback E net True) E acc rd wr now)) ps s)"
  using assms(1-4)
proof (induction ps arbitrary: s)
  case (Cons p ps)
  let ?run = "server_callback (newConnectionCallback E net True) E acc rd wr now"
  have r: "event_ready s p" and p: "p \<notin> set ps" using Cons.prems(3) Cons.prems(4)[of p] by simp_all
  have app: "app_ok E" unfolding E_def by (rule servers.app)
  have "ok_res (\<lambda>t. sys_inv [] t \<and> server_good t \<and> (\<forall>q. q \<noteq> p \<longrightarrow> event_ready s q \<longrightarrow> event_ready t q))
      (Channel_handleEvents ?run p s)"
  proof (cases "cx_conns s p")
    case None
    show ?thesis
      by (rule ok_res_mono[OF listener_event_ok[OF Cons.prems(1,2) r None fresh app]]) (simp add: ready_ext_def)
  next
    case (Some c)
    then obtain e where e: "returned s p = Some e" "view_up (conn_view s p)" "\<not> (wants_read e \<and> wants_close e)"
      using r by (auto simp: event_ready_def)
    have "ok_res (\<lambda>t. sys_inv [] t \<and> server_good t \<and> event_frame p s t) (Channel_handleEvents ?run p s)"
      unfolding E_def
      by (rule servers.dispatch_event_ok[OF Cons.prems(1,2) e(2,1,3) io])
        (simp_all add: server_callback_def conn_callback_def)
    then show ?thesis by (rule ok_res_mono) (use event_ready_frame in blast)
  qed
  then show ?case
    unfolding fold_res.simps
  proof (rule ok_res_bindr)
    fix t :: "'a sloop_scheme"
    assume t: "sys_inv [] t \<and> server_good t \<and> (\<forall>q. q \<noteq> p \<longrightarrow> event_ready s q \<longrightarrow> event_ready t q)"
    show "ok_res (\<lambda>t. sys_inv [] t \<and> server_good t) (fold_res (Channel_handleEvents ?run) ps t)"
    proof (rule Cons.IH)
      show "sys_inv [] t" "server_good t" "distinct ps" using t Cons.prems(3) by simp_all
      fix q assume q: "q \<in> set ps"
      then have "q \<noteq> p" using p by auto
      then show "event_ready t q" using t Cons.prems(4)[of q] q by simp
    qed
  qed
qed simp

text \<open>Nothing of the server's is queued, so the pending functions are those of connections.\<close>

lemma server_pending:
  assumes "server_good s"
  shows "doPendingFunctions (server_exec removeConn E user) s = doPendingFunctions (conn_exec E user) s"
proof -
  have "fold_res (server_exec removeConn E user) fs u = fold_res (conn_exec E user) fs u"
    if "\<forall>f \<in> set fs. \<not> server_task f" for fs u
    using that
  proof (induction fs arbitrary: u)
    case (Cons f fs)
    then have "server_exec removeConn E user f u = conn_exec E user f u" by (cases f) (simp_all add: server_exec_def)
    moreover have "fold_res (server_exec removeConn E user) fs = fold_res (conn_exec E user) fs" using Cons by auto
    ultimately show ?case by simp
  qed simp
  with assms show ?thesis by (simp add: server_good_def doPendingFunctions_def)
qed

lemma server_round_ok:
  assumes inv: "sys_inv [] s" and g: "server_good s" and del: "deliverable s evs" and io: "io_ok rd wr"
    and fresh: "\<forall>s. accept_fresh net s (acc s)"
    and evs: "\<forall>(p, e) \<in> set evs. cx_conns s p = None \<or> \<not> (wants_read e \<and> wants_close e)"
    and user: "\<And>f s cc. cc \<in> set (user f s) \<Longrightarrow> call_ok s cc"
    and E_def: "E = server_application w onwritten app"
  shows "ok_res (\<lambda>t. sys_inv [] t \<and> server_good t)
    (loop_round (server_callback (newConnectionCallback E net True) E acc rd wr)
      (server_exec (removeConnectionInLoop True) E user) (Some evs, now) s)"
proof -
  obtain t where t: "Epoll_select (Some evs) s = Inr (t, map fst evs)" and it: "sys_inv [] t"
    and view: "conn_view t = conn_view s" and ext: "conn_ext s t" and conns: "cx_conns t = cx_conns s"
    and ret: "\<forall>(p, e) \<in> set evs. returned t p = Some e"
    by (rule select_ok[OF inv del]) (rule that, assumption+)
  have ready: "event_ready t p" if p: "p \<in> set (map fst evs)" for p
  proof -
    from p obtain e where e: "(p, e) \<in> set evs" by auto
    then obtain fd wt where w: "interest (rx_trace s) fd = Some (wt, p)" using del by (force simp: deliverable_def)
    from interest_chan[OF rx_inv_wf[OF conns_inv_rx[OF sys_inv_conns[OF inv]]] w]
    obtain ch where ch: "rx_chans s p = Some ch" "ch_state ch = ADDED" by blast
    have "returned t p = Some e" using ret e by blast
    moreover have "view_up (conn_view t p) \<and> \<not> (wants_read e \<and> wants_close e)" if c: "cx_conns s p = Some c" for c
    proof -
      obtain dh where "rx_chans s p = Some dh" "conn_ok p c dh" using conns_invD[OF sys_inv_conns[OF inv] c] by blast
      then have "conn_up c" using ch by (auto simp: conn_ok_def interest_ok_def conn_up_def split: sock_state.splits)
      then have "view_up (conn_view t p)" using view c ch by (auto simp: conn_view_def view_up_def conn_up_def)
      moreover have "cx_conns s p = None \<or> \<not> (wants_read e \<and> wants_close e)" using evs e by blast
      ultimately show ?thesis using c by simp
    qed
    ultimately show ?thesis using conns by (auto simp: event_ready_def)
  qed
  have gt: "server_good t" by (rule server_good_ext[OF g ext])
  have "distinct (map fst evs)" using del by (simp add: deliverable_def)
  from server_dispatch_ok[OF it gt this ready io fresh E_def, of now]
  have "ok_res (\<lambda>t. sys_inv [] t \<and> server_good t)
      (bindr (fold_res (Channel_handleEvents (server_callback (newConnectionCallback E net True) E acc rd wr now)) (map fst evs) t)
        (doPendingFunctions (server_exec (removeConnectionInLoop True) E user)))"
    unfolding E_def
  proof (rule ok_res_bindr)
    fix u :: "'a sloop_scheme"
    assume u: "sys_inv [] u \<and> server_good u"
    then have ui: "sys_inv [] u" and ug: "server_good u" by simp_all
    show "ok_res (\<lambda>t. sys_inv [] t \<and> server_good t)
        (doPendingFunctions (server_exec (removeConnectionInLoop True) (server_application w onwritten app) user) u)"
      unfolding server_pending[OF ug] by (rule servers.pending_ok[OF ui ug user])
  qed
  then show ?thesis using t by (simp add: loop_round_def)
qed

lemma run_server_op_ok:
  assumes inv: "sys_inv [] s" and g: "server_good s" and ok: "server_op_ok net s oper"
  shows "ok_res (\<lambda>t. sys_inv [] t \<and> server_good t)
    (run_server_op (server_application w onwritten app) net (user_calls user) oper s)"
proof (cases oper)
  case (SvCall inLoop cc)
  then have a: "call_ok s cc" "inLoop \<or> thread_call cc" using ok by simp_all
  show ?thesis unfolding SvCall run_server_op_def server_op.case
    by (rule ok_res_mono[OF run_conn_call_ok[OF inv a]]) (use servers.good_frame[OF g] in blast)
next
  case (SvRound evs now rd wr acc)
  then have a: "deliverable s evs" "io_ok rd wr" "\<forall>s. accept_fresh net s (acc s)"
    "\<forall>(p, e) \<in> set evs. cx_conns s p = None \<or> \<not> (wants_read e \<and> wants_close e)" using ok by auto
  show ?thesis unfolding SvRound run_server_op_def server_op.case
    by (rule server_round_ok[OF inv g a _ refl]) (simp add: user_calls_def)
next
  case (SvMark p)
  then obtain c where c: "cx_conns s p = Some c" "conn_up c" using ok by auto
  show ?thesis unfolding SvMark run_server_op_def server_op.case
    by (rule ok_res_mono[OF mark_ok[OF inv c]]) (use servers.good_frame[OF g] in blast)
next
  case (SvPost f)
  then have "post_ok s f" using ok by simp
  from post_task_ok[OF inv this] show ?thesis unfolding SvPost run_server_op_def server_op.case
    using servers.good_frame[OF g] by auto
next
  case (SvDelete p)
  then obtain c where c: "cx_conns s p = Some c" and free: "unreferenced p s" using ok by auto
  obtain t where t: "TcpConnection_delete p s = Inr t" "sys_inv [] t" "cx_conns t = (cx_conns s)(p := None)"
    "rx_chans t = (rx_chans s)(p := None)" "cx_refs t = cx_refs s" "el_pending t = el_pending s" "wloop.more t = wloop.more s"
    using delete_ok[OF inv c free] by (elim exE conjE) (rule that, assumption+)
  note m = server_more[OF t(7)]
  have keys: "conn_names t = (conn_names s)(p := None)" "chan_keys t = (chan_keys s)(p := None)"
    using t(3,4) by (simp_all add: conn_names_def chan_keys_def fun_eq_iff)
  have free': "p \<notin> ran (sv_connections s)" using free g by (simp add: unreferenced_def server_good_def)
  have "conn_names t q = Some n" if "sv_connections s n = Some q" for n q
    using that g free' keys(1) by (auto simp: server_good_def intro: ranI)
  moreover have "(conn_names t q = None \<longrightarrow> listener_key k) \<and> fst k \<noteq> sv_idleFd s" if "chan_keys t q = Some k" for q k
    using that server_good_key[OF g, of q k] keys by (auto split: if_splits)
  ultimately have "server_good t" using g t(5,6) unfolding server_good_def m by simp
  then show ?thesis unfolding SvDelete run_server_op_def server_op.case using t(1,2) by simp
qed

section \<open>The system\<close>

text \<open>
  A server is built and started in its own thread: the loop's timer and wakeup channels, then the
  acceptor, the callbacks of the application, and \<open>start\<close>.
\<close>

definition server_boot :: "int \<Rightarrow> ptr \<Rightarrow> int \<Rightarrow> ptr \<Rightarrow> int \<Rightarrow> ptr \<Rightarrow> int \<Rightarrow> sockaddr \<Rightarrow> string \<Rightarrow> bool \<Rightarrow> bool \<Rightarrow> bool \<Rightarrow> sloop result" where
  "server_boot timerfd tchan wakeupfd wchan listenFd p idleFd addr name ccb mcb wcb =
     bindr (EventLoop_new False timerfd tchan wakeupfd wchan (raw_loop Map.empty 0))
      (\<lambda>l. bindr (TcpServer_new listenFd p idleFd addr name (tloop.extend l \<lparr>cx_conns = Map.empty, cx_refs = {}, cx_log = []\<rparr>))
        (\<lambda>s. TcpServer_start True (set_server_callbacks ccb mcb wcb s)))"

definition server_started :: "sloop \<Rightarrow> bool" where
  "server_started s \<longleftrightarrow> (\<exists>timerfd tchan wakeupfd wchan listenFd p idleFd addr name ccb mcb wcb.
     distinct [timerfd, wakeupfd, listenFd, idleFd] \<and> distinct [tchan, wchan, p] \<and>
     server_boot timerfd tchan wakeupfd wchan listenFd p idleFd addr name ccb mcb wcb = Inr s)"

lemma server_startedI:
  "server_boot timerfd tchan wakeupfd wchan listenFd p idleFd addr name ccb mcb wcb = Inr s \<Longrightarrow>
   distinct [timerfd, wakeupfd, listenFd, idleFd] \<Longrightarrow> distinct [tchan, wchan, p] \<Longrightarrow> server_started s"
  unfolding server_started_def by blast

inductive server_step :: "sloop conn_env \<Rightarrow> inet \<Rightarrow> (task \<Rightarrow> sloop \<Rightarrow> conn_call list) \<Rightarrow> sloop \<Rightarrow> sloop \<Rightarrow> bool"
  for E net user where
  "server_op_ok net s oper \<Longrightarrow> run_server_op E net (user_calls user) oper s = Inr t \<Longrightarrow> server_step E net user s t"

inductive_cases server_stepE: "server_step E net user s t"

lemma built_loop_rx:
  assumes "timerfd \<noteq> wakeupfd" and "tchan \<noteq> wchan"
  shows "rx_inv (built_loop timerfd tchan wakeupfd wchan n)"
proof -
  let ?T = "(Channel_make timerfd)\<lparr>ch_readCb := Some CbTimerRead\<rparr>"
  let ?W = "(Channel_make wakeupfd)\<lparr>ch_readCb := Some CbWakeupRead\<rparr>"
  let ?r = "raw_loop Map.empty n"
  let ?a = "request_result tchan ?T kReadEvent (Channel_put tchan ?T ?r)"
  let ?b = "request_result wchan ?W kReadEvent (Channel_put wchan ?W ?a)"
  have chans: "rx_chans ?r = Map.empty" by (simp add: raw_loop_def)
  have "rx_inv ?r" by (rule rx_inv_cong[OF rx_inv_new]) (simp_all add: raw_loop_def)
  then have "rx_inv (Channel_put tchan ?T ?r)" by (rule rx_inv_put_new) (simp_all add: chans Channel_make_def)
  then have "rx_inv ?a" by (rule rx_request_law(2)) (simp add: Channel_put_def)
  then have "rx_inv (Channel_put wchan ?W ?a)"
    by (rule rx_inv_put_new)
      (use assms chans in \<open>auto simp: request_result_def Channel_put_def Channel_make_def split: if_splits\<close>)
  then have "rx_inv ?b" by (rule rx_request_law(2)) (simp add: Channel_put_def)
  then show ?thesis
    by (rule rx_inv_cong)
      (use assms in \<open>simp_all add: built_loop_def raw_loop_def request_result_def Channel_put_def Channel_make_def
        requested_with_def fun_upd_twist\<close>)
qed

text \<open>The acceptor's channel, and what building and starting a server with it leaves.\<close>

abbreviation listen_channel :: "int \<Rightarrow> channel" where
  "listen_channel fd \<equiv> (Channel_make fd)\<lparr>ch_readCb := Some CbAcceptorRead\<rparr>"

lemma Acceptor_new_ok:
  assumes rx: "rx_inv s" and new: "rx_chans s p = None" "unused listenFd s" and idle: "0 \<le> idleFd"
  obtains t where "Acceptor_new listenFd p idleFd addr s = Inr t" and "rx_inv t"
    and "rx_chans t = (rx_chans s)(p \<mapsto> listen_channel listenFd)"
    and "t = s\<lparr>rx_chans := rx_chans t, rx_trace := rx_trace t, sv_listenFd := listenFd, sv_listenChannel := p, sv_idleFd := idleFd\<rparr>"
proof -
  let ?u = "sys_call (SysBind listenFd (get_at 0 in6_size (getSockAddr addr)))
      (sys_call (SysSetReusePort listenFd True) (sys_call (SysSetReuseAddr listenFd True)
        (sys_call (SysOpenNull idleFd) (sys_call (SysSocket listenFd (sa_family addr)) s))))"
  let ?t = "(Channel_put p (listen_channel listenFd) ?u)\<lparr>sv_listenFd := listenFd, sv_listenChannel := p, sv_idleFd := idleFd\<rparr>"
  have "rx_inv ?u" by (intro rx_inv_sys_call rx) simp_all
  then have "rx_inv (Channel_put p (listen_channel listenFd) ?u)"
    by (rule rx_inv_put_new) (use new in \<open>auto simp: unused_def Channel_make_def\<close>)
  then have "rx_inv ?t" by (rule rx_inv_cong) simp_all
  moreover have "Acceptor_new listenFd p idleFd addr s = Inr ?t"
    using new(1) idle
    by (simp add: Acceptor_new_def SocketUtil_createNonblockSocket_def SocketUtil_createSocket_def Socket_bindAddress_def
        SocketUtil_bindAddress_def Socket_setPortReuse_def SocketUtil_setPortReuse_def Socket_setAddrReuse_def
        SocketUtil_setAddrReuse_def Channel_put_def sys_call_def)
  ultimately show ?thesis by (intro that[of ?t]) (simp_all add: Channel_put_def sys_call_def)
qed

lemma TcpServer_start_ok:
  assumes rx: "rx_inv s" and ch: "rx_chans s (sv_listenChannel s) = Some (listen_channel (sv_listenFd s))"
    and idle: "\<not> el_looping s" "\<not> el_running s"
  obtains t where "TcpServer_start True s = Inr t" and "rx_inv t"
    and "rx_chans t = (rx_chans s)(sv_listenChannel s \<mapsto>
      (listen_channel (sv_listenFd s))\<lparr>ch_requested := kReadEvent, ch_state := ADDED\<rparr>)"
    and "interest (rx_trace t) (sv_listenFd s) = Some (kReadEvent, sv_listenChannel s)"
    and "t = s\<lparr>rx_chans := rx_chans t, rx_channelMap := rx_channelMap t, rx_trace := rx_trace t, el_looping := True, el_running := True\<rparr>"
proof -
  let ?c = "listen_channel (sv_listenFd s)"
  let ?s = "sys_call (SysListen (sv_listenFd s)) s"
  let ?u = "request_result (sv_listenChannel s) ?c kReadEvent ?s"
  let ?t = "?u\<lparr>el_looping := True, el_running := True\<rparr>"
  have "rx_inv ?s" using rx by (rule rx_inv_sys_call) simp_all
  moreover have "rx_chans ?s (sv_listenChannel s) = Some ?c" using ch by simp
  ultimately have u: "enableRead (sv_listenChannel s) ?s = Inr ?u" "rx_inv ?u"
    "interest (rx_trace ?u) (sv_listenFd s) = Some (kReadEvent, sv_listenChannel s)"
    using rx_request_law[of ?s "sv_listenChannel s" ?c] by (simp_all add: enableRead_def Channel_make_def)
  have "rx_inv ?t" by (rule rx_inv_cong[OF u(2)]) simp_all
  moreover have "TcpServer_start True s = Inr ?t"
    using u(1) idle
    by (simp add: TcpServer_start_def runInLoop_def Acceptor_listen_def Socket_listen_def SocketUtil_listenSocket_def
        loop_enter_def request_result_def sys_call_def)
  ultimately show ?thesis
    using u(3) by (intro that[of ?t]) (simp_all add: request_result_def requested_with_def Channel_make_def sys_call_def)
qed

text \<open>The loop a server is built on.\<close>

abbreviation base_loop :: "int \<Rightarrow> ptr \<Rightarrow> int \<Rightarrow> ptr \<Rightarrow> wloop" where
  "base_loop timerfd tchan wakeupfd wchan \<equiv>
     tloop.extend (built_loop timerfd tchan wakeupfd wchan 0) \<lparr>cx_conns = Map.empty, cx_refs = {}, cx_log = []\<rparr>"

lemma base_loop_ok:
  assumes "timerfd \<noteq> wakeupfd" and "tchan \<noteq> wchan"
  shows "rx_inv (base_loop timerfd tchan wakeupfd wchan)"
    and "\<And>m. rx_chans (wloop.extend (base_loop timerfd tchan wakeupfd wchan) m) = rx_chans (built_loop timerfd tchan wakeupfd wchan 0)"
    and "\<And>m. rx_inv (wloop.extend (base_loop timerfd tchan wakeupfd wchan) m)"
    and "\<And>q k. map_option chan_key (rx_chans (built_loop timerfd tchan wakeupfd wchan 0) q) = Some k \<Longrightarrow>
      listener_key k \<and> fst k \<in> {timerfd, wakeupfd}"
proof -
  show "rx_inv (base_loop timerfd tchan wakeupfd wchan)"
    by (rule rx_inv_cong[OF built_loop_rx[OF assms]]) (simp_all add: tloop.defs)
  then show "rx_inv (wloop.extend (base_loop timerfd tchan wakeupfd wchan) m)" for m
    by (rule rx_inv_cong) (simp_all add: tloop.defs wloop.defs)
  show "rx_chans (wloop.extend (base_loop timerfd tchan wakeupfd wchan) m) = rx_chans (built_loop timerfd tchan wakeupfd wchan 0)" for m
    by (simp add: tloop.defs wloop.defs)
  show "listener_key k \<and> fst k \<in> {timerfd, wakeupfd}"
    if "map_option chan_key (rx_chans (built_loop timerfd tchan wakeupfd wchan 0) q) = Some k" for q k
    using that by (auto simp: chan_key_def built_loop_def Channel_make_def split: if_splits)
qed

lemma built_loop_unused:
  assumes "fd \<noteq> timerfd" and "fd \<noteq> wakeupfd" and "rx_chans s = rx_chans (built_loop timerfd tchan wakeupfd wchan n)"
  shows "unused fd s"
  using assms by (auto simp: unused_def built_loop_def Channel_make_def split: if_splits)

lemma server_boot_eq:
  assumes d: "distinct [timerfd, wakeupfd, listenFd, idleFd]" "distinct [tchan, wchan, p]" and idle: "0 \<le> idleFd"
  shows "\<exists>s. server_boot timerfd tchan wakeupfd wchan listenFd p idleFd addr name ccb mcb wcb = Inr s \<and>
    sys_inv [] s \<and> server_good s \<and> cx_conns s = Map.empty \<and> el_pending s = [] \<and> sv_connections s = Map.empty \<and>
    sv_name s = name \<and> sv_listenFd s = listenFd \<and> sv_idleFd s = idleFd \<and> sv_connectionCb s = ccb \<and>
    interest (rx_trace s) listenFd = Some (kReadEvent, p) \<and> rx_eventsSize s = InitEventVectorSize \<and>
    rx_chans s = (rx_chans (built_loop timerfd tchan wakeupfd wchan 0))
      (p \<mapsto> (listen_channel listenFd)\<lparr>ch_requested := kReadEvent, ch_state := ADDED\<rparr>)"
proof -
  let ?l = "built_loop timerfd tchan wakeupfd wchan 0"
  let ?f = "\<lparr>sv_listenFd = -1, sv_listenChannel = 0, sv_idleFd = -1, sv_name = name, sv_connections = Map.empty,
        sv_connectionCb = False, sv_messageCb = False, sv_writeCompleteCb = False\<rparr>"
  let ?w = "wloop.extend (base_loop timerfd tchan wakeupfd wchan) ?f :: sloop"
  have ne: "timerfd \<noteq> wakeupfd" "tchan \<noteq> wchan" "p \<noteq> tchan" "p \<noteq> wchan" "listenFd \<noteq> timerfd" "listenFd \<noteq> wakeupfd"
    "idleFd \<noteq> timerfd" "idleFd \<noteq> wakeupfd" "idleFd \<noteq> listenFd" using d by auto
  note base = base_loop_ok[OF ne(1,2)]
  have free: "rx_chans ?w p = None" unfolding base(2) using ne by (simp add: built_loop_def)
  have un: "unused listenFd ?w" by (rule built_loop_unused[OF ne(5,6) base(2)])
  obtain a where a: "Acceptor_new listenFd p idleFd addr ?w = Inr a" "rx_inv a"
      "rx_chans a = (rx_chans ?w)(p \<mapsto> listen_channel listenFd)"
    and au: "a = ?w\<lparr>rx_chans := rx_chans a, rx_trace := rx_trace a, sv_listenFd := listenFd, sv_listenChannel := p, sv_idleFd := idleFd\<rparr>"
    by (rule Acceptor_new_ok[OF base(3) free un idle])
  let ?b = "set_server_callbacks ccb mcb wcb a"
  have b: "rx_inv ?b" by (rule rx_inv_cong[OF a(2)]) (simp_all add: set_server_callbacks_def)
  have bf: "sv_listenChannel ?b = p" "sv_listenFd ?b = listenFd" "\<not> el_looping ?b" "\<not> el_running ?b"
    by (subst au, simp add: set_server_callbacks_def wloop.defs tloop.defs built_loop_def raw_loop_def)+
  have bc: "rx_chans ?b (sv_listenChannel ?b) = Some (listen_channel (sv_listenFd ?b))"
    unfolding bf using a(3) by (simp add: set_server_callbacks_def)
  obtain s where s: "TcpServer_start True ?b = Inr s" "rx_inv s"
      "rx_chans s = (rx_chans ?b)(sv_listenChannel ?b \<mapsto>
        (listen_channel (sv_listenFd ?b))\<lparr>ch_requested := kReadEvent, ch_state := ADDED\<rparr>)"
      "interest (rx_trace s) (sv_listenFd ?b) = Some (kReadEvent, sv_listenChannel ?b)"
    and su: "s = ?b\<lparr>rx_chans := rx_chans s, rx_channelMap := rx_channelMap s, rx_trace := rx_trace s, el_looping := True, el_running := True\<rparr>"
    by (rule TcpServer_start_ok[OF b bc bf(3,4)])
  have boot: "server_boot timerfd tchan wakeupfd wchan listenFd p idleFd addr name ccb mcb wcb = Inr s"
    unfolding server_boot_def EventLoop_new_eq[OF ne(1,2)] bindr_simps TcpServer_new_def a(1) by (rule s(1))
  have f: "cx_conns s = Map.empty" "cx_refs s = {}" "el_pending s = []" "sv_connections s = Map.empty" "sv_name s = name"
    "sv_listenFd s = listenFd" "sv_idleFd s = idleFd" "sv_connectionCb s = ccb" "rx_eventsSize s = InitEventVectorSize"
    by (subst su, subst au, simp add: set_server_callbacks_def wloop.defs tloop.defs built_loop_def raw_loop_def)+
  have chans: "rx_chans s = (rx_chans ?l)(p \<mapsto> (listen_channel listenFd)\<lparr>ch_requested := kReadEvent, ch_state := ADDED\<rparr>)"
    unfolding s(3) bf using a(3) unfolding base(2) by (simp add: set_server_callbacks_def)
  have inv: "sys_inv [] s" using s(2) by (simp add: sys_inv_def conns_inv_def life_def conn_view_def f)
  have "listener_key k \<and> fst k \<noteq> idleFd" if k: "chan_keys s q = Some k" for q k
  proof (cases "q = p")
    case True
    then show ?thesis using k ne unfolding chan_keys_def chans by (auto simp: chan_key_def Channel_make_def)
  next
    case False
    then have "map_option chan_key (rx_chans ?l q) = Some k" using k unfolding chan_keys_def chans by simp
    from base(4)[OF this] ne show ?thesis by auto
  qed
  then have "server_good s" unfolding server_good_def f by simp
  then show ?thesis using boot inv f s(4) chans unfolding bf by blast
qed

lemma server_started_ok:
  assumes "server_started s"
  shows "sys_inv [] s \<and> server_good s"
proof -
  obtain timerfd tchan wakeupfd wchan listenFd p idleFd addr name ccb mcb wcb where
    d: "distinct [timerfd, wakeupfd, listenFd, idleFd]" "distinct [tchan, wchan, p]" and
    b: "server_boot timerfd tchan wakeupfd wchan listenFd p idleFd addr name ccb mcb wcb = Inr s"
    using assms unfolding server_started_def by (elim exE conjE) (rule that, assumption+)
  have "0 \<le> idleFd"
    using b d by (auto simp: server_boot_def EventLoop_new_eq bindr_eq_Inr TcpServer_new_def Acceptor_new_def
        SocketUtil_createNonblockSocket_def SocketUtil_createSocket_def)
  from server_boot_eq[OF d this, of addr name ccb mcb wcb] b show ?thesis by auto
qed

interpretation server_system: invariant_system server_started
  "server_step (server_application wr onwritten app) net user" "\<lambda>s. sys_inv [] s \<and> server_good s"
proof
  show "server_started s \<Longrightarrow> sys_inv [] s \<and> server_good s" for s by (rule server_started_ok)
  fix s t
  assume "server_step (server_application wr onwritten app) net user s t" and inv: "sys_inv [] s \<and> server_good s"
  then obtain oper where "server_op_ok net s oper"
    "run_server_op (server_application wr onwritten app) net (user_calls user) oper s = Inr t"
    by (elim server_stepE)
  with run_server_op_ok[of s net oper wr onwritten app user] inv show "sys_inv [] t \<and> server_good t" by (simp add: ok_resD)
qed

text \<open>C9. A whole server in one loop is memory safe and keeps its books as long as no accepted peer gets the
  name of a connection in the map: from its construction and start, through any mix of rounds
  (accepting, or turning peers away when descriptors run out, while other connections send, receive,
  close or fail), calls of the application in the loop's thread, calls of other threads (in one piece
  or step by step, while the connection is not closed in between) and destructions of released
  connections, the next operation fails no assertion, dereferences nothing destroyed, and leaves a
  map that holds exactly the connections the server refers to, each under its own name. The code
  does not ensure the condition on names; \<open>same_port_destroys_connection\<close> is what happens without it.\<close>

theorem server_system_safe:
  assumes "reach server_started (server_step (server_application wr onwritten app) net user) s" and "server_op_ok net s oper"
  shows "case run_server_op (server_application wr onwritten app) net (user_calls user) oper s of
      Inl e \<Rightarrow> env_fault e
    | Inr t \<Rightarrow> reach server_started (server_step (server_application wr onwritten app) net user) t \<and>
        cx_refs t = ran (sv_connections t) \<and>
        (\<forall>n p. sv_connections t n = Some p \<longrightarrow> (\<exists>c. cx_conns t p = Some c \<and> cn_name c = n))"
proof -
  have i: "sys_inv [] s" "server_good s" using server_system.reach_inv[OF assms(1)] by simp_all
  have "ok_res (\<lambda>t. sys_inv [] t \<and> server_good t) (run_server_op (server_application wr onwritten app) net (user_calls user) oper s)"
    by (rule run_server_op_ok[OF i assms(2)])
  moreover have "cx_refs t = ran (sv_connections t) \<and>
      (\<forall>n p. sv_connections t n = Some p \<longrightarrow> (\<exists>c. cx_conns t p = Some c \<and> cn_name c = n))" if "server_good t" for t :: sloop
    using server_good_map[OF that] by (simp add: sv_inv_def)
  ultimately show ?thesis
    using reach_step[OF assms(1) server_step.intros[OF assms(2)]]
    by (auto simp: ok_res_def split: sum.splits)
qed

definition one_accept :: "sloop \<Rightarrow> ptr \<times> accept_env \<times> sockaddr" where
  "one_accept s =
     (let A = \<lparr>ac_outcome = (9, in_bytes 4242 [10, 0, 0, 1]), ac_errno = 0, ac_again = 0, ac_open = 0\<rparr> in
      if accept_fresh toy_inet s (20, A, first_peer) then (20, A, first_peer) else (20, A\<lparr>ac_outcome := (-1, [])\<rparr>, first_peer))"

lemma one_accept_fresh: "accept_fresh toy_inet s (one_accept s)"
  by (simp add: one_accept_def kernel_fresh_def new_peer_def Socket_accept_def SocketUtil_acceptSocket_def EMFILE_def)

abbreviation quiet_server :: "sloop conn_env" where
  "quiet_server \<equiv> server_application (\<lambda>_ _. 0) (\<lambda>_. Inr) (\<lambda>_ _. [])"

abbreviation accept_round :: "sloop server_op" where
  "accept_round \<equiv> SvRound [(10, POLLIN)] 3 (\<lambda>_ _. ReadvError 0) (\<lambda>_ _. 0) one_accept"

lemma first_accept:
  "\<exists>s u. server_started s \<and> server_op_ok toy_inet s accept_round \<and>
    run_server_op quiet_server toy_inet (user_calls (\<lambda>_ _. [])) accept_round s = Inr u \<and> cx_refs u = {20}"
proof -
  obtain s :: sloop where s: "server_boot 4 2 5 3 6 10 7 first_peer ''s'' False False False = Inr s"
    "sys_inv [] s" "server_good s" "cx_conns s = Map.empty" "el_pending s = []" "sv_connections s = Map.empty"
    "sv_name s = ''s''" "sv_listenFd s = 6" "sv_idleFd s = 7" "\<not> sv_connectionCb s"
    "interest (rx_trace s) 6 = Some (kReadEvent, 10)" "rx_eventsSize s = InitEventVectorSize"
    "rx_chans s = (rx_chans (built_loop 4 2 5 3 0))(10 \<mapsto> (Channel_make 6)\<lparr>ch_readCb := Some CbAcceptorRead, ch_requested := kReadEvent, ch_state := ADDED\<rparr>)"
    using server_boot_eq[of 4 5 6 7 2 3 10 first_peer "''s''" False False False]
    by simp (elim exE conjE, rule that, assumption+)
  let ?evs = "[(10, POLLIN)]"
  have started: "server_started s" by (rule server_startedI[OF s(1)]) simp_all
  have del: "deliverable s ?evs" using s(11,12) by (auto simp: deliverable_def InitEventVectorSize_def)
  have ok: "server_op_ok toy_inet s accept_round"
    using del one_accept_fresh by (simp add: s(4,13) io_ok_def)
  obtain t where t: "Epoll_select (Some ?evs) s = Inr (t, map fst ?evs)" "sys_inv [] t" "conn_ext s t" "cx_conns t = cx_conns s"
    "el_pending t = el_pending s" "\<forall>(p, e) \<in> set ?evs. returned t p = Some e"
    by (rule select_ok[OF s(2) del]) (rule that, assumption+)
  have more: "wloop.more t = wloop.more s" and keys: "chan_keys t = chan_keys s" and refs: "cx_refs t = cx_refs s"
    using t(3) by (simp_all add: conn_ext_def)
  note m = server_more[OF more]
  have ccb: "\<not> sv_connectionCb t" using more s(10) by (cases s; cases t) simp
  have none: "rx_chans t 20 = None"
    using fun_cong[OF keys, of 20] by (simp add: chan_keys_def s(13) built_loop_def)
  have fds: "ch_fd ch \<noteq> 9" if "rx_chans t q = Some ch" for q ch
    using fun_cong[OF keys, of q] that
    by (auto simp: chan_keys_def chan_key_def s(13) built_loop_def Channel_make_def split: if_splits)
  then have un: "rx_channelMap t 9 = None" by (intro unwatched_fd[OF conns_inv_rx[OF sys_inv_conns[OF t(2)]]]) blast
  obtain ch where ch: "rx_chans t 10 = Some ch" "ch_returned ch = POLLIN" "chan_key ch = (6, Some CbAcceptorRead, None, None, None)"
    using fun_cong[OF keys, of 10] t(6) by (auto simp: chan_keys_def returned_def s(13) chan_key_def Channel_make_def)
  have wants: "wants_read POLLIN" "\<not> wants_close POLLIN" "\<not> wants_write POLLIN" "\<not> wants_error POLLIN"
    by (simp_all add: wants_read_def wants_close_def wants_write_def wants_error_def event_consts)
  have fresh: "accept_fresh toy_inet t (20, \<lparr>ac_outcome = (9, in_bytes 4242 [10, 0, 0, 1]), ac_errno = 0, ac_again = 0, ac_open = 0\<rparr>, first_peer)"
    using fds none by (simp add: kernel_fresh_def new_peer_def Socket_accept_def SocketUtil_acceptSocket_def m s(4,6,9) t(4) unused_def)
  have kr: "kReadEvent \<noteq> kNoneEvent" by (simp add: kReadEvent_def kNoneEvent_def event_consts)
  have one: "one_accept t = (20, \<lparr>ac_outcome = (9, in_bytes 4242 [10, 0, 0, 1]), ac_errno = 0, ac_again = 0, ac_open = 0\<rparr>, first_peer)"
    using fresh by (simp add: one_accept_def)
  let ?run = "server_callback (newConnectionCallback quiet_server toy_inet True) quiet_server one_accept (\<lambda>_ _. ReadvError 0) (\<lambda>_ _. 0) 3"
  have cbs: "ch_fd ch = 6" "ch_readCb ch = Some CbAcceptorRead" "ch_writeCb ch = None" "ch_errorCb ch = None" "ch_closeCb ch = None"
    using ch(3) by (simp_all add: chan_key_def)
  have free: "cx_conns t 20 = None" "sv_connections t = Map.empty" "cx_refs t = {}" "el_pending t = []"
    using s(3,4,5,6) t(4,5) m refs by (simp_all add: server_good_def)
  have "\<exists>u. ?run CbAcceptorRead t = Inr u \<and> rx_chans u 10 = Some ch \<and> cx_refs u = {20} \<and> el_pending u = []"
    using none un kr free ccb ch(1)
    by (simp add: server_callback_def one Acceptor_handleRead_def Socket_accept_def SocketUtil_acceptSocket_def
        newConnectionCallback_def assertInLoopThread_def TcpConnection_new_def fresh_buffer_new
        connections_put_def set_callbacks_def runInLoop_def
        connectionEstablish_def enableRead_def Channel_request_def Channel_update_def Epoll_updateChannel_def
        Epoll_update_def Channel_put_def put_conn_def conn_channel_def Channel_make_def sys_call_def
        connectionCallback_def)
  then obtain u where u: "?run CbAcceptorRead t = Inr u" "rx_chans u 10 = Some ch" "cx_refs u = {20}" "el_pending u = []"
    by (elim exE conjE)
  have "Channel_handleEvents ?run 10 t = Inr u"
    using u(1,2) ch(1,2) cbs wants by (simp add: Channel_handleEvents_def handle_if_def call_cb_def)
  then have "run_server_op quiet_server toy_inet (user_calls (\<lambda>_ _. [])) accept_round s = Inr (u\<lparr>el_calling := False, el_pending := []\<rparr>)"
    using t(1) u(4) by (simp add: run_server_op_def loop_round_def doPendingFunctions_def)
  with started ok u(3) show ?thesis
    by (intro exI[of _ s] exI[of _ "u\<lparr>el_calling := False, el_pending := []\<rparr>"]) simp
qed

theorem server_system_safe_witness:
  "\<exists>s u. reach server_started (server_step quiet_server toy_inet (\<lambda>_ _. [])) s \<and>
    run_server_op quiet_server toy_inet (user_calls (\<lambda>_ _. [])) accept_round s = Inr u \<and> ran (sv_connections u) = {20} \<and>
    reach server_started (server_step quiet_server toy_inet (\<lambda>_ _. [])) u"
proof -
  obtain s u where s: "server_started s" "server_op_ok toy_inet s accept_round"
    "run_server_op quiet_server toy_inet (user_calls (\<lambda>_ _. [])) accept_round s = Inr u" "cx_refs u = {20}"
    using first_accept by (elim exE conjE)
  have r: "reach server_started (server_step quiet_server toy_inet (\<lambda>_ _. [])) s" by (rule reach_start[of server_started, OF s(1)])
  from server_system_safe[OF r s(2)] s(3,4) r show ?thesis by auto
qed

end
