(* ===== verification/ServerPool.thy ===== *)
theory ServerPool
  imports ServerSystem Threads
begin

text \<open>
  \<open>src/stnl/TcpServer.cpp\<close> with loop threads: the server's loop accepts and keeps the map,
  each connection lives in the loop the pool gave it. A close in an I/O loop posts
  \<open>removeConnectionInLoop\<close> to the server's loop, which posts \<open>connectionDestory\<close> back. The
  properties are about the whole server: all loops, every interleaving of their rounds.
\<close>

section \<open>State\<close>

text \<open>
  The server's loop is an \<open>sloop\<close> as in Servers; \<open>ms_loops\<close> are the loops of the pool's threads
  and \<open>ms_home\<close> is \<open>TcpConnection::getLoop\<close>. \<open>cx_refs\<close> of a loop is the part of \<open>connections_\<close>
  that lives there. \<open>io_posted\<close>: what a loop has posted to the server's loop since its round began.
\<close>

record ioloop = wloop +
  io_posted :: "ptr list"

record mserver = sloop +
  ms_pool :: pool
  ms_loops :: "ptr \<Rightarrow> ioloop option"
  ms_home :: "ptr \<Rightarrow> ptr"

definition on_loop :: "ptr \<Rightarrow> (ioloop \<Rightarrow> ioloop result) \<Rightarrow> mserver \<Rightarrow> mserver result" where
  "on_loop l f s = bindr (deref (ms_loops s) l) (\<lambda>w. bindr (f w) (\<lambda>w1. Inr (s\<lparr>ms_loops := (ms_loops s)(l \<mapsto> w1)\<rparr>)))"

text \<open>The close callback of a connection, \<open>TcpServer::removeConnection\<close>, in an I/O loop.\<close>

definition pool_close :: "closecb \<Rightarrow> ptr \<Rightarrow> ioloop \<Rightarrow> ioloop result" where
  "pool_close cb p w =
     (case cb of CloseOwner \<Rightarrow> Inr (w\<lparr>io_posted := io_posted w @ [p]\<rparr>) | CloseDetached \<Rightarrow> owner_close True cb p w)"

definition io_application :: "(ptr \<Rightarrow> ioloop \<Rightarrow> int) \<Rightarrow> (ptr \<Rightarrow> ioloop \<Rightarrow> ioloop result) \<Rightarrow>
    (app_event \<Rightarrow> ioloop \<Rightarrow> conn_call list) \<Rightarrow> ioloop conn_env" where
  "io_application wr onwritten app = (application True wr onwritten app)\<lparr>ce_close := pool_close\<rparr>"

text \<open>The posted functions enter the queue of the server's loop, oldest first.\<close>

definition post_removals :: "ptr \<Rightarrow> mserver \<Rightarrow> mserver result" where
  "post_removals l s =
     bindr (deref (ms_loops s) l)
      (\<lambda>w. Inr (fold (\<lambda>p. queueInLoop False (FnRemoveConnection p)) (io_posted w)
             (s\<lparr>ms_loops := (ms_loops s)(l \<mapsto> w\<lparr>io_posted := []\<rparr>)\<rparr>)))"

section \<open>The map of connections\<close>

text \<open>A pointer of the map goes away; a queued function of either loop may still hold the connection.\<close>

definition release :: "ptr \<Rightarrow> mserver \<Rightarrow> mserver result" where
  "release q s =
     on_loop (ms_home s q)
      (\<lambda>w. let w1 = w\<lparr>cx_refs := cx_refs w - {q}\<rparr> in
           if unreferenced q w1 \<and> q \<notin> set (concat (map held (el_pending s))) then TcpConnection_delete q w1 else Inr w1) s"

definition pool_put :: "string \<Rightarrow> ptr \<Rightarrow> mserver \<Rightarrow> mserver result" where
  "pool_put name p s =
     bindr (on_loop (ms_home s p) (\<lambda>w. Inr (w\<lparr>cx_refs := insert p (cx_refs w)\<rparr>))
             (s\<lparr>sv_connections := (sv_connections s)(name \<mapsto> p)\<rparr>))
      (\<lambda>s1. case sv_connections s name of None \<Rightarrow> Inr s1 | Some q \<Rightarrow> release q s1)"

text \<open>\<open>erase(conn->name())\<close>, called from a function that holds the connection \<open>p\<close>.\<close>

definition pool_erase :: "string \<Rightarrow> ptr \<Rightarrow> mserver \<Rightarrow> mserver result" where
  "pool_erase name p s =
     (case sv_connections s name of
        None \<Rightarrow> Inr s
      | Some q \<Rightarrow>
          let s1 = s\<lparr>sv_connections := (sv_connections s)(name := None)\<rparr>
          in if q = p then on_loop (ms_home s q) (\<lambda>w. Inr (w\<lparr>cx_refs := cx_refs w - {q}\<rparr>)) s1 else release q s1)"

section \<open>TcpServer\<close>

text \<open>
  An empty pool returns the server's own loop: then a connection is opened as in Servers. \<open>E\<close> is the
  environment of the server's loop, \<open>IE\<close> that of an I/O loop.
\<close>

definition TcpServer_newConnection :: "mserver conn_env \<Rightarrow> ioloop conn_env \<Rightarrow> inet \<Rightarrow> bool \<Rightarrow> ptr \<Rightarrow> int \<Rightarrow> sockaddr \<Rightarrow>
    mserver \<Rightarrow> mserver result" where
  "TcpServer_newConnection E IE net inLoop p socketFd peerAddr s =
     assertInLoopThread inLoop
      (bindr (getNextLoop (ms_pool s)) (\<lambda>(ioLoop, pl).
        if ioLoop = po_mainLoop pl
        then newConnectionCallback E net inLoop p socketFd peerAddr (s\<lparr>ms_pool := pl, ms_home := (ms_home s)(p := ioLoop)\<rparr>)
        else
         let connectionName = connection_name net (sv_name s) peerAddr in
         bindr (on_loop ioLoop (TcpConnection_new p connectionName socketFd)
                 (s\<lparr>ms_pool := pl, ms_home := (ms_home s)(p := ioLoop)\<rparr>))
          (\<lambda>s1. bindr (pool_put connectionName p s1)
            (\<lambda>s2. bindr (on_loop ioLoop (set_callbacks p (sv_connectionCb s2) (sv_messageCb s2) (sv_writeCompleteCb s2) CloseOwner) s2)
              (on_loop ioLoop (runInLoop (\<lambda>_. connectionEstablish IE p) False (Some (FnEstablish p))))))))"

definition TcpServer_removeInLoop :: "bool \<Rightarrow> ptr \<Rightarrow> mserver \<Rightarrow> mserver result" where
  "TcpServer_removeInLoop inLoop p s =
     assertInLoopThread inLoop
      (if ms_home s p = po_mainLoop (ms_pool s) then removeConnectionInLoop inLoop p s
       else bindr (deref (ms_loops s) (ms_home s p)) (\<lambda>w. bindr (deref (cx_conns w) p)
             (\<lambda>c. bindr (pool_erase (cn_name c) p s)
               (on_loop (ms_home s p) (\<lambda>w1. Inr (queueInLoop False (FnDestroy p) w1))))))"

text \<open>
  Construction and start. Each thread's loop is fresh: no connections, nothing queued.
\<close>

definition TcpServer_pool_new :: "int \<Rightarrow> ptr \<Rightarrow> int \<Rightarrow> sockaddr \<Rightarrow> string \<Rightarrow> ptr \<Rightarrow> int \<Rightarrow> wloop \<Rightarrow> mserver result" where
  "TcpServer_pool_new listenFd p idleFd listenAddr name mainLoop threadNums s =
     Acceptor_new listenFd p idleFd listenAddr (sloop.extend (wloop.extend s
       \<lparr>sv_listenFd = -1, sv_listenChannel = 0, sv_idleFd = -1, sv_name = name, sv_connections = Map.empty,
        sv_connectionCb = False, sv_messageCb = False, sv_writeCompleteCb = False\<rparr>)
       \<lparr>ms_pool = EventLoopThreadPool_new mainLoop threadNums, ms_loops = Map.empty, ms_home = (\<lambda>_. mainLoop)\<rparr>)"

definition start_pool :: "(int \<Rightarrow> ptr) \<Rightarrow> (ptr \<Rightarrow> ioloop) \<Rightarrow> mserver \<Rightarrow> mserver" where
  "start_pool start_loop fresh s =
     (let pl = EventLoopThreadPool_start start_loop (ms_pool s)
      in s\<lparr>ms_pool := pl, ms_loops := (\<lambda>l. if l \<in> set (po_loops pl) then Some (fresh l) else ms_loops s l)\<rparr>)"

definition TcpServer_pool_start :: "(int \<Rightarrow> ptr) \<Rightarrow> (ptr \<Rightarrow> ioloop) \<Rightarrow> bool \<Rightarrow> mserver \<Rightarrow> mserver result" where
  "TcpServer_pool_start start_loop fresh inLoop s = TcpServer_start inLoop (start_pool start_loop fresh s)"

section \<open>Steps\<close>

text \<open>
  A round of the server's loop, or an operation of one I/O loop: a call from its own thread or
  another, a round, the destruction of a connection nothing refers to. What an I/O loop posts
  enters the server's queue at the end of its operation.
\<close>

datatype pool_op =
    PoRound "(ptr \<times> events) list" timestamp "ptr \<Rightarrow> mserver \<Rightarrow> readv_outcome" "ptr \<Rightarrow> mserver \<Rightarrow> int"
      "mserver \<Rightarrow> ptr \<times> accept_env \<times> sockaddr"
  | PoLoop ptr "ioloop conn_op"

definition run_pool_op :: "mserver conn_env \<Rightarrow> ioloop conn_env \<Rightarrow> inet \<Rightarrow> (task \<Rightarrow> mserver \<Rightarrow> conn_call list) \<Rightarrow>
    (task \<Rightarrow> ioloop \<Rightarrow> conn_call list) \<Rightarrow> pool_op \<Rightarrow> mserver \<Rightarrow> mserver result" where
  "run_pool_op E IE net user io_user oper s =
     (case oper of
        PoRound evs now rd wr acc \<Rightarrow>
          loop_round (server_callback (TcpServer_newConnection E IE net True) E acc rd wr)
            (server_exec (TcpServer_removeInLoop True) E user) (Some evs, now) s
      | PoLoop l cop \<Rightarrow> bindr (on_loop l (run_conn_op IE (user_calls io_user) cop) s) (post_removals l))"

text \<open>The environment: as in ServerSystem, for all loops; \<open>new_peer\<close> is again the demand on names.\<close>

definition loops_fresh :: "mserver \<Rightarrow> ptr \<times> accept_env \<times> sockaddr \<Rightarrow> bool" where
  "loops_fresh s a \<longleftrightarrow>
     (case a of (p, A, addr) \<Rightarrow> case Socket_accept (sv_listenFd s) (ac_outcome A) addr s of (fd, peer, _) \<Rightarrow>
       (0 \<le> fd \<longrightarrow> (\<forall>l w. ms_loops s l = Some w \<longrightarrow> cx_conns w p = None \<and> rx_chans w p = None \<and> unused fd w)) \<and>
       (fd < 0 \<and> ac_errno A = EMFILE \<longrightarrow> unused (ac_again A) s \<and> unused (ac_open A) s))"

abbreviation pool_fresh :: "inet \<Rightarrow> mserver \<Rightarrow> ptr \<times> accept_env \<times> sockaddr \<Rightarrow> bool" where
  "pool_fresh net s a \<equiv> loops_fresh s a \<and> new_peer net s a"

fun io_op_ok :: "task list \<Rightarrow> ioloop \<Rightarrow> ioloop conn_op \<Rightarrow> bool" where
  "io_op_ok pending w (CoDelete p) \<longleftrightarrow> conn_op_ok w (CoDelete p) \<and> p \<notin> set (concat (map held pending))"
| "io_op_ok pending w cop \<longleftrightarrow> inner_op cop \<and> conn_op_ok w cop"

fun pool_op_ok :: "inet \<Rightarrow> mserver \<Rightarrow> pool_op \<Rightarrow> bool" where
  "pool_op_ok net s (PoRound evs now rd wr acc) \<longleftrightarrow> deliverable s evs \<and> (\<forall>s. pool_fresh net s (acc s)) \<and>
     (\<forall>(p, e) \<in> set evs. map_option ch_readCb (rx_chans s p) \<noteq> Some (Some CbTimerRead))"
| "pool_op_ok net s (PoLoop l cop) \<longleftrightarrow> (\<exists>w. ms_loops s l = Some w \<and> io_op_ok (el_pending s) w cop)"

section \<open>An I/O loop and its owner\<close>

text \<open>
  What an I/O loop keeps of the server's state, relative to its state \<open>w0\<close> before the operation and
  the removals \<open>B\<close> that are already under way: the server's pointers and the names behind them, and
  that a removal is posted once, for a connection that is down and still held.
\<close>

definition kept_names :: "ioloop \<Rightarrow> (ptr \<Rightarrow> string option) \<Rightarrow> bool" where
  "kept_names w0 names \<longleftrightarrow> (\<forall>p. names p = conn_names w0 p \<or> names p = None \<and> p \<notin> cx_refs w0)"

definition io_good :: "ptr list \<Rightarrow> ioloop \<Rightarrow> ioloop \<Rightarrow> bool" where
  "io_good B w0 w \<longleftrightarrow> cx_refs w = cx_refs w0 \<and> kept_names w0 (conn_names w) \<and> distinct (B @ io_posted w) \<and>
     (\<forall>p \<in> set (B @ io_posted w). p \<in> cx_refs w0 \<and> conn_down w p)"

lemma io_more: "wloop.more t = wloop.more s \<Longrightarrow> io_posted t = io_posted s"
  by (cases s; cases t) simp

lemma io_good_ext:
  assumes "io_good B w0 s" and "conn_ext s t"
  shows "io_good B w0 t"
proof -
  have "io_posted t = io_posted s" by (rule io_more) (use assms(2) in \<open>simp add: conn_ext_def\<close>)
  then show ?thesis using assms by (simp add: io_good_def conn_ext_def)
qed

lemma conn_down_cong: "conn_view t = conn_view s \<Longrightarrow> conn_down t = conn_down s"
  by (simp add: conn_down_def fun_eq_iff)

lemma io_posted_frame:
  "sys_inv rest w \<Longrightarrow> sys_inv rest (w\<lparr>io_posted := ps\<rparr>)" "conn_view (w\<lparr>io_posted := ps\<rparr>) = conn_view w"
  "returned (w\<lparr>io_posted := ps\<rparr>) = returned w" "conn_names (w\<lparr>io_posted := ps\<rparr>) = conn_names w"
  "conn_down (w\<lparr>io_posted := ps\<rparr>) = conn_down w"
proof -
  show view: "conn_view (w\<lparr>io_posted := ps\<rparr>) = conn_view w" by (rule conn_view_cong) simp_all
  show "conn_down (w\<lparr>io_posted := ps\<rparr>) = conn_down w" by (rule conn_down_cong[OF view])
  show "returned (w\<lparr>io_posted := ps\<rparr>) = returned w" by (rule returned_cong) simp
  show "conn_names (w\<lparr>io_posted := ps\<rparr>) = conn_names w" by (rule conn_names_cong) simp
  show "sys_inv rest (w\<lparr>io_posted := ps\<rparr>)" if "sys_inv rest w" by (rule sys_inv_cong[OF that]) simp_all
qed

interpretation ios: conn_owner "io_application wr onwritten app" "io_good B w0"
proof
  show "app_ok (io_application wr onwritten app)" by (simp add: app_ok_def io_application_def application_def)
  show "io_good B w0 s \<Longrightarrow> conn_ext s t \<Longrightarrow> io_good B w0 t" for s t by (rule io_good_ext)
  fix rest and s s0 :: ioloop and p c cb
  assume inv: "sys_inv rest s" and c: "cx_conns s p = Some c" "cn_state c = DISCONNECTED"
    and "cn_closeCb c = Some cb" and p: "p \<in> cx_refs s" and g0: "io_good B w0 s0" and up: "\<not> conn_down s0 p"
    and e: "conn_ext s0 s"
  have g: "io_good B w0 s" by (rule io_good_ext[OF g0 e])
  obtain b where V: "conn_view s p = Some (DISCONNECTED, b)" using view_at[OF c(1)] c(2) by simp
  let ?q = "queueInLoop True (FnDestroy p) s" and ?t = "s\<lparr>io_posted := io_posted s @ [p]\<rparr>"
  have q: "sys_inv rest ?q"
    using life_push_destroy[of "rest @ el_pending s" "cx_refs s" "conn_view s" p b] inv V by (simp add: sys_inv_def)
  have qg: "io_good B w0 ?q" by (rule io_good_ext[OF g conn_ext_same]) simp_all
  have "io_posted s = io_posted s0" by (rule io_more) (use e in \<open>simp add: conn_ext_def\<close>)
  then have new: "p \<notin> set (B @ io_posted s)" using g0 up by (auto simp: io_good_def)
  have down: "conn_down s p" using V by (simp add: conn_down_def)
  have tg: "io_good B w0 ?t" using g p new down unfolding io_good_def io_posted_frame by simp
  show "ok_res (\<lambda>s'. sys_inv rest s' \<and> conn_view s' = conn_view s \<and> returned s' = returned s \<and> io_good B w0 s')
      (ce_close (io_application wr onwritten app) cb p s)"
    using inv q qg tg by (cases cb) (simp_all add: io_application_def pool_close_def owner_close_def io_posted_frame)
qed

lemma io_op_keeps:
  assumes inv: "sys_inv [] w" and g: "io_good B w0 w" and ok: "io_op_ok pending w cop"
  shows "ok_res (\<lambda>w'. sys_inv [] w' \<and> io_good B w0 w') (run_conn_op (io_application wr onwritten app) (user_calls user) cop w)"
proof (cases "\<exists>p. cop = CoDelete p")
  case False
  then have "inner_op cop \<and> conn_op_ok w cop" using ok by (cases cop) simp_all
  then show ?thesis using ios.inner_op_ok[OF inv g] by blast
next
  case True
  then obtain p c where cop: "cop = CoDelete p" and c: "cx_conns w p = Some c" and free: "unreferenced p w" using ok by auto
  obtain t where t: "TcpConnection_delete p w = Inr t" "sys_inv [] t" "cx_conns t = (cx_conns w)(p := None)"
    "rx_chans t = (rx_chans w)(p := None)" "cx_refs t = cx_refs w" "el_pending t = el_pending w" "wloop.more t = wloop.more w"
    using delete_ok[OF inv c free] by (elim exE conjE) (rule that, assumption+)
  have names: "conn_names t = (conn_names w)(p := None)" using t(3) by (simp add: conn_names_def fun_eq_iff)
  have view: "conn_view t q = conn_view w q" if "q \<noteq> p" for q using that t(3,4) by (simp add: conn_view_def)
  have p: "p \<notin> cx_refs w" using free by (simp add: unreferenced_def)
  have kept: "kept_names w0 ((conn_names w)(p := None))" using g p by (auto simp: kept_names_def io_good_def)
  have "q \<in> cx_refs w0 \<and> conn_down t q" if "q \<in> set (B @ io_posted w)" for q
  proof -
    have q: "q \<in> cx_refs w0" "conn_down w q" "cx_refs w = cx_refs w0" using g that unfolding io_good_def by blast+
    then have "q \<noteq> p" using p by blast
    with q view show ?thesis by (simp add: conn_down_def)
  qed
  then have "io_good B w0 t" using g kept unfolding io_good_def names t(5) io_more[OF t(7)] by blast
  then show ?thesis unfolding cop run_conn_op_def conn_op.case using t(1,2) by simp
qed

section \<open>The server and its loops\<close>

text \<open>
  \<open>entry\<close>: the connection \<open>p\<close> lives in its loop, is held there and has the name \<open>n\<close>. \<open>leaving\<close>: it is
  held and has gone down, so that its removal may be under way. \<open>gone\<close>: the server has let go of it
  and its loop has been told to. The map holds exactly the
  entries; removals under way, \<open>ps\<close>, are of distinct connections that are leaving.
\<close>

definition entry :: "mserver \<Rightarrow> ptr \<Rightarrow> string \<Rightarrow> bool" where
  "entry s p n \<longleftrightarrow> (\<exists>w. ms_loops s (ms_home s p) = Some w \<and> p \<in> cx_refs w \<and> conn_names w p = Some n)"

definition leaving :: "mserver \<Rightarrow> ptr \<Rightarrow> bool" where
  "leaving s p \<longleftrightarrow> (\<exists>w. ms_loops s (ms_home s p) = Some w \<and> p \<in> cx_refs w \<and> conn_down w p)"

definition gone :: "mserver \<Rightarrow> ptr \<Rightarrow> bool" where
  "gone s p \<longleftrightarrow> (\<exists>w. ms_loops s (ms_home s p) = Some w \<and> p \<notin> cx_refs w \<and> FnDestroy p \<in> set (el_pending w))"

definition loop_ok :: "(ptr \<Rightarrow> ptr) \<Rightarrow> ptr \<Rightarrow> ioloop \<Rightarrow> bool" where
  "loop_ok home l w \<longleftrightarrow> sys_inv [] w \<and> io_posted w = [] \<and> (\<forall>p. conn_names w p \<noteq> None \<longrightarrow> home p = l)"

definition loops_inv :: "ptr list \<Rightarrow> mserver \<Rightarrow> bool" where
  "loops_inv ps s \<longleftrightarrow> (\<forall>l w. ms_loops s l = Some w \<longrightarrow> loop_ok (ms_home s) l w) \<and>
     (\<forall>n p. sv_connections s n = Some p \<longleftrightarrow> entry s p n) \<and> distinct ps \<and> (\<forall>p \<in> set ps. leaving s p)"

definition base_inv :: "mserver \<Rightarrow> bool" where
  "base_inv s \<longleftrightarrow> rx_inv s \<and> cx_conns s = Map.empty \<and> cx_refs s = {} \<and>
     (\<forall>p k. chan_keys s p = Some k \<longrightarrow> listener_key k \<and> fst k \<noteq> sv_idleFd s) \<and>
     pool_inv (ms_pool s) \<and> po_loops (ms_pool s) \<noteq> [] \<and> ms_loops s (po_mainLoop (ms_pool s)) = None \<and>
     (\<forall>l \<in> set (po_loops (ms_pool s)). ms_loops s l \<noteq> None)"

definition pool_state :: "ptr list \<Rightarrow> mserver \<Rightarrow> bool" where
  "pool_state ps s \<longleftrightarrow> base_inv s \<and> loops_inv ps s"

lemma loops_invD:
  assumes "loops_inv ps s"
  shows "ms_loops s l = Some w \<Longrightarrow> loop_ok (ms_home s) l w" and "sv_connections s n = Some p \<longleftrightarrow> entry s p n"
    and "distinct ps" and "p \<in> set ps \<Longrightarrow> leaving s p"
  using assms by (simp_all add: loops_inv_def)

lemma held_named: "sys_inv rest w \<Longrightarrow> p \<in> cx_refs w \<Longrightarrow> \<exists>n. conn_names w p = Some n"
  by (auto simp: sys_inv_def life_def conn_names_def)

text \<open>Everything depends on the loops, the homes and the map only.\<close>

lemma loops_inv_cong:
  assumes "loops_inv ps s" and "ms_loops t = ms_loops s" and "ms_home t = ms_home s" and "sv_connections t = sv_connections s"
  shows "loops_inv ps t"
  using assms by (simp add: loops_inv_def entry_def leaving_def)

text \<open>One loop has moved on, and has posted removals.\<close>

lemma loops_inv_io:
  assumes inv: "loops_inv ps s" and l: "ms_loops s l = Some w" and w': "sys_inv [] w'"
    and g: "io_good (filter (\<lambda>p. ms_home s p = l) ps) w w'"
  shows "loops_inv (ps @ io_posted w') (s\<lparr>ms_loops := (ms_loops s)(l \<mapsto> w'\<lparr>io_posted := []\<rparr>)\<rparr>)" (is "loops_inv _ ?t")
proof -
  let ?v = "w'\<lparr>io_posted := []\<rparr>"
  have ok: "loop_ok (ms_home s) l w" by (rule loops_invD(1)[OF inv l])
  have kept: "cx_refs w' = cx_refs w" "kept_names w (conn_names w')"
    and d: "distinct (filter (\<lambda>p. ms_home s p = l) ps @ io_posted w')"
    and lv: "\<And>p. p \<in> set (filter (\<lambda>p. ms_home s p = l) ps @ io_posted w') \<Longrightarrow> p \<in> cx_refs w \<and> conn_down w' p"
    using g unfolding io_good_def by blast+
  have home: "ms_home s p = l" if "p \<in> cx_refs w" for p
    using held_named[OF _ that] ok by (auto simp: loop_ok_def)
  have names: "conn_names w' p = conn_names w p" if "p \<in> cx_refs w" for p
    using kept(2) that unfolding kept_names_def by blast
  have entries: "entry ?t p n \<longleftrightarrow> entry s p n" for p n
    using names l kept(1) by (auto simp: entry_def io_posted_frame)
  have "ms_home s p = l" if "conn_names w' p = Some n" for p n
  proof -
    have "conn_names w p = Some n" using kept(2) that unfolding kept_names_def by (metis option.distinct(1))
    then show ?thesis using ok by (simp add: loop_ok_def)
  qed
  then have "loop_ok (ms_home s) l ?v" using w' by (auto simp: loop_ok_def io_posted_frame)
  then have "loop_ok (ms_home s) m u" if "ms_loops ?t m = Some u" for m u
    using that loops_invD(1)[OF inv] by (auto split: if_splits)
  moreover have "leaving ?t p" if p: "p \<in> set (ps @ io_posted w')" for p
  proof (cases "ms_home s p = l")
    case True
    then have "p \<in> set (filter (\<lambda>p. ms_home s p = l) ps @ io_posted w')" using p by auto
    from lv[OF this] True kept(1) show ?thesis by (simp add: leaving_def io_posted_frame)
  next
    case False
    then have "p \<in> set ps" using p lv[of p] home by auto
    from loops_invD(4)[OF inv this] False show ?thesis by (simp add: leaving_def)
  qed
  moreover have "distinct (ps @ io_posted w')"
  proof -
    have "p \<notin> set ps" if "p \<in> set (io_posted w')" for p
    proof
      assume "p \<in> set ps"
      moreover have "ms_home s p = l" using lv[of p] that home by simp
      ultimately show False using d that by auto
    qed
    then show ?thesis using d loops_invD(3)[OF inv] by auto
  qed
  ultimately show ?thesis
    using loops_invD(2)[OF inv] entries unfolding loops_inv_def by simp
qed

lemma post_removals_eq:
  "fold (\<lambda>p. queueInLoop False (FnRemoveConnection p)) qs s =
    s\<lparr>el_pending := el_pending s @ map FnRemoveConnection qs,
      rx_trace := rx_trace s @ replicate (length qs) (SysEventfdWrite (el_wakeupFd s))\<rparr>"
  for s :: "'z eventloop_scheme"
proof (induction qs arbitrary: s)
  case (Cons q qs)
  show ?case unfolding fold.simps o_apply Cons.IH by (simp add: queueInLoop_def queue_push_def wakeup_def sys_call_def)
qed simp

lemma rx_inv_post: "rx_inv s \<Longrightarrow> rx_inv (fold (\<lambda>p. queueInLoop False (FnRemoveConnection p)) qs s)"
  by (induction qs arbitrary: s) simp_all

text \<open>A step of an I/O loop.\<close>

lemma base_inv_cong:
  assumes "base_inv s" and "rx_inv t" and "rx_chans t = rx_chans s" and "cx_conns t = cx_conns s" and "cx_refs t = cx_refs s"
    and "sv_idleFd t = sv_idleFd s" and "ms_pool t = ms_pool s" and "\<And>l. ms_loops t l = None \<longleftrightarrow> ms_loops s l = None"
  shows "base_inv t"
proof -
  have "chan_keys t = chan_keys s" by (rule chan_keys_cong[OF assms(3)])
  then show ?thesis using assms by (simp add: base_inv_def)
qed

lemma pool_loop_ok:
  assumes inv: "pool_state ps s" and pend: "el_pending s = map FnRemoveConnection ps" and l: "ms_loops s l = Some w"
    and ok: "io_op_ok (el_pending s) w cop" and IE: "IE = io_application wr onwritten app"
  shows "ok_res (\<lambda>t. \<exists>qs. pool_state qs t \<and> el_pending t = map FnRemoveConnection qs)
    (bindr (on_loop l (run_conn_op IE (user_calls user) cop) s) (post_removals l))"
proof -
  let ?B = "filter (\<lambda>p. ms_home s p = l) ps"
  have li: "loops_inv ps s" and bi: "base_inv s" using inv by (simp_all add: pool_state_def)
  have ok0: "loop_ok (ms_home s) l w" by (rule loops_invD(1)[OF li l])
  then have w: "sys_inv [] w" and none: "io_posted w = []" by (simp_all add: loop_ok_def)
  have "p \<in> cx_refs w \<and> conn_down w p" if "p \<in> set ?B" for p
    using that loops_invD(4)[OF li, of p] l by (auto simp: leaving_def)
  then have "io_good ?B w w" using loops_invD(3)[OF li] none by (simp add: io_good_def kept_names_def)
  from io_op_keeps[OF w this ok, of wr onwritten app user]
  have "ok_res (\<lambda>w'. sys_inv [] w' \<and> io_good ?B w w') (run_conn_op IE (user_calls user) cop w)" unfolding IE .
  moreover have "\<exists>qs. pool_state qs t \<and> el_pending t = map FnRemoveConnection qs"
    if w': "sys_inv [] w' \<and> io_good ?B w w'"
      and t: "t = fold (\<lambda>p. queueInLoop False (FnRemoveConnection p)) (io_posted w') (s\<lparr>ms_loops := (ms_loops s)(l \<mapsto> w'\<lparr>io_posted := []\<rparr>)\<rparr>)"
    for w' t
  proof -
    let ?u = "s\<lparr>ms_loops := (ms_loops s)(l \<mapsto> w'\<lparr>io_posted := []\<rparr>)\<rparr>"
    have "rx_inv s" using bi by (simp add: base_inv_def)
    then have "rx_inv ?u" by (rule rx_inv_cong) simp_all
    from rx_inv_post[OF this, of "io_posted w'"] have rx: "rx_inv t" unfolding t .
    have fields: "rx_chans t = rx_chans s" "cx_conns t = cx_conns s" "cx_refs t = cx_refs s" "sv_idleFd t = sv_idleFd s"
      "ms_pool t = ms_pool s" "ms_loops t = ms_loops ?u" "ms_home t = ms_home ?u" "sv_connections t = sv_connections ?u"
      "el_pending t = map FnRemoveConnection (ps @ io_posted w')"
      unfolding t post_removals_eq using pend by simp_all
    have "base_inv t" by (rule base_inv_cong[OF bi rx fields(1-5)]) (use fields(6) l in auto)
    moreover have "loops_inv (ps @ io_posted w') t"
      by (rule loops_inv_cong[OF loops_inv_io[OF li l] fields(6-8)]) (use w' in simp_all)
    ultimately show ?thesis using fields(9) by (auto simp: pool_state_def)
  qed
  ultimately show ?thesis
    using l by (cases "run_conn_op IE (user_calls user) cop w") (simp_all add: on_loop_def post_removals_def)
qed

section \<open>Removing and accepting\<close>

lemma pool_remove_ok:
  assumes inv: "pool_state (p # ps) s"
  shows "\<exists>t. TcpServer_removeInLoop True p s = Inr t \<and> pool_state ps t \<and> el_pending t = el_pending s \<and>
    gone t p \<and> (\<forall>q. gone s q \<longrightarrow> gone t q)"
proof -
  have li: "loops_inv (p # ps) s" and bi: "base_inv s" using inv by (simp_all add: pool_state_def)
  let ?l = "ms_home s p"
  obtain w where w: "ms_loops s ?l = Some w" "p \<in> cx_refs w" "conn_down w p"
    using loops_invD(4)[OF li, of p] by (auto simp: leaving_def)
  have ok: "loop_ok (ms_home s) ?l w" by (rule loops_invD(1)[OF li w(1)])
  then have wi: "sys_inv [] w" by (simp add: loop_ok_def)
  obtain b where V: "conn_view w p = Some (DISCONNECTED, b)" using w(3) by (auto simp: conn_down_def)
  then obtain c where c: "cx_conns w p = Some c" using view_downD by blast
  have e: "entry s p (cn_name c)" using w c by (auto simp: entry_def conn_names_def)
  then have m: "sv_connections s (cn_name c) = Some p" using loops_invD(2)[OF li] by blast
  let ?w = "w\<lparr>cx_refs := cx_refs w - {p}\<rparr>"
  let ?v = "queueInLoop False (FnDestroy p) ?w"
  let ?t = "s\<lparr>sv_connections := (sv_connections s)(cn_name c := None), ms_loops := (ms_loops s)(?l \<mapsto> ?v)\<rparr>"
  have "?l \<noteq> po_mainLoop (ms_pool s)" using bi w(1) by (auto simp: base_inv_def)
  then have eq: "TcpServer_removeInLoop True p s = Inr ?t"
    using w(1) c m by (simp add: TcpServer_removeInLoop_def assertInLoopThread_def pool_erase_def on_loop_def)
  have v: "sys_inv [] ?v" "conn_view ?v = conn_view w"
    using owner_erase_ok[OF wi V, of False] by (simp_all add: owner_erase_def)
  have names: "conn_names ?v = conn_names w" "conn_names ?w = conn_names w" by (rule conn_names_cong, simp)+
  have posted: "io_posted ?v = []" using ok by (simp add: loop_ok_def queueInLoop_def queue_push_def wakeup_def sys_call_def)
  have down: "conn_down ?v = conn_down w" by (rule conn_down_cong[OF v(2)])
  have refs: "cx_refs ?v = cx_refs w - {p}" by simp
  have "loop_ok (ms_home s) ?l ?v" using ok v(1) posted unfolding loop_ok_def names by simp
  then have loops: "loop_ok (ms_home s) l u" if "ms_loops ?t l = Some u" for l u
    using that loops_invD(1)[OF li] by (auto split: if_splits)
  have entries: "entry ?t q n \<longleftrightarrow> q \<noteq> p \<and> entry s q n" for q n
    using w(1) by (auto simp: entry_def names)
  have "(sv_connections ?t n = Some q) = entry ?t q n" for n q
  proof -
    have "entry s q n \<Longrightarrow> q \<noteq> p \<Longrightarrow> n \<noteq> cn_name c" using loops_invD(2)[OF li, of n q] m by auto
    moreover have "entry s p n \<Longrightarrow> n = cn_name c" using e by (auto simp: entry_def)
    ultimately show ?thesis unfolding entries using loops_invD(2)[OF li, of n q] by auto
  qed
  moreover have "leaving ?t q" if q: "q \<in> set ps" for q
  proof -
    have "q \<noteq> p" using loops_invD(3)[OF li] q by auto
    then show ?thesis using loops_invD(4)[OF li, of q] q w(1) by (auto simp: leaving_def down)
  qed
  ultimately have "loops_inv ps ?t" using loops loops_invD(3)[OF li] unfolding loops_inv_def by simp
  moreover have "rx_inv ?t" by (rule rx_inv_cong[of s]) (use bi in \<open>simp_all add: base_inv_def\<close>)
  then have "base_inv ?t" by (rule base_inv_cong[OF bi]) (use w(1) in auto)
  moreover have "gone ?t p" "\<forall>q. gone s q \<longrightarrow> gone ?t q" using w(1) by (auto simp: gone_def)
  ultimately show ?thesis using eq by (simp add: pool_state_def)
qed

lemma on_loop_eq: "ms_loops s l = Some w \<Longrightarrow>
  on_loop l f s = bindr (f w) (\<lambda>w1. Inr (s\<lparr>ms_loops := (ms_loops s)(l \<mapsto> w1)\<rparr>))"
  by (simp add: on_loop_def)

text \<open>While names do not collide, a connection is opened in its loop as ConnSystem says.\<close>

lemma pool_accept_eq:
  assumes "getNextLoop (ms_pool s) = Inr (l, pl)" and "l \<noteq> po_mainLoop pl" and w: "ms_loops s l = Some w"
    and free: "sv_connections s (connection_name net (sv_name s) peer) = None"
  shows "TcpServer_newConnection E IE net True p fd peer s =
    bindr (conn_open IE False p (connection_name net (sv_name s) peer) fd (sv_connectionCb s) (sv_messageCb s)
        (sv_writeCompleteCb s) w)
      (\<lambda>w1. Inr (s\<lparr>ms_pool := pl, ms_home := (ms_home s)(p := l), ms_loops := (ms_loops s)(l \<mapsto> w1),
        sv_connections := (sv_connections s)(connection_name net (sv_name s) peer \<mapsto> p)\<rparr>))"
proof (cases "TcpConnection_new p (connection_name net (sv_name s) peer) fd w")
  case (Inl e)
  then show ?thesis using assms by (simp add: TcpServer_newConnection_def assertInLoopThread_def on_loop_def conn_open_def)
next
  case (Inr w1)
  then obtain c where "cx_conns w1 p = Some c"
    by (auto simp: TcpConnection_new_def bindr_eq_Inr)
  then show ?thesis
    using assms Inr
    by (simp add: TcpServer_newConnection_def assertInLoopThread_def on_loop_def conn_open_def pool_put_def
        set_callbacks_def runInLoop_def)
qed

lemma getNextLoop_keeps:
  assumes "getNextLoop pl = Inr (l, p1)"
  shows "po_loops p1 = po_loops pl" and "po_mainLoop p1 = po_mainLoop pl" and "po_loops pl \<noteq> [] \<Longrightarrow> l \<in> set (po_loops pl)"
  using assms by (auto simp: getNextLoop_def check_def nat_less_iff split: if_splits)

lemma pool_accept_ok:
  assumes inv: "pool_state ps s" and name: "sv_connections s (connection_name net (sv_name s) peer) = None"
    and new: "\<forall>l w. ms_loops s l = Some w \<longrightarrow> cx_conns w p = None \<and> rx_chans w p = None \<and> unused fd w"
    and app: "app_ok IE"
  shows "ok_res (\<lambda>t. pool_state ps t \<and> el_pending t = el_pending s \<and> rx_chans t = rx_chans s)
    (TcpServer_newConnection E IE net True p fd peer s)"
proof -
  have li: "loops_inv ps s" and bi: "base_inv s" using inv by (simp_all add: pool_state_def)
  let ?n = "connection_name net (sv_name s) peer"
  have pool: "pool_inv (ms_pool s)" "po_loops (ms_pool s) \<noteq> []" "ms_loops s (po_mainLoop (ms_pool s)) = None"
    "\<forall>l \<in> set (po_loops (ms_pool s)). ms_loops s l \<noteq> None" using bi by (simp_all add: base_inv_def)
  obtain l pl where nx: "getNextLoop (ms_pool s) = Inr (l, pl)" "pool_inv pl"
    using getNextLoop_eq[OF pool(1)] by blast
  note keep = getNextLoop_keeps[OF nx(1)]
  obtain w where w: "ms_loops s l = Some w" using pool(4) keep(3)[OF pool(2)] by blast
  have main: "l \<noteq> po_mainLoop pl" using w pool(3) keep(2) by auto
  have ok: "loop_ok (ms_home s) l w" by (rule loops_invD(1)[OF li w])
  then have wi: "sys_inv [] w" by (simp add: loop_ok_def)
  have f: "cx_conns w p = None" "rx_chans w p = None" "\<forall>q ch. rx_chans w q = Some ch \<longrightarrow> ch_fd ch \<noteq> fd"
    using new w by (simp_all add: unused_def)
  show ?thesis
    unfolding pool_accept_eq[OF nx(1) main w name]
  proof (rule ok_res_bindr[OF conn_open_ok[OF wi f app]])
    fix v :: ioloop
    assume v: "sys_inv [] v \<and> conn_opened p ?n fd w v"
    then have "wloop.more v = wloop.more w" and o': "cx_refs v = insert p (cx_refs w)" "conn_names v = (conn_names w)(p \<mapsto> ?n)"
      "\<And>q. conn_down w q \<Longrightarrow> conn_down v q"
      by (simp_all add: conn_opened_def)
    note o = o' io_more[OF this(1)]
    let ?t = "s\<lparr>ms_pool := pl, ms_home := (ms_home s)(p := l), ms_loops := (ms_loops s)(l \<mapsto> v),
        sv_connections := (sv_connections s)(?n \<mapsto> p)\<rparr>"
    have absent: "conn_names u p = None" if "ms_loops s k = Some u" for k u
      using new that by (auto simp: conn_names_def)
    have elsewhere: "\<not> entry s p n" for n using absent by (auto simp: entry_def)
    have loops: "loop_ok (ms_home ?t) k u" if "ms_loops ?t k = Some u" for k u
    proof (cases "k = l")
      case True
      then show ?thesis using that ok v o by (auto simp: loop_ok_def)
    next
      case False
      then have u: "ms_loops s k = Some u" using that by simp
      from loops_invD(1)[OF li u] absent[OF u] show ?thesis by (auto simp: loop_ok_def)
    qed
    have entries: "entry ?t q n \<longleftrightarrow> (if q = p then n = ?n else entry s q n)" for q n
      using w o by (auto simp: entry_def)
    have "(sv_connections ?t n = Some q) = entry ?t q n" for n q
      unfolding entries using loops_invD(2)[OF li, of n q] loops_invD(2)[OF li, of n p] elsewhere name
        loops_invD(2)[OF li, of ?n q] by auto
    moreover have "leaving ?t q" if q: "q \<in> set ps" for q
    proof -
      obtain u where u: "ms_loops s (ms_home s q) = Some u" "q \<in> cx_refs u" "conn_down u q"
        using loops_invD(4)[OF li q] by (auto simp: leaving_def)
      have "q \<noteq> p" using u(3) new u(1) by (auto simp: conn_down_def conn_view_def)
      then show ?thesis using u w o by (auto simp: leaving_def)
    qed
    ultimately have "loops_inv ps ?t" using loops loops_invD(3)[OF li] unfolding loops_inv_def by blast
    moreover have "rx_inv ?t" by (rule rx_inv_cong[of s]) (use bi in \<open>simp_all add: base_inv_def\<close>)
    moreover have "chan_keys ?t = chan_keys s" by (rule chan_keys_cong) simp
    ultimately have "pool_state ps ?t"
      using bi nx(2) keep w pool main unfolding pool_state_def base_inv_def by auto
    then show "ok_res (\<lambda>t. pool_state ps t \<and> el_pending t = el_pending s \<and> rx_chans t = rx_chans s) (Inr ?t)" by simp
  qed
qed

section \<open>Rounds of the server's loop\<close>

lemma base_sys_inv:
  assumes "base_inv s" and "el_pending s = map FnRemoveConnection ps"
  shows "sys_inv [] s"
proof -
  have "raw_ok {} (map FnRemoveConnection ps)" by (induction ps) simp_all
  moreover have "distinct (concat (map (\<lambda>p. []) ps))" by (induction ps) simp_all
  ultimately show ?thesis
    using assms by (simp add: sys_inv_def conns_inv_def life_def conn_view_def base_inv_def comp_def)
qed

text \<open>A step of the server's loop that leaves its channels, its queue, the loops and the map alone.\<close>

lemma pool_quiet:
  assumes inv: "pool_state ps s" and rx: "rx_inv t" and ch: "rx_chans t = rx_chans s"
    and eqs: "cx_conns t = cx_conns s" "cx_refs t = cx_refs s" "ms_pool t = ms_pool s" "ms_loops t = ms_loops s"
      "ms_home t = ms_home s" "sv_connections t = sv_connections s"
    and idle: "unused (sv_idleFd t) s"
  shows "pool_state ps t"
proof -
  have bi: "base_inv s" and li: "loops_inv ps s" using inv by (simp_all add: pool_state_def)
  have keys: "chan_keys t = chan_keys s" by (rule chan_keys_cong[OF ch])
  have "listener_key k \<and> fst k \<noteq> sv_idleFd t" if k: "chan_keys s p = Some k" for p k
  proof -
    from k obtain c where "rx_chans s p = Some c" "fst k = ch_fd c" by (auto simp: chan_keys_def chan_key_def)
    with idle have "fst k \<noteq> sv_idleFd t" by (simp add: unused_def)
    with bi k show ?thesis unfolding base_inv_def by blast
  qed
  then have "base_inv t" using bi rx unfolding base_inv_def eqs keys by blast
  moreover have "loops_inv ps t" by (rule loops_inv_cong[OF li eqs(4-6)])
  ultimately show ?thesis by (simp add: pool_state_def)
qed

lemma pool_idle:
  assumes "base_inv s"
  shows "unused (sv_idleFd s) s"
  unfolding unused_def
proof (intro allI impI)
  fix q ch
  assume "rx_chans s q = Some ch"
  then have "chan_keys s q = Some (chan_key ch)" by (simp add: chan_keys_def)
  with assms have "fst (chan_key ch) \<noteq> sv_idleFd s" unfolding base_inv_def by blast
  then show "ch_fd ch \<noteq> sv_idleFd s" by (simp add: chan_key_def)
qed

lemma pool_handleRead_ok:
  assumes inv: "pool_state ps s" and fresh: "pool_fresh net s (p, A, addr)" and app: "app_ok IE"
  shows "ok_res (\<lambda>t. pool_state ps t \<and> el_pending t = el_pending s \<and> rx_chans t = rx_chans s)
    (Acceptor_handleRead (Some (TcpServer_newConnection E IE net True p)) A addr s)"
proof -
  let ?s1 = "sys_call (SysAccept (sv_listenFd s)) s"
  obtain fd peer where sa: "Socket_accept (sv_listenFd s) (ac_outcome A) addr s = (fd, peer, ?s1)"
    by (rule accept_outcome)
  have bi: "base_inv s" using inv by (simp add: pool_state_def)
  then have rx: "rx_inv s" by (simp add: base_inv_def)
  have idle: "unused (sv_idleFd s) s" by (rule pool_idle[OF bi])
  show ?thesis
  proof (cases "0 \<le> fd")
    case True
    then have f: "sv_connections ?s1 (connection_name net (sv_name ?s1) peer) = None"
      "\<forall>l w. ms_loops ?s1 l = Some w \<longrightarrow> cx_conns w p = None \<and> rx_chans w p = None \<and> unused fd w"
      using fresh sa by (simp_all add: loops_fresh_def new_peer_def sys_call_def)
    have "rx_inv ?s1" using rx by (rule rx_inv_sys_call) simp_all
    then have q1: "pool_state ps ?s1" by (rule pool_quiet[OF inv]) (use idle in \<open>simp_all add: sys_call_def\<close>)
    show ?thesis
      using pool_accept_ok[OF q1 f app, of E] sa True by (simp add: Acceptor_handleRead_def)
  next
    case False
    then have full: "ac_errno A = EMFILE \<longrightarrow> unused (ac_again A) s \<and> unused (ac_open A) s"
      using fresh sa by (simp add: loops_fresh_def new_peer_def)
    have neg: "fd < 0" using False by simp
    obtain t where t: "Acceptor_handleRead (Some (TcpServer_newConnection E IE net True p)) A addr s = Inr t" "rx_inv t"
      and upd: "t = s\<lparr>rx_trace := rx_trace t, sv_idleFd := sv_idleFd t\<rparr>" and un: "unused (sv_idleFd t) s"
      by (rule turn_away_ok[OF sa neg rx idle full])
    have "pool_state ps t"
      by (rule pool_quiet[OF inv t(2) _ _ _ _ _ _ _ un]) (subst upd, simp)+
    moreover have "el_pending t = el_pending s" "rx_chans t = rx_chans s" by (subst upd, simp)+
    ultimately show ?thesis using t(1) by simp
  qed
qed

lemma pool_event_ok:
  assumes inv: "pool_state ps s" and ch: "rx_chans s q \<noteq> None"
    and fresh: "\<forall>s. pool_fresh net s (acc s)" and app: "app_ok IE"
  shows "ok_res (\<lambda>t. pool_state ps t \<and> el_pending t = el_pending s \<and> rx_chans t = rx_chans s)
    (Channel_handleEvents (server_callback (TcpServer_newConnection E IE net True) E acc rd wr now) q s)"
    (is "ok_res ?Q (Channel_handleEvents ?run q s)")
proof -
  obtain c where c: "rx_chans s q = Some c" using ch by blast
  have bi: "base_inv s" using inv by (simp add: pool_state_def)
  have "chan_keys s q = Some (chan_key c)" using c by (simp add: chan_keys_def)
  then have "listener_key (chan_key c)" using bi unfolding base_inv_def by blast
  then have cbs: "ch_readCb c \<in> {Some CbAcceptorRead, Some CbWakeupRead, Some CbTimerRead}"
    "ch_writeCb c = None" "ch_errorCb c = None" "ch_closeCb c = None" by (simp_all add: chan_key_def)
  have "rx_inv s" using bi by (simp add: base_inv_def)
  then have "rx_inv (wakeupReadCallback s)" unfolding wakeupReadCallback_def by (rule rx_inv_sys_call) simp_all
  then have "pool_state ps (wakeupReadCallback s)"
    by (rule pool_quiet[OF inv]) (use pool_idle[OF bi] in \<open>simp_all add: wakeupReadCallback_def sys_call_def\<close>)
  then have wake: "?Q (wakeupReadCallback s)" by (simp add: wakeupReadCallback_def)
  obtain p A addr where a: "acc s = (p, A, addr)" by (cases "acc s") auto
  have "pool_fresh net s (p, A, addr)" using fresh a by metis
  from pool_handleRead_ok[OF inv this app, of E] have acc: "ok_res ?Q (?run CbAcceptorRead s)"
    by (simp add: server_callback_def a)
  have rd: "ok_res ?Q (handle_if wants_read ch_readCb ?run q s)"
    using c cbs acc wake inv by (auto simp: handle_if_def call_cb_def server_callback_def conn_callback_def)
  have pass: "handle_if wants_write ch_writeCb ?run q s = Inr s" "handle_if wants_error ch_errorCb ?run q s = Inr s"
    using c cbs by (simp_all add: handle_if_def call_cb_def)
  show ?thesis
    unfolding Channel_handleEvents_def pass bindr_simps
  proof (rule ok_res_bindr[OF rd])
    fix t assume t: "?Q t"
    then have "handle_if wants_close ch_closeCb ?run q t = Inr t" using c cbs by (simp add: handle_if_def call_cb_def)
    then show "ok_res ?Q (handle_if wants_close ch_closeCb ?run q t)" using t by simp
  qed
qed

lemma pool_pending_ok:
  assumes "pool_state ps s" and "el_pending s = map FnRemoveConnection ps"
  shows "\<exists>t. doPendingFunctions (server_exec (TcpServer_removeInLoop True) E user) s = Inr t \<and> pool_state [] t \<and> el_pending t = [] \<and>
    (\<forall>p \<in> set ps. gone t p)"
proof -
  have frame: "pool_state qs (s\<lparr>el_calling := b, el_pending := fs\<rparr>)" if inv: "pool_state qs s" for qs b fs and s :: mserver
  proof -
    have bi: "base_inv s" using inv by (simp add: pool_state_def)
    have "rx_inv (s\<lparr>el_calling := b, el_pending := fs\<rparr>)"
      by (rule rx_inv_cong[of s]) (use bi in \<open>simp_all add: base_inv_def\<close>)
    then show ?thesis by (rule pool_quiet[OF inv]) (use pool_idle[OF bi] in simp_all)
  qed
  have "\<exists>t. fold_res (server_exec (TcpServer_removeInLoop True) E user) (map FnRemoveConnection ps) u = Inr t \<and>
      pool_state [] t \<and> el_pending t = [] \<and> (\<forall>q. q \<in> set ps \<or> gone u q \<longrightarrow> gone t q)"
    if "pool_state ps u" "el_pending u = []" for u
    using that
  proof (induction ps arbitrary: u)
    case (Cons p ps)
    obtain v where v: "TcpServer_removeInLoop True p u = Inr v" "pool_state ps v" "el_pending v = []" "gone v p"
        "\<forall>q. gone u q \<longrightarrow> gone v q"
      using pool_remove_ok[OF Cons.prems(1)] Cons.prems(2) by auto
    obtain t where "fold_res (server_exec (TcpServer_removeInLoop True) E user) (map FnRemoveConnection ps) v = Inr t"
        "pool_state [] t" "el_pending t = []" "\<forall>q. q \<in> set ps \<or> gone v q \<longrightarrow> gone t q"
      using Cons.IH[OF v(2,3)] by (elim exE conjE)
    moreover have "server_exec (TcpServer_removeInLoop True) E user (FnRemoveConnection p) u = Inr v"
      using v(1) by (simp add: server_exec_def)
    ultimately show ?case using v(4,5) by auto
  qed simp
  from this[OF frame[OF assms(1), where b = True and fs = "[]"]]
  obtain t where t: "fold_res (server_exec (TcpServer_removeInLoop True) E user) (map FnRemoveConnection ps)
      (s\<lparr>el_calling := True, el_pending := []\<rparr>) = Inr t" "pool_state [] t" "el_pending t = []"
      "\<forall>q. q \<in> set ps \<longrightarrow> gone t q" by auto
  have "t\<lparr>el_calling := False\<rparr> = t\<lparr>el_calling := False, el_pending := []\<rparr>" using t(3) by (cases t) simp
  then have "pool_state [] (t\<lparr>el_calling := False\<rparr>)" using frame[OF t(2), where b = False and fs = "[]"] by simp
  then show ?thesis using t doPending_eq[OF assms(2)] by (simp add: gone_def)
qed

lemma pool_round_ok:
  assumes inv: "pool_state ps s" and pend: "el_pending s = map FnRemoveConnection ps" and del: "deliverable s evs"
    and fresh: "\<forall>s. pool_fresh net s (acc s)" and app: "app_ok IE"
  shows "ok_res (\<lambda>t. pool_state [] t \<and> el_pending t = [] \<and> (\<forall>p \<in> set ps. gone t p))
    (loop_round (server_callback (TcpServer_newConnection E IE net True) E acc rd wr)
      (server_exec (TcpServer_removeInLoop True) E user) (Some evs, now) s)"
proof -
  have bi: "base_inv s" using inv by (simp add: pool_state_def)
  obtain t where t: "Epoll_select (Some evs) s = Inr (t, map fst evs)" and it: "sys_inv [] t"
    and ext: "conn_ext s t" and conns: "cx_conns t = cx_conns s" "el_pending t = el_pending s"
    and ret: "\<forall>(p, e) \<in> set evs. returned t p = Some e"
    by (rule select_ok[OF base_sys_inv[OF bi pend] del]) (rule that, assumption+)
  have e: "wloop.more t = wloop.more s" "chan_keys t = chan_keys s" "cx_refs t = cx_refs s" using ext by (simp_all add: conn_ext_def)
  have f: "sv_connections t = sv_connections s" "sv_idleFd t = sv_idleFd s" "ms_pool t = ms_pool s" "ms_loops t = ms_loops s"
    "ms_home t = ms_home s" using e(1) by (cases s; cases t; simp)+
  have "rx_inv t" using it by simp
  then have "base_inv t" using bi unfolding base_inv_def e f conns by blast
  moreover have "loops_inv ps t"
    by (rule loops_inv_cong[of ps s]) (use inv f in \<open>simp_all add: pool_state_def\<close>)
  ultimately have pt: "pool_state ps t" by (simp add: pool_state_def)
  have chans: "rx_chans t q \<noteq> None" if "q \<in> set (map fst evs)" for q
    using that ret by (auto simp: returned_def)
  let ?J = "\<lambda>u. pool_state ps u \<and> el_pending u = el_pending s \<and> rx_chans u = rx_chans t"
  have "ok_res ?J (fold_res (Channel_handleEvents (server_callback (TcpServer_newConnection E IE net True) E acc rd wr now)) (map fst evs) t)"
  proof (rule ok_res_fold)
    fix q u
    assume q: "q \<in> set (map fst evs)" and u: "?J u"
    then have c: "rx_chans u q \<noteq> None" using chans by simp
    show "ok_res ?J (Channel_handleEvents (server_callback (TcpServer_newConnection E IE net True) E acc rd wr now) q u)"
      by (rule ok_res_mono[OF pool_event_ok[OF _ c fresh app, of ps]]) (use u in auto)
  qed (use pt conns in simp)
  then have "ok_res (\<lambda>t. pool_state [] t \<and> el_pending t = [] \<and> (\<forall>p \<in> set ps. gone t p))
      (bindr (fold_res (Channel_handleEvents (server_callback (TcpServer_newConnection E IE net True) E acc rd wr now)) (map fst evs) t)
        (doPendingFunctions (server_exec (TcpServer_removeInLoop True) E user)))"
  proof (rule ok_res_bindr)
    fix u assume "?J u"
    then have "pool_state ps u" "el_pending u = map FnRemoveConnection ps" using pend by simp_all
    from pool_pending_ok[OF this, of E user]
    show "ok_res (\<lambda>t. pool_state [] t \<and> el_pending t = [] \<and> (\<forall>p \<in> set ps. gone t p)) (doPendingFunctions (server_exec (TcpServer_removeInLoop True) E user) u)"
      by auto
  qed
  then show ?thesis using t by (simp add: loop_round_def)
qed

lemma run_pool_op_ok:
  assumes inv: "pool_state ps s" and pend: "el_pending s = map FnRemoveConnection ps" and ok: "pool_op_ok net s oper"
  shows "ok_res (\<lambda>t. \<exists>qs. pool_state qs t \<and> el_pending t = map FnRemoveConnection qs)
    (run_pool_op E (io_application wr onwritten app) net user io_user oper s)"
proof (cases oper)
  case (PoRound evs now rd wr' acc)
  then have a: "deliverable s evs" "\<forall>s. pool_fresh net s (acc s)" using ok by simp_all
  show ?thesis unfolding PoRound run_pool_op_def pool_op.case
    by (rule ok_res_mono[OF pool_round_ok[OF inv pend a ios.app]]) (intro exI[of _ "[]"], simp)
next
  case (PoLoop l cop)
  then obtain w where "ms_loops s l = Some w" "io_op_ok (el_pending s) w cop" using ok by auto
  from pool_loop_ok[OF inv pend this refl, of wr onwritten app io_user]
  show ?thesis unfolding PoLoop run_pool_op_def pool_op.case .
qed

section \<open>The system\<close>

text \<open>A server with \<open>n\<close> loop threads is built and started in its own thread; the threads' loops are fresh.\<close>

definition fresh_loop :: "ioloop \<Rightarrow> bool" where
  "fresh_loop w \<longleftrightarrow> rx_inv w \<and> cx_conns w = Map.empty \<and> cx_refs w = {} \<and> el_pending w = [] \<and> io_posted w = []"

definition pool_boot :: "int \<Rightarrow> ptr \<Rightarrow> int \<Rightarrow> ptr \<Rightarrow> int \<Rightarrow> ptr \<Rightarrow> int \<Rightarrow> sockaddr \<Rightarrow> string \<Rightarrow> ptr \<Rightarrow> int \<Rightarrow> (int \<Rightarrow> ptr) \<Rightarrow>
    (ptr \<Rightarrow> ioloop) \<Rightarrow> bool \<Rightarrow> bool \<Rightarrow> bool \<Rightarrow> mserver result" where
  "pool_boot timerfd tchan wakeupfd wchan listenFd p idleFd addr name mainLoop n start_loop fresh ccb mcb wcb =
     bindr (EventLoop_new False timerfd tchan wakeupfd wchan (raw_loop Map.empty 0))
      (\<lambda>l. bindr (TcpServer_pool_new listenFd p idleFd addr name mainLoop n
                  (tloop.extend l \<lparr>cx_conns = Map.empty, cx_refs = {}, cx_log = []\<rparr>))
        (\<lambda>s. TcpServer_pool_start start_loop fresh True (set_server_callbacks ccb mcb wcb s)))"

definition pool_started :: "mserver \<Rightarrow> bool" where
  "pool_started s \<longleftrightarrow> (\<exists>timerfd tchan wakeupfd wchan listenFd p idleFd addr name mainLoop n start_loop fresh ccb mcb wcb.
     distinct [timerfd, wakeupfd, listenFd, idleFd] \<and> distinct [tchan, wchan, p] \<and>
     0 < n \<and> n \<le> 2147483647 \<and> (\<forall>i. start_loop i \<noteq> mainLoop) \<and> (\<forall>l. fresh_loop (fresh l)) \<and>
     pool_boot timerfd tchan wakeupfd wchan listenFd p idleFd addr name mainLoop n start_loop fresh ccb mcb wcb = Inr s)"

lemma pool_startedI:
  "pool_boot timerfd tchan wakeupfd wchan listenFd p idleFd addr name mainLoop n start_loop fresh ccb mcb wcb = Inr s \<Longrightarrow>
   distinct [timerfd, wakeupfd, listenFd, idleFd] \<Longrightarrow> distinct [tchan, wchan, p] \<Longrightarrow>
   0 < n \<Longrightarrow> n \<le> 2147483647 \<Longrightarrow> (\<forall>i. start_loop i \<noteq> mainLoop) \<Longrightarrow> (\<forall>l. fresh_loop (fresh l)) \<Longrightarrow> pool_started s"
  unfolding pool_started_def by blast

inductive pool_step :: "mserver conn_env \<Rightarrow> ioloop conn_env \<Rightarrow> inet \<Rightarrow> (task \<Rightarrow> mserver \<Rightarrow> conn_call list) \<Rightarrow>
    (task \<Rightarrow> ioloop \<Rightarrow> conn_call list) \<Rightarrow> mserver \<Rightarrow> mserver \<Rightarrow> bool"
  for E IE net user io_user where
  "pool_op_ok net s oper \<Longrightarrow> run_pool_op E IE net user io_user oper s = Inr t \<Longrightarrow> pool_step E IE net user io_user s t"

inductive_cases pool_stepE: "pool_step E IE net user io_user s t"

lemma pool_boot_eq:
  assumes d: "distinct [timerfd, wakeupfd, listenFd, idleFd]" "distinct [tchan, wchan, p]" and idle: "0 \<le> idleFd"
    and n: "0 < n" "n \<le> 2147483647" and far: "\<forall>i. start_loop i \<noteq> mainLoop" and fresh: "\<forall>l. fresh_loop (fresh l)"
  shows "\<exists>s. pool_boot timerfd tchan wakeupfd wchan listenFd p idleFd addr name mainLoop n start_loop fresh ccb mcb wcb = Inr s \<and>
    pool_state [] s \<and> el_pending s = [] \<and> sv_connections s = Map.empty \<and> sv_name s = name \<and> sv_listenFd s = listenFd \<and>
    sv_connectionCb s = ccb \<and> interest (rx_trace s) listenFd = Some (kReadEvent, p) \<and> rx_eventsSize s = InitEventVectorSize \<and>
    rx_chans s = (rx_chans (built_loop timerfd tchan wakeupfd wchan 0))
      (p \<mapsto> (listen_channel listenFd)\<lparr>ch_requested := kReadEvent, ch_state := ADDED\<rparr>) \<and>
    ms_pool s = EventLoopThreadPool_start start_loop (EventLoopThreadPool_new mainLoop n) \<and>
    ms_loops s = (\<lambda>l. if l \<in> set (po_loops (ms_pool s)) then Some (fresh l) else None)"
proof -
  let ?l = "built_loop timerfd tchan wakeupfd wchan 0"
  let ?f = "\<lparr>sv_listenFd = -1, sv_listenChannel = 0, sv_idleFd = -1, sv_name = name, sv_connections = Map.empty,
        sv_connectionCb = False, sv_messageCb = False, sv_writeCompleteCb = False\<rparr>"
  let ?new = "EventLoopThreadPool_new mainLoop n"
  let ?pool = "EventLoopThreadPool_start start_loop ?new"
  let ?g = "\<lparr>ms_pool = ?new, ms_loops = Map.empty, ms_home = (\<lambda>_. mainLoop)\<rparr>"
  let ?w = "sloop.extend (wloop.extend (base_loop timerfd tchan wakeupfd wchan) ?f) ?g :: mserver"
  have ne: "timerfd \<noteq> wakeupfd" "tchan \<noteq> wchan" "p \<noteq> tchan" "p \<noteq> wchan" "listenFd \<noteq> timerfd" "listenFd \<noteq> wakeupfd"
    "idleFd \<noteq> timerfd" "idleFd \<noteq> wakeupfd" "idleFd \<noteq> listenFd" using d by auto
  note base = base_loop_ok[OF ne(1,2)]
  have chw: "rx_chans ?w = rx_chans ?l" by (simp add: sloop.defs tloop.defs wloop.defs)
  have rxw: "rx_inv ?w" by (rule rx_inv_cong[OF base(1)]) (simp_all add: sloop.defs tloop.defs wloop.defs)
  have free: "rx_chans ?w p = None" unfolding chw using ne by (simp add: built_loop_def)
  have un: "unused listenFd ?w" by (rule built_loop_unused[OF ne(5,6) chw])
  obtain a where a: "Acceptor_new listenFd p idleFd addr ?w = Inr a" "rx_inv a"
      "rx_chans a = (rx_chans ?w)(p \<mapsto> listen_channel listenFd)"
    and au: "a = ?w\<lparr>rx_chans := rx_chans a, rx_trace := rx_trace a, sv_listenFd := listenFd, sv_listenChannel := p, sv_idleFd := idleFd\<rparr>"
    by (rule Acceptor_new_ok[OF rxw free un idle])
  let ?b = "start_pool start_loop fresh (set_server_callbacks ccb mcb wcb a)"
  have b: "rx_inv ?b" by (rule rx_inv_cong[OF a(2)]) (simp_all add: set_server_callbacks_def start_pool_def)
  have bch: "rx_chans ?b = rx_chans a" by (simp add: set_server_callbacks_def start_pool_def)
  note fields = set_server_callbacks_def start_pool_def sloop.defs wloop.defs tloop.defs built_loop_def raw_loop_def
  have bf: "sv_listenChannel ?b = p" "sv_listenFd ?b = listenFd" "\<not> el_looping ?b" "\<not> el_running ?b"
    by (subst au, simp add: fields)+
  have bc: "rx_chans ?b (sv_listenChannel ?b) = Some (listen_channel (sv_listenFd ?b))"
    unfolding bf bch using a(3) by simp
  obtain s where s: "TcpServer_start True ?b = Inr s" "rx_inv s"
      "rx_chans s = (rx_chans ?b)(sv_listenChannel ?b \<mapsto>
        (listen_channel (sv_listenFd ?b))\<lparr>ch_requested := kReadEvent, ch_state := ADDED\<rparr>)"
      "interest (rx_trace s) (sv_listenFd ?b) = Some (kReadEvent, sv_listenChannel ?b)"
    and su: "s = ?b\<lparr>rx_chans := rx_chans s, rx_channelMap := rx_channelMap s, rx_trace := rx_trace s, el_looping := True, el_running := True\<rparr>"
    by (rule TcpServer_start_ok[OF b bc bf(3,4)])
  have boot: "pool_boot timerfd tchan wakeupfd wchan listenFd p idleFd addr name mainLoop n start_loop fresh ccb mcb wcb = Inr s"
    using s(1) a(1) by (simp add: pool_boot_def EventLoop_new_eq[OF ne(1,2)] TcpServer_pool_new_def TcpServer_pool_start_def)
  have f: "cx_conns s = Map.empty" "cx_refs s = {}" "el_pending s = []" "sv_connections s = Map.empty" "sv_name s = name"
    "sv_listenFd s = listenFd" "sv_idleFd s = idleFd" "sv_connectionCb s = ccb" "rx_eventsSize s = InitEventVectorSize"
    "ms_pool s = ?pool" "ms_loops s = (\<lambda>l. if l \<in> set (po_loops ?pool) then Some (fresh l) else None)"
    by (subst su, subst au, simp add: fields cong: if_cong)+
  have chans: "rx_chans s = (rx_chans ?l)(p \<mapsto> (listen_channel listenFd)\<lparr>ch_requested := kReadEvent, ch_state := ADDED\<rparr>)"
    unfolding s(3) bf bch using a(3) unfolding chw by simp
  have "listener_key k \<and> fst k \<noteq> idleFd" if k: "chan_keys s q = Some k" for q k
  proof (cases "q = p")
    case True
    then show ?thesis using k ne unfolding chan_keys_def chans by (auto simp: chan_key_def Channel_make_def)
  next
    case False
    then have "map_option chan_key (rx_chans ?l q) = Some k" using k unfolding chan_keys_def chans by simp
    from base(4)[OF this] ne show ?thesis by auto
  qed
  moreover have "po_loops ?pool = map start_loop [0 .. n - 1]" "po_mainLoop ?pool = mainLoop" "po_nextLoopIndex ?pool = 0"
    by (simp_all add: pool_start_eq EventLoopThreadPool_new_def)
  ultimately have "base_inv s" using s(2) n far unfolding base_inv_def f by (auto simp: pool_inv_def)
  moreover have "loops_inv [] s"
    using fresh unfolding loops_inv_def entry_def f
    by (auto simp: loop_ok_def fresh_loop_def sys_inv_def conns_inv_def life_def conn_view_def conn_names_def)
  ultimately have ps: "pool_state [] s" by (simp add: pool_state_def)
  have ml: "ms_loops s = (\<lambda>l. if l \<in> set (po_loops (ms_pool s)) then Some (fresh l) else None)" by (simp only: f)
  show ?thesis
    using boot ps f(3-6,8-10) ml s(4) chans unfolding bf by (intro exI[of _ s] conjI) assumption+
qed

lemma pool_started_ok:
  assumes "pool_started s"
  shows "pool_state [] s \<and> el_pending s = []"
proof -
  obtain timerfd tchan wakeupfd wchan listenFd p idleFd addr name mainLoop n start_loop fresh ccb mcb wcb where
    d: "distinct [timerfd, wakeupfd, listenFd, idleFd]" "distinct [tchan, wchan, p]" and
    n: "0 < n" "n \<le> 2147483647" "\<forall>i. start_loop i \<noteq> mainLoop" "\<forall>l. fresh_loop (fresh l)" and
    b: "pool_boot timerfd tchan wakeupfd wchan listenFd p idleFd addr name mainLoop n start_loop fresh ccb mcb wcb = Inr s"
    using assms unfolding pool_started_def by (elim exE conjE) (rule that, assumption+)
  have "0 \<le> idleFd"
    using b d by (auto simp: pool_boot_def EventLoop_new_eq bindr_eq_Inr TcpServer_pool_new_def Acceptor_new_def
        SocketUtil_createNonblockSocket_def SocketUtil_createSocket_def)
  from pool_boot_eq[OF d this n, of addr name ccb mcb wcb] b show ?thesis by (elim exE conjE) simp
qed

interpretation pool_system: invariant_system pool_started "pool_step E (io_application wr onwritten app) net user io_user"
  "\<lambda>s. \<exists>ps. pool_state ps s \<and> el_pending s = map FnRemoveConnection ps"
proof
  show "pool_started s \<Longrightarrow> \<exists>ps. pool_state ps s \<and> el_pending s = map FnRemoveConnection ps" for s
    using pool_started_ok[of s] by (intro exI[of _ "[]"]) simp
  fix s t
  assume step: "pool_step E (io_application wr onwritten app) net user io_user s t"
    and inv: "\<exists>ps. pool_state ps s \<and> el_pending s = map FnRemoveConnection ps"
  from step obtain oper where oper: "pool_op_ok net s oper" "run_pool_op E (io_application wr onwritten app) net user io_user oper s = Inr t"
    by (elim pool_stepE)
  from inv obtain ps where "pool_state ps s" "el_pending s = map FnRemoveConnection ps" by (elim exE conjE)
  from ok_resD[OF run_pool_op_ok[OF this oper(1)] oper(2)]
  show "\<exists>ps. pool_state ps t \<and> el_pending t = map FnRemoveConnection ps" .
qed

abbreviation pool_reach where
  "pool_reach E wr onwritten app net user io_user \<equiv>
     reach pool_started (pool_step E (io_application wr onwritten app) net user io_user)"

text \<open>C2. A whole server with loop threads is memory safe and keeps its books as long as no accepted peer gets
  the name of a connection in the map: from its construction and start, through every order of the
  rounds of its own loop (accepting peers, executing the removals posted to it) and of the operations
  of its I/O loops (rounds with peers that send, close or fail, calls of the application in the loop's
  thread, calls of other threads, in one piece or step by step while the connection is not closed in
  between, destructions of released connections), the next operation fails no assertion and
  dereferences nothing destroyed; the map holds exactly the connections that are held in the loops,
  each under its own name, and every connection lives in the one loop it was given. The code does not
  ensure the condition on names (\<open>same_port_destroys_connection\<close>). A round is one step.\<close>

theorem pool_server_safe:
  assumes "pool_reach E wr onwritten app net user io_user s" and "pool_op_ok net s oper"
  shows "case run_pool_op E (io_application wr onwritten app) net user io_user oper s of
      Inl e \<Rightarrow> env_fault e
    | Inr t \<Rightarrow> pool_reach E wr onwritten app net user io_user t \<and>
        (\<forall>n p. sv_connections t n = Some p \<longleftrightarrow>
           (\<exists>w c. ms_loops t (ms_home t p) = Some w \<and> p \<in> cx_refs w \<and> cx_conns w p = Some c \<and> cn_name c = n)) \<and>
        (\<forall>l w p c. ms_loops t l = Some w \<and> cx_conns w p = Some c \<longrightarrow> ms_home t p = l)"
proof -
  obtain ps where i: "pool_state ps s" "el_pending s = map FnRemoveConnection ps"
    using pool_system.reach_inv[OF assms(1)] by (elim exE conjE)
  have books: "(\<forall>n p. sv_connections t n = Some p \<longleftrightarrow>
           (\<exists>w c. ms_loops t (ms_home t p) = Some w \<and> p \<in> cx_refs w \<and> cx_conns w p = Some c \<and> cn_name c = n)) \<and>
        (\<forall>l w p c. ms_loops t l = Some w \<and> cx_conns w p = Some c \<longrightarrow> ms_home t p = l)" if "pool_state qs t" for qs t
  proof -
    have li: "loops_inv qs t" using that by (simp add: pool_state_def)
    have "ms_home t p = l" if "ms_loops t l = Some w" "cx_conns w p = Some c" for l w p c
      using loops_invD(1)[OF li that(1)] that(2) by (simp add: loop_ok_def conn_names_def)
    moreover have "sv_connections t n = Some p \<longleftrightarrow>
        (\<exists>w c. ms_loops t (ms_home t p) = Some w \<and> p \<in> cx_refs w \<and> cx_conns w p = Some c \<and> cn_name c = n)" for n p
      unfolding loops_invD(2)[OF li] by (auto simp: entry_def conn_names_def)
    ultimately show ?thesis by blast
  qed
  have ok: "ok_res (\<lambda>t. \<exists>qs. pool_state qs t \<and> el_pending t = map FnRemoveConnection qs)
      (run_pool_op E (io_application wr onwritten app) net user io_user oper s)"
    by (rule run_pool_op_ok[OF i assms(2)])
  then show ?thesis
  proof (cases "run_pool_op E (io_application wr onwritten app) net user io_user oper s")
    case (Inr t)
    then obtain qs where "pool_state qs t" using ok by auto
    from books[OF this] reach_step[OF assms(1) pool_step.intros[OF assms(2) Inr]] Inr show ?thesis by simp
  qed simp
qed

text \<open>C10. In a server with loop threads, as long as no accepted peer gets the name of a connection in the map, a
  removal that an I/O loop has posted is carried out in the next round of the server's loop, whatever
  peers that round accepts or turns away: afterwards the server's queue is empty, each connection that
  was to be removed is out of the map, the server holds it no longer, and its own loop has been told
  to destroy it.\<close>

theorem posted_removals_done:
  assumes "pool_reach E wr onwritten app net user io_user s" and "pool_op_ok net s (PoRound evs now rd wr' acc)"
  shows "ok_res (\<lambda>t. el_pending t = [] \<and>
      (\<forall>p. FnRemoveConnection p \<in> set (el_pending s) \<longrightarrow>
         (\<forall>n. sv_connections t n \<noteq> Some p) \<and>
         (\<exists>w. ms_loops t (ms_home t p) = Some w \<and> p \<notin> cx_refs w \<and> FnDestroy p \<in> set (el_pending w))))
    (run_pool_op E (io_application wr onwritten app) net user io_user (PoRound evs now rd wr' acc) s)"
proof -
  obtain ps where i: "pool_state ps s" "el_pending s = map FnRemoveConnection ps"
    using pool_system.reach_inv[OF assms(1)] by (elim exE conjE)
  have a: "deliverable s evs" "\<forall>s. pool_fresh net s (acc s)" using assms(2) by simp_all
  show ?thesis unfolding run_pool_op_def pool_op.case
  proof (rule ok_res_mono[OF pool_round_ok[OF i a ios.app]])
    fix t
    assume t: "pool_state [] t \<and> el_pending t = [] \<and> (\<forall>p \<in> set ps. gone t p)"
    have "(\<forall>n. sv_connections t n \<noteq> Some p) \<and>
         (\<exists>w. ms_loops t (ms_home t p) = Some w \<and> p \<notin> cx_refs w \<and> FnDestroy p \<in> set (el_pending w))"
      if "FnRemoveConnection p \<in> set (el_pending s)" for p
    proof -
      have "p \<in> set ps" using that i(2) by auto
      then have g: "gone t p" using t by simp
      then have "\<not> entry t p n" for n by (auto simp: gone_def entry_def)
      moreover have "loops_inv [] t" using t by (simp add: pool_state_def)
      ultimately have "sv_connections t n \<noteq> Some p" for n using loops_invD(2) by blast
      with g show ?thesis by (simp add: gone_def)
    qed
    with t show "el_pending t = [] \<and>
      (\<forall>p. FnRemoveConnection p \<in> set (el_pending s) \<longrightarrow>
         (\<forall>n. sv_connections t n \<noteq> Some p) \<and>
         (\<exists>w. ms_loops t (ms_home t p) = Some w \<and> p \<notin> cx_refs w \<and> FnDestroy p \<in> set (el_pending w)))" by simp
  qed
qed

section \<open>A small server with two loop threads\<close>

definition idle_io :: ioloop where
  "idle_io = wloop.extend no_conns \<lparr>io_posted = []\<rparr>"

abbreviation quiet_io :: "ioloop conn_env" where
  "quiet_io \<equiv> io_application (\<lambda>_ _. 0) (\<lambda>_. Inr) (\<lambda>_ _. [])"

abbreviation idle_round :: "ioloop conn_op" where
  "idle_round \<equiv> CoRound [] 5 (\<lambda>_ _. ReadvError 0) (\<lambda>_ _. 0)"

lemma idle_io_fields:
  "rx_chans idle_io = Map.empty" "rx_channelMap idle_io = Map.empty" "cx_conns idle_io = Map.empty"
  "cx_refs idle_io = {}" "el_pending idle_io = []" "io_posted idle_io = []"
  by (simp_all add: idle_io_def no_conns_def raw_loop_def tloop.defs wloop.defs)

lemma idle_io_fresh: "fresh_loop idle_io"
proof -
  have "rx_inv idle_io" by (rule rx_inv_cong[OF rx_inv_new]) (simp_all add: idle_io_fields idle_io_def no_conns_def raw_loop_def tloop.defs wloop.defs)
  then show ?thesis by (simp add: fresh_loop_def idle_io_fields)
qed

text \<open>One connection's life in its loop: opened, established, closed by force, its removal posted.\<close>

lemma io_opened:
  "\<exists>v c ch. conn_open quiet_io False 20 name 9 False mcb wcb idle_io = Inr v \<and> cx_conns v = [20 \<mapsto> c] \<and> cn_name c = name \<and>
    cn_fd c = 9 \<and> \<not> cn_connectionCb c \<and> cn_closeCb c = Some CloseOwner \<and> cn_state c = CONNECTING \<and> rx_chans v = [20 \<mapsto> ch] \<and>
    rx_channelMap v = Map.empty \<and> ch_fd ch = 9 \<and> ch_state ch = NEW \<and> ch_requested ch = 0 \<and> el_pending v = [FnEstablish 20] \<and>
    cx_refs v = {20} \<and> io_posted v = []"
  by (simp add: conn_open_def TcpConnection_new_def fresh_buffer_new idle_io_fields set_callbacks_def runInLoop_def
      queueInLoop_def queue_push_def wakeup_def Channel_put_def put_conn_def conn_channel_def Channel_make_def sys_call_def kNoneEvent_def)

lemma io_established:
  assumes "cx_conns v = [20 \<mapsto> c]" and "\<not> cn_connectionCb c" and "cn_state c = CONNECTING"
    and "rx_chans v = [20 \<mapsto> ch]" and "rx_channelMap v = Map.empty" and "ch_fd ch = 9" and "ch_state ch = NEW"
    and "ch_requested ch = 0" and "el_pending v = [FnEstablish 20]" and "cx_refs v = {20}" and "io_posted v = []"
  shows "\<exists>u ch'. run_conn_op quiet_io (user_calls (\<lambda>_ _. [])) idle_round v = Inr u \<and> cx_conns u = [20 \<mapsto> c\<lparr>cn_state := CONNECTED\<rparr>] \<and>
    rx_chans u = [20 \<mapsto> ch'] \<and> ch_fd ch' = 9 \<and> ch_state ch' = ADDED \<and> rx_channelMap u = [9 \<mapsto> 20] \<and> el_pending u = [] \<and>
    cx_refs u = {20} \<and> io_posted u = []"
  using assms
  by (simp add: run_conn_op_def loop_round_def Epoll_select_def doPendingFunctions_def conn_exec_def connectionEstablish_def
      put_conn_def enableRead_def Channel_request_def Channel_update_def Epoll_updateChannel_def Epoll_update_def
      Channel_put_def sys_call_def connectionCallback_def)

lemma io_closed:
  assumes "cx_conns v = [20 \<mapsto> c]" and "\<not> cn_connectionCb c" and "cn_state c = CONNECTED" and "cn_closeCb c = Some CloseOwner"
    and "rx_chans v = [20 \<mapsto> ch]" and "ch_fd ch = 9" and "ch_state ch = ADDED" and "rx_channelMap v = [9 \<mapsto> 20]"
    and "el_pending v = []" and "io_posted v = []"
  shows "\<exists>u x. run_conn_op quiet_io (user_calls (\<lambda>_ _. [])) (CoCall True (CcForceClose 20)) v = Inr u \<and> io_posted u = [] \<and>
    run_conn_op quiet_io (user_calls (\<lambda>_ _. [])) idle_round u = Inr x \<and> io_posted x = [20]"
  using assms
  by (simp add: run_conn_op_def run_conn_call_def TcpConnection_forceClose_eq setSocketState_def put_conn_def
      queueInLoop_def queue_push_def wakeup_def loop_round_def Epoll_select_def doPendingFunctions_def conn_exec_def forceCloseInLoop_def
      conn_handleClose_def disableAll_def Channel_request_def Channel_update_def Epoll_updateChannel_def Epoll_update_def
      Channel_put_def sys_call_def connectionCallback_def io_application_def application_def pool_close_def isNoEvent_def kNoneEvent_def)

text \<open>The server accepts it in a round of its own loop, for the first of its two threads.\<close>

definition pool_accept :: "mserver \<Rightarrow> ptr \<times> accept_env \<times> sockaddr" where
  "pool_accept s =
     (let A = \<lparr>ac_outcome = (9, in_bytes 4242 [10, 0, 0, 1]), ac_errno = 0, ac_again = 0, ac_open = 0\<rparr> in
      if pool_fresh toy_inet s (20, A, first_peer) then (20, A, first_peer) else (20, A\<lparr>ac_outcome := (-1, [])\<rparr>, first_peer))"

lemma pool_accept_fresh: "pool_fresh toy_inet s (pool_accept s)"
  by (simp add: pool_accept_def loops_fresh_def new_peer_def Socket_accept_def SocketUtil_acceptSocket_def EMFILE_def)

abbreviation base_round :: "(ptr \<times> events) list \<Rightarrow> pool_op" where
  "base_round evs \<equiv> PoRound evs 3 (\<lambda>_ _. ReadvError 0) (\<lambda>_ _. 0) pool_accept"

abbreviation base_env :: "mserver conn_env" where
  "base_env \<equiv> server_application (\<lambda>_ _. 0) (\<lambda>_. Inr) (\<lambda>_ _. [])"

abbreviation pool_run :: "pool_op \<Rightarrow> mserver \<Rightarrow> mserver result" where
  "pool_run \<equiv> run_pool_op base_env quiet_io toy_inet (\<lambda>_ _. []) (\<lambda>_ _. [])"

abbreviation small_reach :: "mserver \<Rightarrow> bool" where
  "small_reach \<equiv> pool_reach base_env (\<lambda>_ _. 0) (\<lambda>_. Inr) (\<lambda>_ _. []) toy_inet (\<lambda>_ _. []) (\<lambda>_ _. [])"

lemma pool_first_accept:
  "\<exists>s u v name mcb wcb. pool_started s \<and> pool_op_ok toy_inet s (base_round [(10, POLLIN)]) \<and> pool_run (base_round [(10, POLLIN)]) s = Inr u \<and>
    conn_open quiet_io False 20 name 9 False mcb wcb idle_io = Inr v \<and> ms_loops u 100 = Some v \<and> ms_home u 20 = 100 \<and>
    sv_connections u = [name \<mapsto> 20] \<and> el_pending u = []"
proof -
  have distinct: "distinct [4, 5, 6, 7 :: int]" "distinct [2, 3, 10 :: ptr]" "0 \<le> (7 :: int)" "0 < (2 :: int)" "(2 :: int) \<le> 2147483647"
    "\<forall>i. (100 + nat i :: ptr) \<noteq> 1" "\<forall>l :: ptr. fresh_loop idle_io" using idle_io_fresh by simp_all
  obtain s where s: "pool_boot 4 2 5 3 6 10 7 first_peer ''s'' 1 2 (\<lambda>i. 100 + nat i) (\<lambda>_. idle_io) False False False = Inr s"
    "pool_state [] s" "el_pending s = []" "sv_connections s = Map.empty" "sv_name s = ''s''" "sv_listenFd s = 6" "\<not> sv_connectionCb s"
    "interest (rx_trace s) 6 = Some (kReadEvent, 10)" "rx_eventsSize s = InitEventVectorSize"
    "rx_chans s = (rx_chans (built_loop 4 2 5 3 0))(10 \<mapsto> (listen_channel 6)\<lparr>ch_requested := kReadEvent, ch_state := ADDED\<rparr>)"
    "ms_pool s = EventLoopThreadPool_start (\<lambda>i. 100 + nat i) (EventLoopThreadPool_new 1 2)"
    "ms_loops s = (\<lambda>l. if l \<in> set (po_loops (ms_pool s)) then Some idle_io else None)"
    using pool_boot_eq[OF distinct, of first_peer "''s''" False False False] by (elim exE conjE) (rule that, (assumption | simp)+)
  let ?evs = "[(10, POLLIN)]"
  let ?A = "\<lparr>ac_outcome = (9, in_bytes 4242 [10, 0, 0, 1]), ac_errno = 0, ac_again = 0, ac_open = 0\<rparr>"
  have started: "pool_started s" by (rule pool_startedI[OF s(1)]) (use idle_io_fresh in simp_all)
  have del: "deliverable s ?evs" using s(8,9) by (auto simp: deliverable_def InitEventVectorSize_def)
  have ok: "pool_op_ok toy_inet s (base_round ?evs)" using del pool_accept_fresh by (simp add: s(10))
  have "base_inv s" using s(2) by (simp add: pool_state_def)
  then have inv: "sys_inv [] s" by (rule base_sys_inv[of s "[]"]) (simp add: s(3))
  obtain t where t: "Epoll_select (Some ?evs) s = Inr (t, map fst ?evs)" "sys_inv [] t" "conn_ext s t"
    "el_pending t = el_pending s" "\<forall>(p, e) \<in> set ?evs. returned t p = Some e"
    by (rule select_ok[OF inv del]) (rule that, assumption+)
  have more: "wloop.more t = wloop.more s" and keys: "chan_keys t = chan_keys s" using t(3) by (simp_all add: conn_ext_def)
  note m = server_more[OF more]
  have m2: "ms_pool t = ms_pool s" "ms_loops t = ms_loops s" "sv_connectionCb t = sv_connectionCb s" using more by (cases s; cases t; simp)+
  have loops: "po_loops (ms_pool s) = [100, 101]" "po_mainLoop (ms_pool s) = 1" "po_nextLoopIndex (ms_pool s) = 0"
    by (simp_all add: s(11) pool_start_eq EventLoopThreadPool_new_def upto.simps)
  obtain ch where ch: "rx_chans t 10 = Some ch" "ch_returned ch = POLLIN" "chan_key ch = (6, Some CbAcceptorRead, None, None, None)"
    using fun_cong[OF keys, of 10] t(5) by (auto simp: chan_keys_def returned_def s(10) chan_key_def Channel_make_def)
  have cbs: "ch_readCb ch = Some CbAcceptorRead" "ch_writeCb ch = None" "ch_errorCb ch = None" "ch_closeCb ch = None"
    using ch(3) by (simp_all add: chan_key_def)
  have wants: "wants_read POLLIN" "\<not> wants_close POLLIN" "\<not> wants_write POLLIN" "\<not> wants_error POLLIN"
    by (simp_all add: wants_read_def wants_close_def wants_write_def wants_error_def event_consts)
  have "pool_fresh toy_inet t (20, ?A, first_peer)"
    by (simp add: loops_fresh_def new_peer_def Socket_accept_def SocketUtil_acceptSocket_def m m2 s(4,12) idle_io_fields unused_def)
  then have one: "pool_accept t = (20, ?A, first_peer)" by (simp add: pool_accept_def)
  let ?t1 = "sys_call (SysAccept (sv_listenFd t)) t"
  obtain peer where sa: "Socket_accept (sv_listenFd t) (ac_outcome ?A) first_peer t = (9, peer, ?t1)"
    by (simp add: Socket_accept_def SocketUtil_acceptSocket_def)
  let ?n = "connection_name toy_inet (sv_name ?t1) peer"
  obtain v where v: "conn_open quiet_io False 20 ?n 9 False (sv_messageCb ?t1) (sv_writeCompleteCb ?t1) idle_io = Inr v"
    using io_opened[of ?n "sv_messageCb ?t1" "sv_writeCompleteCb ?t1"] by blast
  let ?pl = "(ms_pool s)\<lparr>po_nextLoopIndex := 1\<rparr>"
  have nx: "getNextLoop (ms_pool ?t1) = Inr (100, ?pl)" using loops by (simp add: getNextLoop_def m2 sys_call_def)
  have main: "100 \<noteq> po_mainLoop ?pl" using loops by simp
  have w: "ms_loops ?t1 100 = Some idle_io" using loops by (simp add: sys_call_def m2 s(12))
  have free: "sv_connections ?t1 ?n = None" by (simp add: sys_call_def m s(4))
  let ?u = "?t1\<lparr>ms_pool := ?pl, ms_home := (ms_home ?t1)(20 := 100), ms_loops := (ms_loops ?t1)(100 \<mapsto> v),
      sv_connections := (sv_connections ?t1)(?n \<mapsto> 20)\<rparr>"
  let ?run = "server_callback (TcpServer_newConnection base_env quiet_io toy_inet True) base_env pool_accept (\<lambda>_ _. ReadvError 0) (\<lambda>_ _. 0) 3"
  have ccb: "sv_connectionCb ?t1 = False" using s(7) by (simp add: sys_call_def m2)
  have "TcpServer_newConnection base_env quiet_io toy_inet True 20 9 peer ?t1 = Inr ?u"
    unfolding pool_accept_eq[OF nx main w free] ccb v by simp
  then have "?run CbAcceptorRead t = Inr ?u" using sa by (simp add: server_callback_def one Acceptor_handleRead_def)
  then have "Channel_handleEvents ?run 10 t = Inr ?u"
    using ch(1,2) cbs wants by (simp add: Channel_handleEvents_def handle_if_def call_cb_def)
  then have "pool_run (base_round ?evs) s = Inr (?u\<lparr>el_calling := False, el_pending := []\<rparr>)"
    using t(1,4) s(3) by (simp add: run_pool_op_def loop_round_def doPendingFunctions_def)
  moreover have "sv_connections ?u = [?n \<mapsto> 20]" by (simp add: sys_call_def m s(4))
  ultimately show ?thesis
    using started ok v
    by (intro exI[of _ s] exI[of _ "?u\<lparr>el_calling := False, el_pending := []\<rparr>"] exI[of _ v] exI[of _ ?n]
        exI[of _ "sv_messageCb ?t1"] exI[of _ "sv_writeCompleteCb ?t1"]) simp
qed

text \<open>Its close, and the removal posted by the thread of the connection.\<close>

lemma small_step:
  assumes "small_reach s" and "pool_op_ok toy_inet s oper" and "pool_run oper s = Inr t"
  shows "small_reach t"
  by (rule reach_step[where step = "pool_step base_env quiet_io toy_inet (\<lambda>_ _. []) (\<lambda>_ _. [])", OF assms(1) pool_step.intros[OF assms(2,3)]])

lemma pool_loop_step:
  assumes "small_reach s" and l: "ms_loops s l = Some w" and ok: "io_op_ok (el_pending s) w cop"
    and run: "run_conn_op quiet_io (user_calls (\<lambda>_ _. [])) cop w = Inr w'"
  shows "\<exists>t. small_reach t \<and> ms_loops t l = Some (w'\<lparr>io_posted := []\<rparr>) \<and> ms_home t = ms_home s \<and>
    sv_connections t = sv_connections s \<and> el_pending t = el_pending s @ map FnRemoveConnection (io_posted w')"
proof -
  let ?t = "(s\<lparr>ms_loops := (ms_loops s)(l \<mapsto> w'\<lparr>io_posted := []\<rparr>)\<rparr>)\<lparr>el_pending := el_pending s @ map FnRemoveConnection (io_posted w'),
      rx_trace := rx_trace s @ replicate (length (io_posted w')) (SysEventfdWrite (el_wakeupFd s))\<rparr>"
  have op: "pool_op_ok toy_inet s (PoLoop l cop)" using l ok by simp
  have "pool_run (PoLoop l cop) s = Inr ?t"
    using l run by (simp add: run_pool_op_def on_loop_def post_removals_def post_removals_eq)
  then have "small_reach ?t" by (rule small_step[OF assms(1) op])
  then show ?thesis by (intro exI[of _ ?t]) simp
qed

lemma idle_round_ok: "conn_op_ok w idle_round"
  by (simp add: deliverable_def io_ok_def)

lemma small_removal:
  "\<exists>s. small_reach s \<and> el_pending s = [FnRemoveConnection 20] \<and> (\<exists>n. sv_connections s n = Some 20)"
proof -
  obtain s u v name mcb wcb where s: "pool_started s" "pool_op_ok toy_inet s (base_round [(10, POLLIN)])"
    "pool_run (base_round [(10, POLLIN)]) s = Inr u"
    and v: "conn_open quiet_io False 20 name 9 False mcb wcb idle_io = Inr v"
    and u: "ms_loops u 100 = Some v" "sv_connections u = [name \<mapsto> 20]" "el_pending u = []"
    using pool_first_accept by (elim exE conjE) (rule that, assumption+)
  have "small_reach s" by (rule reach_start[of pool_started, OF s(1)])
  from small_step[OF this s(2,3)] have ru: "small_reach u" .
  obtain c ch where c: "cx_conns v = [20 \<mapsto> c]" "\<not> cn_connectionCb c" "cn_closeCb c = Some CloseOwner" "cn_state c = CONNECTING"
    "rx_chans v = [20 \<mapsto> ch]" "rx_channelMap v = Map.empty" "ch_fd ch = 9" "ch_state ch = NEW" "ch_requested ch = 0"
    "el_pending v = [FnEstablish 20]" "cx_refs v = {20}" "io_posted v = []"
    using io_opened[of name mcb wcb] v by (elim exE conjE) simp
  obtain w ch' where w: "run_conn_op quiet_io (user_calls (\<lambda>_ _. [])) idle_round v = Inr w"
    "cx_conns w = [20 \<mapsto> c\<lparr>cn_state := CONNECTED\<rparr>]" "rx_chans w = [20 \<mapsto> ch']" "ch_fd ch' = 9" "ch_state ch' = ADDED"
    "rx_channelMap w = [9 \<mapsto> 20]" "el_pending w = []" "cx_refs w = {20}" "io_posted w = []"
    using io_established[OF c(1,2,4-12)] by (elim exE conjE) (rule that, assumption+)
  have "io_op_ok (el_pending u) v idle_round" using idle_round_ok by simp
  from pool_loop_step[OF ru u(1) this w(1)] obtain t1 where t1: "small_reach t1" "ms_loops t1 100 = Some (w\<lparr>io_posted := []\<rparr>)"
    "sv_connections t1 = [name \<mapsto> 20]" "el_pending t1 = []"
    using u w(9) by (elim exE conjE) simp
  have same: "w\<lparr>io_posted := []\<rparr> = w" using w(9) by (cases w) simp
  obtain x y where x: "run_conn_op quiet_io (user_calls (\<lambda>_ _. [])) (CoCall True (CcForceClose 20)) w = Inr x" "io_posted x = []"
    "run_conn_op quiet_io (user_calls (\<lambda>_ _. [])) idle_round x = Inr y" "io_posted y = [20]"
    using io_closed[OF w(2) _ _ _ w(3-7,9)] c(2,3) by (elim meta_impE exE conjE) (simp_all add: that)
  have "io_op_ok (el_pending t1) w (CoCall True (CcForceClose 20))" using w(2) by simp
  from pool_loop_step[OF t1(1) t1(2)[unfolded same] this x(1)] obtain t2 where t2: "small_reach t2"
    "ms_loops t2 100 = Some (x\<lparr>io_posted := []\<rparr>)" "sv_connections t2 = [name \<mapsto> 20]" "el_pending t2 = []"
    using t1 x(2) by (elim exE conjE) simp
  have same: "x\<lparr>io_posted := []\<rparr> = x" using x(2) by (cases x) simp
  have "io_op_ok (el_pending t2) x idle_round" using idle_round_ok by simp
  from pool_loop_step[OF t2(1) t2(2)[unfolded same] this x(3)] obtain t3 where "small_reach t3"
    "sv_connections t3 = [name \<mapsto> 20]" "el_pending t3 = [FnRemoveConnection 20]"
    using t2 x(4) by (elim exE conjE) simp
  then show ?thesis by (intro exI[of _ t3]) simp
qed

theorem pool_server_safe_witness:
  "\<exists>s u. small_reach s \<and> pool_run (base_round [(10, POLLIN)]) s = Inr u \<and> ran (sv_connections u) = {20} \<and> small_reach u"
proof -
  obtain s u v name mcb wcb where s: "pool_started s" "pool_op_ok toy_inet s (base_round [(10, POLLIN)])"
    "pool_run (base_round [(10, POLLIN)]) s = Inr u"
    and v: "conn_open quiet_io False 20 name 9 False mcb wcb idle_io = Inr v"
    and u: "ms_loops u 100 = Some v" "sv_connections u = [name \<mapsto> 20]" "el_pending u = []"
    using pool_first_accept by (elim exE conjE) (rule that, assumption+)
  have r: "small_reach s" by (rule reach_start[of pool_started, OF s(1)])
  from pool_server_safe[OF r s(2)] s(3) have "small_reach u" by simp
  then show ?thesis using r s(3) u(2) by (intro exI[of _ s] exI[of _ u]) simp
qed

theorem posted_removals_done_witness:
  "\<exists>s n. small_reach s \<and> el_pending s = [FnRemoveConnection 20] \<and> sv_connections s n = Some 20 \<and>
    ok_res (\<lambda>t. el_pending t = [] \<and> sv_connections t n \<noteq> Some 20) (pool_run (base_round []) s)"
proof -
  obtain s n where s: "small_reach s" "el_pending s = [FnRemoveConnection 20]" "sv_connections s n = Some 20"
    using small_removal by (elim exE conjE)
  have ok: "pool_op_ok toy_inet s (base_round [])" using pool_accept_fresh by (simp add: deliverable_def)
  have "ok_res (\<lambda>t. el_pending t = [] \<and> sv_connections t n \<noteq> Some 20) (pool_run (base_round []) s)"
    by (rule ok_res_mono[OF posted_removals_done[OF s(1) ok]]) (use s(2) in simp)
  then show ?thesis using s by (intro exI[of _ s] exI[of _ n]) simp
qed

end
