(* ===== verification/Spec2Isabelle.thy ===== *)
theory Spec2Isabelle
  imports Buffers Times Reactor Loops Timers TcpConns ConnOwners ConnSystem Logging SockAddrs Connectors Threads Servers Clients
    ServerSystem ServerPool
begin

text \<open>
  A verification development for stnl, a C++ network library in the style of muduo
  (\<open>src/stnl\<close>): non-blocking sockets, one event loop per thread, callbacks.

  \<^bold>\<open>The program.\<close> An \<open>EventLoop\<close> owns an \<open>Epoll\<close> selector, a queue of pending functions with an
  event descriptor that wakes the loop, and a \<open>TimerQueue\<close> behind a timer descriptor. A
  \<open>Channel\<close> ties a descriptor to its callbacks and is reached from the selector through a raw
  pointer. On top of this stand \<open>TcpConnection\<close> (two \<open>NetBuffer\<close>s and a state machine),
  \<open>Connector\<close> and \<open>TcpClient\<close>, \<open>Acceptor\<close> and \<open>TcpServer\<close>; beside it \<open>Thread\<close>,
  \<open>EventLoopThread\<close>, the pool of loops, and the logger with its asynchronous back end.

  \<^bold>\<open>State and effects.\<close> Objects reached through pointers live in stores (\<open>ptr \<Rightarrow> _ option\<close>), and
  a dereference of an absent object is the fault \<open>DanglingPointer\<close>. The state of a loop is one
  record that each component extends:
  \<open>reactor\<close> (Reactor), \<open>eventloop\<close> (Loops), \<open>tloop\<close> (Timers), \<open>wloop\<close> (TcpConns), then \<open>sloop\<close> for
  a server (Servers), \<open>mserver\<close> and \<open>ioloop\<close> for one with loop threads and for their loops
  (ServerPool), or \<open>kloop\<close> and \<open>cloop\<close> for a client (Connectors, Clients); operations are
  polymorphic in the extension, so those of a lower component run unchanged in a higher one. An
  operation returns \<open>'a result\<close>, a fault or a new state: \<open>assert\<close> is \<open>AssertFailed\<close>, a fatal log
  line is \<open>Aborted\<close>. A callback or queued function is a value of \<open>callback\<close> or \<open>task\<close>, named after
  what the code binds; whether the caller is in the loop's thread is an argument. Calls into the
  kernel are appended to a trace, and \<open>interest\<close> and its like give the documented meaning of a
  trace.

  \<^bold>\<open>What is outside.\<close> Results of the kernel (\<open>epoll_wait\<close>, \<open>read\<close>, \<open>write\<close>, \<open>accept\<close>, \<open>connect\<close>,
  \<open>SO_ERROR\<close>), the clock, the rounding of \<open>double\<close>, \<open>fopen\<close> and \<open>fwrite\<close>, \<open>inet_pton\<close> and
  \<open>inet_ntop\<close>, the addresses of new objects and the application's callbacks are arguments.
  \<open>BadAlloc\<close>, \<open>LengthError\<close> and the overflow of the clock are the faults that come from there
  (\<open>env_fault\<close>); \<open>ok_res\<close> says that nothing else happens.

  \<^bold>\<open>The theories.\<close>
  \<^item> Base: faults and results, \<open>size_t\<close>, memory, reachable states and the locale
    \<open>invariant_system\<close> that every step relation below interprets.
  \<^item> Buffers (\<open>Buffer.h\<close>, \<open>Buffer.cpp\<close>): \<open>FixedBuffer\<close> and \<open>NetBuffer\<close>. The locale \<open>byte_queue\<close> is
    the contract of a buffer as a list of bytes; its interpretation \<open>netq\<close> is discharged by the
    index arithmetic. The properties are the refinement, the exact outcome of an append, reading
    from a descriptor and the header round trip.
  \<^item> Times (\<open>TimeUtil\<close>): 64-bit time stamps, their printing and the time left.
  \<^item> Reactor (\<open>Channel\<close>, \<open>Selector.h\<close>, \<open>Epoll\<close>): the locale \<open>selector\<close> is what clients of the
    selector rely on: the kernel watches what the channels request.
  \<^item> Loops (\<open>EventLoop\<close>): rounds of the loop, the queue of functions, wakeups under interleaving from
    before the call of \<open>loop()\<close> on.
  \<^item> Timers (\<open>Timer\<close>, the timers of \<open>EventLoop\<close>): the timer queue; the locale \<open>timer_callbacks\<close>
    is what a timer's callback may do.
  \<^item> TcpConns, ConnOwners and ConnSystem (\<open>TcpConnection\<close>): connections, their state machine, and the
    system of all connections of a loop with their owner, the application and other threads. The
    locale \<open>conn_owner\<close> (ConnOwners) is what a connection relies on from its owner: an invariant
    \<open>good\<close> of the owner that connections leave alone and a close callback that keeps both. The
    safety of the whole system is the property \<open>connection_system_safe\<close>. Calls of other threads come
    in one piece or as their state write and their queueing, which the code does not synchronise:
    safety holds while the connection is not closed between the test and the queueing, and
    \<open>late_send_dangles\<close> and \<open>racing_force_close_closes_twice\<close> show what happens when it is. The
    definitions \<open>conn_open\<close>, \<open>owner_close\<close> and \<open>owner_erase\<close> are the specification of an owner and
    translate no lines; Servers and Clients have the code.
  \<^item> SockAddrs (\<open>Socket\<close>): addresses as bytes and the wrappers of system calls.
  \<^item> Connectors (\<open>Connector\<close>): connecting with retries; an attempt settles exactly once.
  \<^item> Clients (\<open>TcpClient\<close>): connector and connection together; reconnecting, and the destructor.
  \<^item> Servers (\<open>TcpServer.h\<close>, \<open>TcpServer.cpp\<close>): acceptor and map of connections; the server
    refines the owner of ConnSystem as long as names do not collide, and what happens when they do. The
    safety of both server systems below has this condition on names, which the code does not ensure.
  \<^item> ServerSystem: a whole server in one loop, its acceptor and its connections, as a step relation;
    the interpretation \<open>servers\<close> of \<open>conn_owner\<close> makes the safety \<open>server_system_safe\<close> a consequence of
    what ConnOwners shows.
  \<^item> ServerPool: the server with the loop threads of a pool. Every loop has its own state; a step is
    one operation of one loop, and loops reach each other through their queues only. The
    interpretation \<open>ios\<close> of \<open>conn_owner\<close> is an I/O loop whose owner is elsewhere. \<open>pool_server_safe\<close> is
    the safety of all loops together, \<open>posted_removals_done\<close> the removal of closed connections.
  \<^item> Threads (\<open>Thread\<close>, \<open>EventLoopThread\<close>, \<open>EventLoopThreadPool\<close>, \<open>CountDownLatch\<close>): threads as
    program counters; when \<open>startLoop\<close> returns, the destructor, the latch, the round robin.
  \<^item> Logging (\<open>logger\<close>): records, handlers, rolling files, double buffering.

  \<^bold>\<open>Bounds and termination.\<close> The loop of \<open>EventLoop::loop\<close> is a list of rounds; the loop of
  \<open>fwrite\<close> calls is a \<open>partial_function\<close> whose value \<open>None\<close> is that it does not return;
  \<open>logfile_append_returns\<close> shows that it returns under the C standard's contract of \<open>fwrite\<close>, and
  not without it. \<open>size_t\<close> and \<open>int64_t\<close> values are numbers with the wrap-around or the overflow fault
  written out, ports and event masks are words.

  \<^bold>\<open>Not modelled.\<close> \<open>noncopyable\<close> has no behaviour; \<open>Selector.h\<close> is an interface with the one
  implementation \<open>Epoll\<close>. Getters and setters that only pass a field on are the fields of the
  records. The two addresses of a \<open>TcpConnection\<close> reach only the log. An operation of a loop is one
  step of ServerPool, so that what a loop posts reaches another loop when its operation is over;
  finer interleavings are those of Loops (the wakeup), Threads (start-up), Logging (the two threads of
  asynchronous logging) and ConnSystem (the pieces of calls of other threads); a call that tears
  into a round of the loop itself is not modelled. Servers set no timers of their own, and the destructor of a server is modelled for the
  connections of its own loop. Log lines inside the network code have no effect on its state and are left out; a
  \<open>LOG_FATAL\<close> is the fault \<open>Aborted\<close>. Tests and examples are not part of the library.
\<close>

end
